(* ===== verification/Prelude.thy ===== *)
theory Prelude
  imports Main "HOL-Library.Word"
begin

unbundle bit_operations_syntax

section \<open>Shared types, results, and machine arithmetic\<close>

text \<open>
  What every component of the development uses: the widths of the machine integers, the
  outcome of a Rust call (a value, an error of the crate, or a panic), state-passing actions
  for \<open>&mut self\<close> methods that return a \<open>Result\<close>, the checked arithmetic of the Rust
  standard library on words, and the generic facts about them.  A method that fails half way
  keeps the changes it has already made, so an action returns the state on every branch.
\<close>

type_synonym u8 = "8 word"
type_synonym u16 = "16 word"
type_synonym u32 = "32 word"
type_synonym u64 = "64 word"

named_theorems range_simps \<open>unfolding of the interval vocabulary\<close>
named_theorems act_simps \<open>evaluation of actions and results\<close>

subsection \<open>Results and panics\<close>

datatype ('a, 'e) result = Ok 'a | Err 'e | Panic

definition rbind :: "('a, 'e) result \<Rightarrow> ('a \<Rightarrow> ('b, 'e) result) \<Rightarrow> ('b, 'e) result" where
  "rbind r f = (case r of Ok x \<Rightarrow> f x | Err e \<Rightarrow> Err e | Panic \<Rightarrow> Panic)"

definition ok_or :: "'a option \<Rightarrow> 'e \<Rightarrow> ('a, 'e) result" where
  "ok_or x e = (case x of Some y \<Rightarrow> Ok y | None \<Rightarrow> Err e)"

definition unwrap :: "'a option \<Rightarrow> ('a, 'e) result" where
  "unwrap x = (case x of Some y \<Rightarrow> Ok y | None \<Rightarrow> Panic)"

fun is_ok :: "('a, 'e) result \<Rightarrow> bool" where
  "is_ok (Ok x) = True"
| "is_ok (Err e) = False"
| "is_ok Panic = False"

lemma rbind_simps [simp, act_simps]:
  "rbind (Ok x) f = f x"
  "rbind (Err e) f = Err e"
  "rbind Panic f = Panic"
  by (simp_all add: rbind_def)

lemma rbind_eq_Ok_iff: "rbind r f = Ok y \<longleftrightarrow> (\<exists>x. r = Ok x \<and> f x = Ok y)"
  by (cases r) auto

lemma rbind_eq_Panic_iff: "rbind r f = Panic \<longleftrightarrow> r = Panic \<or> (\<exists>x. r = Ok x \<and> f x = Panic)"
  by (cases r) auto

lemma rbind_eq_OkE:
  assumes "rbind r f = Ok y"
  obtains x where "r = Ok x" and "f x = Ok y"
  using assms by (auto simp: rbind_eq_Ok_iff)

lemma ok_or_simps [simp, act_simps]: "ok_or (Some x) e = Ok x" "ok_or None e = Err e"
  by (simp_all add: ok_or_def)

lemma unwrap_simps [simp, act_simps]: "unwrap (Some x) = Ok x" "unwrap None = Panic"
  by (simp_all add: unwrap_def)

lemma ok_or_eq_Ok_iff: "ok_or x e = Ok y \<longleftrightarrow> x = Some y"
  by (cases x) auto

lemma ok_or_not_Panic [simp]: "ok_or x e \<noteq> Panic"
  by (cases x) auto

lemma is_ok_iff: "is_ok r \<longleftrightarrow> (\<exists>x. r = Ok x)"
  by (cases r) auto

text \<open>Loops whose body may return early: \<^verbatim>\<open>for\<close> over a vector with \<^verbatim>\<open>?\<close> in the body, and \<^verbatim>\<open>map\<close>.\<close>

fun rfold :: "('x \<Rightarrow> 's \<Rightarrow> ('s, 'e) result) \<Rightarrow> 'x list \<Rightarrow> 's \<Rightarrow> ('s, 'e) result" where
  "rfold f [] s = Ok s"
| "rfold f (x # xs) s = rbind (f x s) (rfold f xs)"

fun rmap :: "('x \<Rightarrow> ('y, 'e) result) \<Rightarrow> 'x list \<Rightarrow> ('y list, 'e) result" where
  "rmap f [] = Ok []"
| "rmap f (x # xs) = rbind (f x) (\<lambda>y. rbind (rmap f xs) (\<lambda>ys. Ok (y # ys)))"

fun map_err :: "('e \<Rightarrow> 'f) \<Rightarrow> ('a, 'e) result \<Rightarrow> ('a, 'f) result" where
  "map_err g (Ok x) = Ok x"
| "map_err g (Err e) = Err (g e)"
| "map_err g Panic = Panic"

lemma map_err_eq_Ok_iff [simp]: "map_err g r = Ok x \<longleftrightarrow> r = Ok x"
  by (cases r) auto

lemma rfold_induct_Ok:
  assumes "rfold f xs s = Ok t" and "P [] s"
    and "\<And>x s t ys. x \<in> set xs \<Longrightarrow> P ys s \<Longrightarrow> f x s = Ok t \<Longrightarrow> P (x # ys) t"
  shows "P (rev xs) t"
proof -
  have "P (rev xs @ ys) t" if "rfold f xs s = Ok t" "P ys s"
    "\<And>x s t ys. x \<in> set xs \<Longrightarrow> P ys s \<Longrightarrow> f x s = Ok t \<Longrightarrow> P (x # ys) t" for xs s ys
    using that
  proof (induction xs arbitrary: s ys)
    case (Cons x xs)
    from Cons.prems(1) obtain u where u: "f x s = Ok u" "rfold f xs u = Ok t"
      by (auto simp: rbind_eq_Ok_iff)
    have "P (x # ys) u" using Cons.prems u by auto
    from Cons.IH [OF u(2) this] Cons.prems(3) show ?case by auto
  qed simp
  from this [of xs s "[]"] assms show ?thesis by simp
qed

lemma rfold_total: "(\<And>x s. x \<in> set xs \<Longrightarrow> \<exists>t. f x s = Ok t) \<Longrightarrow> \<exists>t. rfold f xs s = Ok t"
proof (induction xs arbitrary: s)
  case (Cons x xs)
  then obtain t where "f x s = Ok t" by force
  with Cons show ?case by simp
qed simp

lemma rmap_total: "(\<And>x. x \<in> set xs \<Longrightarrow> \<exists>y. f x = Ok y) \<Longrightarrow> \<exists>ys. rmap f xs = Ok ys"
proof (induction xs)
  case (Cons x xs)
  then obtain y ys where "f x = Ok y" "rmap f xs = Ok ys" by force
  then show ?case by simp
qed simp

text \<open>
  A \<^verbatim>\<open>BTreeMap\<close> is the list of its entries in key order.  \<open>btree_entry\<close> is
  \<^verbatim>\<open>*map.entry(k).or_insert(d) = g(...)\<close>.
\<close>

fun btree_entry :: "'k::linorder \<Rightarrow> 'v \<Rightarrow> ('v \<Rightarrow> 'v) \<Rightarrow> ('k \<times> 'v) list \<Rightarrow> ('k \<times> 'v) list" where
  "btree_entry k d g [] = [(k, g d)]"
| "btree_entry k d g ((k', v) # m) =
     (if k < k' then (k, g d) # (k', v) # m
      else if k = k' then (k', g v) # m
      else (k', v) # btree_entry k d g m)"

definition btree :: "('k::linorder \<times> 'v) list \<Rightarrow> bool" where
  "btree m \<longleftrightarrow> sorted_wrt (<) (map fst m)"

lemma set_btree_entry: "fst ` set (btree_entry k d g m) = insert k (fst ` set m)"
proof (induction m)
  case (Cons e m)
  then show ?case
    by (cases e; cases "k < fst e"; cases "k = fst e") (simp_all add: insert_commute)
qed simp

lemma btree_btree_entry: "btree m \<Longrightarrow> btree (btree_entry k d g m)"
proof (induction m)
  case (Cons e m)
  then have "\<forall>x\<in>fst ` set m. fst e < x" "btree m" by (auto simp: btree_def)
  with Cons show ?case
    using set_btree_entry [of k d g m]
    by (cases e) (force simp: btree_def)
qed (simp add: btree_def)

lemma map_of_btree_entry:
  "btree m \<Longrightarrow> map_of (btree_entry k d g m) =
    (map_of m)(k \<mapsto> g (case map_of m k of None \<Rightarrow> d | Some v \<Rightarrow> v))"
proof (induction m)
  case (Cons e m)
  then have "btree m" "\<And>x. x \<in> fst ` set m \<Longrightarrow> fst e < x" by (auto simp: btree_def)
  moreover have "map_of m k = None" if "k < fst e"
  proof -
    have "k \<notin> fst ` set m" using calculation(2) that by force
    then show ?thesis by (simp add: map_of_eq_None_iff)
  qed
  ultimately show ?case
    using Cons.IH by (cases e) (auto simp: fun_eq_iff)
qed auto

subsection \<open>Actions: state passing with early return\<close>

type_synonym ('s, 'a, 'e) act = "'s \<Rightarrow> ('a, 'e) result \<times> 's"

definition abind :: "('s, 'a, 'e) act \<Rightarrow> ('a \<Rightarrow> ('s, 'b, 'e) act) \<Rightarrow> ('s, 'b, 'e) act" where
  "abind m f s = (case m s of
      (Ok x, s') \<Rightarrow> f x s'
    | (Err e, s') \<Rightarrow> (Err e, s')
    | (Panic, s') \<Rightarrow> (Panic, s'))"

definition alift :: "('a, 'e) result \<Rightarrow> ('s, 'a, 'e) act" where
  "alift r s = (r, s)"

lemma abind_eqs [act_simps]:
  "m s = (Ok x, s') \<Longrightarrow> abind m f s = f x s'"
  "m s = (Err e, s') \<Longrightarrow> abind m f s = (Err e, s')"
  "m s = (Panic, s') \<Longrightarrow> abind m f s = (Panic, s')"
  by (simp_all add: abind_def)

lemma abind_alift [simp, act_simps]:
  "abind (alift (Ok x)) f s = f x s"
  "abind (alift (Err e)) f s = (Err e, s)"
  "abind (alift Panic) f s = (Panic, s)"
  by (simp_all add: abind_def alift_def)

lemma abind_eq_Ok_iff:
  "abind m f s = (Ok y, t) \<longleftrightarrow> (\<exists>x s'. m s = (Ok x, s') \<and> f x s' = (Ok y, t))"
  by (auto simp: abind_def split: prod.splits result.splits)

lemma fst_abind: "fst (abind f g s) = rbind (fst (f s)) (\<lambda>x. fst (g x (snd (f s))))"
  by (simp add: abind_def rbind_def case_prod_beta split: result.split)

lemma fst_outcome: "fst p = x \<Longrightarrow> p = (x, snd p)"
  by auto

lemma abind_eq_OkE:
  assumes "abind m f s = (Ok y, t)"
  obtains x s' where "m s = (Ok x, s')" and "f x s' = (Ok y, t)"
  using assms by (auto simp: abind_eq_Ok_iff)

text \<open>An action \<^emph>\<open>keeps\<close> an invariant when it leaves it true on every outcome and does not panic.\<close>

definition keeps :: "('s \<Rightarrow> bool) \<Rightarrow> ('s, 'a, 'e) act \<Rightarrow> bool" where
  "keeps P m \<longleftrightarrow> (\<forall>s. P s \<longrightarrow> P (snd (m s)) \<and> fst (m s) \<noteq> Panic)"

lemma keepsI: "(\<And>s. P s \<Longrightarrow> P (snd (m s)) \<and> fst (m s) \<noteq> Panic) \<Longrightarrow> keeps P m"
  by (simp add: keeps_def)

lemma keepsD: "keeps P m \<Longrightarrow> P s \<Longrightarrow> P (snd (m s)) \<and> fst (m s) \<noteq> Panic"
  by (simp add: keeps_def)

lemma keeps_alift [intro]: "r \<noteq> Panic \<Longrightarrow> keeps P (alift r)"
  by (simp add: keeps_def alift_def)

lemma keeps_abind:
  assumes "keeps P m" and "\<And>x. keeps P (f x)"
  shows "keeps P (abind m f)"
proof (rule keepsI)
  fix s assume "P s"
  with assms(1) have "P (snd (m s)) \<and> fst (m s) \<noteq> Panic" by (rule keepsD)
  then show "P (snd (abind m f s)) \<and> fst (abind m f s) \<noteq> Panic"
    using assms(2) by (auto simp: abind_def keeps_def split: prod.splits result.splits)
qed

lemma keeps_abind_alift [intro]:
  "r \<noteq> Panic \<Longrightarrow> (\<And>x. r = Ok x \<Longrightarrow> keeps P (f x)) \<Longrightarrow> keeps P (abind (alift r) f)"
  by (cases r) (auto simp: keeps_def)

text \<open>A loop over a list, with an accumulator and an early return.\<close>

primrec afold :: "('x \<Rightarrow> 'b \<Rightarrow> ('s, 'b, 'e) act) \<Rightarrow> 'x list \<Rightarrow> 'b \<Rightarrow> ('s, 'b, 'e) act" where
  "afold f [] b = alift (Ok b)"
| "afold f (x # xs) b = abind (f x b) (afold f xs)"

lemma afold_keeps:
  assumes "\<And>x b. x \<in> set xs \<Longrightarrow> keeps P (f x b)"
  shows "keeps P (afold f xs b)"
  using assms by (induction xs arbitrary: b) (auto intro!: keeps_abind)

primrec run_calls :: "('x \<Rightarrow> ('s, unit, 'e) act) \<Rightarrow> 'x list \<Rightarrow> ('s, unit, 'e) act" where
  "run_calls f [] = alift (Ok ())"
| "run_calls f (c # cs) = (\<lambda>m. case f c m of (r, m) \<Rightarrow> if r = Panic then (Panic, m) else run_calls f cs m)"

lemma run_calls_keeps:
  assumes "\<And>c. c \<in> set cs \<Longrightarrow> keeps P (f c)"
  shows "keeps P (run_calls f cs)"
  using assms
proof (induction cs)
  case (Cons c cs)
  then have "keeps P (f c)" "keeps P (run_calls f cs)" by simp_all
  then show ?case unfolding keeps_def by (auto split: prod.splits)
qed auto

lemma afold_inv:
  assumes "\<And>x b m r m'. x \<in> set xs \<Longrightarrow> P m \<Longrightarrow> Q b \<Longrightarrow> f x b m = (r, m') \<Longrightarrow> P m' \<and> r \<noteq> Panic \<and> (\<forall>b'. r = Ok b' \<longrightarrow> Q b')"
    and "P m" "Q b" "afold f xs b m = (r, m')"
  shows "P m' \<and> r \<noteq> Panic \<and> (\<forall>b'. r = Ok b' \<longrightarrow> Q b')"
  using assms
proof (induction xs arbitrary: b m)
  case (Cons x xs)
  obtain r1 m1 where x: "f x b m = (r1, m1)" by fastforce
  with Cons.prems(1) [OF _ Cons.prems(2,3) x] have step: "P m1" "r1 \<noteq> Panic" "\<And>b'. r1 = Ok b' \<Longrightarrow> Q b'" by simp_all
  show ?case
  proof (cases r1)
    case (Ok b1)
    then have rest: "afold f xs b1 m1 = (r, m')" using Cons.prems(4) x by (simp add: abind_def)
    show ?thesis by (rule Cons.IH [OF _ step(1) step(3) [OF Ok] rest]) (rule Cons.prems(1), simp_all)
  qed (use Cons.prems(4) x step in \<open>auto simp: abind_def\<close>)
qed (auto simp: alift_def)

lemma rbind_not_Panic: "r \<noteq> Panic \<Longrightarrow> (\<And>x. r = Ok x \<Longrightarrow> f x \<noteq> Panic) \<Longrightarrow> rbind r f \<noteq> Panic"
  by (cases r) auto

subsection \<open>Checked arithmetic on words\<close>

definition checked_add :: "'a::len word \<Rightarrow> 'a word \<Rightarrow> 'a word option" where
  "checked_add a b = (if unat a + unat b < 2 ^ LENGTH('a) then Some (a + b) else None)"

definition checked_sub :: "'a::len word \<Rightarrow> 'a word \<Rightarrow> 'a word option" where
  "checked_sub a b = (if b \<le> a then Some (a - b) else None)"

lemma unat_widen [simp]:
  "unat (ucast (x :: u8) :: u16) = unat x"
  "unat (ucast (x :: u8) :: u32) = unat x"
  "unat (ucast (x :: u8) :: u64) = unat x"
  "unat (ucast (y :: u16) :: u32) = unat y"
  "unat (ucast (y :: u16) :: u64) = unat y"
  "unat (ucast (z :: u32) :: u64) = unat z"
  using unsigned_less [of x, where 'a = nat] unsigned_less [of y, where 'a = nat]
    unsigned_less [of z, where 'a = nat]
  by (simp_all add: unsigned_ucast_eq take_bit_nat_eq_self)

text \<open>Lengths are \<^verbatim>\<open>usize\<close>, 64 bits wide on the supported hosts; as list lengths they are naturals.\<close>

definition checked_mul_usize :: "nat \<Rightarrow> nat \<Rightarrow> nat option" where
  "checked_mul_usize a b = (if a * b < 2 ^ 64 then Some (a * b) else None)"

definition is_power_of_two :: "'a::len word \<Rightarrow> bool" where
  "is_power_of_two x = list_ex (\<lambda>n. x = 2 ^ n) [0..<LENGTH('a)]"

lemma checked_add_Some_iff:
  "checked_add a b = Some c \<longleftrightarrow> unat a + unat b < 2 ^ LENGTH('a) \<and> c = a + b"
  for a b c :: "'a::len word"
  by (auto simp: checked_add_def)

lemma checked_add_None_iff:
  "checked_add a b = None \<longleftrightarrow> 2 ^ LENGTH('a) \<le> unat a + unat b" for a b :: "'a::len word"
  by (auto simp: checked_add_def)

lemma checked_sub_Some_iff: "checked_sub a b = Some c \<longleftrightarrow> b \<le> a \<and> c = a - b"
  by (auto simp: checked_sub_def)

lemma checked_sub_None_iff: "checked_sub a b = None \<longleftrightarrow> a < b"
  by (auto simp: checked_sub_def)

lemma unat_add_no_overflow:
  "unat a + unat b < 2 ^ LENGTH('a) \<Longrightarrow> unat (a + b) = unat a + unat b" for a b :: "'a::len word"
  by (simp add: unat_add_lem)

lemma unat_sub_le: "b \<le> a \<Longrightarrow> unat (a - b) = unat a - unat b" for a b :: "'a::len word"
  by (rule unat_sub)

lemma checked_add_unat: "checked_add a b = Some c \<Longrightarrow> unat c = unat a + unat b"
  by (simp add: checked_add_Some_iff unat_add_no_overflow)

lemma checked_sub_unat: "checked_sub a b = Some c \<Longrightarrow> unat c = unat a - unat b"
  by (simp add: checked_sub_Some_iff unat_sub_le)

lemma is_power_of_two_iff:
  "is_power_of_two x \<longleftrightarrow> (\<exists>n < LENGTH('a). x = 2 ^ n)" for x :: "'a::len word"
  by (auto simp: is_power_of_two_def list_ex_iff)

lemma unat_pow2: "n < LENGTH('a) \<Longrightarrow> unat (2 ^ n :: 'a::len word) = 2 ^ n"
  by transfer (simp add: nat_power_eq take_bit_eq_mod)

lemma is_power_of_two_nonzero: "is_power_of_two x \<Longrightarrow> x \<noteq> 0"
  by (auto simp: is_power_of_two_iff)

lemma is_power_of_two_unatE:
  fixes x :: "'a::len word"
  assumes "is_power_of_two x"
  obtains n where "n < LENGTH('a)" and "x = 2 ^ n" and "unat x = 2 ^ n"
  using assms by (auto simp: is_power_of_two_iff unat_pow2)

text \<open>Clearing the low bits of a word rounds it down to a multiple of the power of two.\<close>

lemma and_not_mask: "a AND NOT (mask n) = push_bit n (drop_bit n a)" for a :: "'a::len word"
  by (rule bit_word_eqI) (auto simp: bit_simps)

lemma unat_and_not_low_bits:
  fixes a :: "'a::len word"
  assumes "n < LENGTH('a)"
  shows "unat (a AND NOT (2 ^ n - 1)) = unat a - unat a mod 2 ^ n"
proof -
  have "unat a div 2 ^ n * 2 ^ n \<le> unat a" by simp
  also have "unat a < 2 ^ LENGTH('a)" by simp
  finally have "unat (push_bit n (drop_bit n a)) = unat a div 2 ^ n * 2 ^ n"
    by (simp only: unsigned_push_bit_eq unat_drop_bit_eq)
      (simp add: push_bit_eq_mult drop_bit_eq_div take_bit_eq_mod)
  then show ?thesis
    by (simp add: and_not_mask minus_mod_eq_div_mult flip: mask_eq_exp_minus_1)
qed

lemma word_mod_eq_0_iff: "a mod b = 0 \<longleftrightarrow> unat b dvd unat a" for a b :: "'a::len word"
  by (simp only: unat_eq_zero [symmetric] unat_mod_distrib mod_eq_0_iff_dvd)

end
