(* ===== verification/AllocTypes.thy ===== *)
theory AllocTypes
  imports Prelude
begin

section \<open>vm-allocator: ranges, constraints, policies and errors\<close>

text \<open>
  The vocabulary of \<open>vm-allocator/src/lib.rs\<close>: the closed address interval
  \<open>RangeInclusive\<close> with its derived lexicographic order, the allocation policies, the
  allocation constraint, the error type, and the two alignment helpers of the interval tree.
  The lemmas relate the machine predicates to the set of addresses an interval covers.
\<close>

subsection \<open>Data\<close>

datatype range_inclusive = RangeInclusive (ri_start: u64) (ri_end: u64)

datatype node_state = Free | Allocated

datatype alloc_error =
    Overflow
  | OutOfRange u32
  | AlreadyReleased u32
  | NeverAllocated u32
  | ResourceNotAvailable
  | InvalidRange u64 u64
  | InvalidAlignment
  | Overlap range_inclusive range_inclusive
  | InvalidStateTransition range_inclusive node_state
  | UnalignedAddress
  | Underflow
  | InvalidSize u64

datatype alloc_policy = FirstMatch | LastMatch | ExactMatch u64

record alloc_constraint =
  c_size :: u64
  c_align :: u64
  c_policy :: alloc_policy

datatype ordering = Less | Equal | Greater

definition cmp :: "'a::linorder \<Rightarrow> 'a \<Rightarrow> ordering" where
  "cmp a b = (if a < b then Less else if a = b then Equal else Greater)"

text \<open>\<open>derive(PartialOrd, Ord)\<close> on the struct: start first, then end.\<close>

instantiation range_inclusive :: linorder
begin

definition less_range_inclusive :: "range_inclusive \<Rightarrow> range_inclusive \<Rightarrow> bool" where
  "less_range_inclusive a b \<longleftrightarrow>
     ri_start a < ri_start b \<or> ri_start a = ri_start b \<and> ri_end a < ri_end b"

definition less_eq_range_inclusive :: "range_inclusive \<Rightarrow> range_inclusive \<Rightarrow> bool" where
  "less_eq_range_inclusive a b \<longleftrightarrow>
     ri_start a < ri_start b \<or> ri_start a = ri_start b \<and> ri_end a \<le> ri_end b"

instance
  by standard
    (auto simp: less_range_inclusive_def less_eq_range_inclusive_def intro: range_inclusive.expand)

end

subsection \<open>Operations\<close>

definition range_new :: "u64 \<Rightarrow> u64 \<Rightarrow> (range_inclusive, alloc_error) result" where
  "range_new s e =
     (if e < s \<or> (s = 0 \<and> e = - 1) then Err (InvalidRange s e) else Ok (RangeInclusive s e))"

definition range_len :: "range_inclusive \<Rightarrow> u64" where
  "range_len r = ri_end r - ri_start r + 1"

definition overlaps :: "range_inclusive \<Rightarrow> range_inclusive \<Rightarrow> bool" where
  "overlaps r q \<longleftrightarrow> max (ri_start r) (ri_start q) \<le> min (ri_end r) (ri_end q)"

definition contains :: "range_inclusive \<Rightarrow> range_inclusive \<Rightarrow> bool" where
  "contains r q \<longleftrightarrow> ri_start r \<le> ri_start q \<and> ri_end q \<le> ri_end r"

definition constraint_new ::
  "u64 \<Rightarrow> u64 \<Rightarrow> alloc_policy \<Rightarrow> (alloc_constraint, alloc_error) result" where
  "constraint_new sz al policy =
     (if sz = 0 then Err (InvalidSize sz)
      else if \<not> is_power_of_two al \<or> al = 0 then Err InvalidAlignment
      else (case policy of
          ExactMatch start_address \<Rightarrow>
            if start_address mod al \<noteq> 0 then Err UnalignedAddress
            else Ok \<lparr>c_size = sz, c_align = al, c_policy = policy\<rparr>
        | _ \<Rightarrow> Ok \<lparr>c_size = sz, c_align = al, c_policy = policy\<rparr>))"

definition align_down :: "u64 \<Rightarrow> u64 \<Rightarrow> (u64, alloc_error) result" where
  "align_down address alignment =
     (if \<not> is_power_of_two alignment then Err InvalidAlignment
      else Ok (address AND NOT (alignment - 1)))"

definition align_up :: "u64 \<Rightarrow> u64 \<Rightarrow> (u64, alloc_error) result" where
  "align_up address alignment =
     (if alignment = 0 then Err InvalidAlignment
      else (case checked_add address (alignment - 1) of
          Some intermediary_address \<Rightarrow> align_down intermediary_address alignment
        | None \<Rightarrow> Err Overflow))"

subsection \<open>Ranges as sets of addresses\<close>

definition valid_range :: "range_inclusive \<Rightarrow> bool" where
  "valid_range r \<longleftrightarrow> ri_start r \<le> ri_end r \<and> \<not> (ri_start r = 0 \<and> ri_end r = - 1)"

definition range_set :: "range_inclusive \<Rightarrow> u64 set" where
  "range_set r = {ri_start r..ri_end r}"

definition valid_constraint :: "alloc_constraint \<Rightarrow> bool" where
  "valid_constraint c \<longleftrightarrow> c_size c \<noteq> 0 \<and> is_power_of_two (c_align c) \<and>
     (\<forall>a. c_policy c = ExactMatch a \<longrightarrow> unat (c_align c) dvd unat a)"

lemma cmp_simps [simp]:
  "cmp a b = Less \<longleftrightarrow> a < b"
  "cmp a b = Equal \<longleftrightarrow> a = b"
  "cmp a b = Greater \<longleftrightarrow> b < a"
  by (auto simp: cmp_def)

lemma cmp_eval [simp]:
  "a < b \<Longrightarrow> cmp a b = Less"
  "cmp a a = Equal"
  "b < a \<Longrightarrow> cmp a b = Greater"
  by (auto simp: cmp_def)

lemma range_new_eq_Ok_iff: "range_new s e = Ok r \<longleftrightarrow> r = RangeInclusive s e \<and> valid_range r"
  by (cases r) (auto simp: range_new_def valid_range_def not_less)

lemma range_new_not_Panic [simp]: "range_new s e \<noteq> Panic"
  by (simp add: range_new_def)

lemma valid_range_new: "range_new s e = Ok r \<Longrightarrow> valid_range r"
  by (auto simp: range_new_eq_Ok_iff)

lemma valid_range_le: "valid_range r \<Longrightarrow> ri_start r \<le> ri_end r"
  by (simp add: valid_range_def)

lemma overlaps_sym: "overlaps r q = overlaps q r"
  by (simp add: overlaps_def max.commute min.commute)

lemma overlaps_iff:
  assumes "valid_range r" "valid_range q"
  shows "overlaps r q \<longleftrightarrow> ri_start q \<le> ri_end r \<and> ri_start r \<le> ri_end q"
  using assms by (auto simp: overlaps_def valid_range_def)

lemma overlaps_iff_sets:
  assumes "valid_range r" "valid_range q"
  shows "overlaps r q \<longleftrightarrow> range_set r \<inter> range_set q \<noteq> {}"
  using assms by (auto simp: overlaps_def valid_range_def range_set_def)

lemma contains_iff_sets:
  assumes "valid_range q"
  shows "contains r q \<longleftrightarrow> range_set q \<subseteq> range_set r"
  using assms by (auto simp: contains_def valid_range_def range_set_def)

lemma range_set_nonempty: "valid_range r \<Longrightarrow> range_set r \<noteq> {}"
  by (simp add: valid_range_def range_set_def)

text \<open>The length never wraps on a valid range, and it counts the addresses.\<close>

lemma unat_range_len:
  assumes "valid_range r"
  shows "unat (range_len r) = unat (ri_end r) - unat (ri_start r) + 1"
proof -
  have le: "ri_start r \<le> ri_end r" using assms by (simp add: valid_range_def)
  have "ri_end r - ri_start r \<noteq> - 1"
  proof
    assume eq: "ri_end r - ri_start r = - 1"
    then have "unat (ri_end r) - unat (ri_start r) = 2 ^ 64 - 1"
      using unat_sub_le [OF le] by (simp add: unsigned_minus_1_eq_mask mask_eq_exp_minus_1)
    then have "unat (ri_start r) = 0"
      using unsigned_less [of "ri_end r", where 'a = nat] by simp
    then have "ri_start r = 0" by (simp add: unat_eq_0)
    with eq assms show False by (simp add: valid_range_def)
  qed
  then have "unat (ri_end r - ri_start r + 1) = unat (ri_end r - ri_start r) + 1"
    by (metis Suc_eq_plus1 add.commute eq_neg_iff_add_eq_0 unatSuc)
  with unat_sub_le [OF le] show ?thesis by (simp add: range_len_def)
qed

lemma constraint_new_eq_Ok_iff:
  "constraint_new sz al policy = Ok c \<longleftrightarrow>
     c = \<lparr>c_size = sz, c_align = al, c_policy = policy\<rparr> \<and> valid_constraint c"
  by (cases policy)
    (simp_all only: constraint_new_def valid_constraint_def word_mod_eq_0_iff, auto dest: is_power_of_two_nonzero)

lemma constraint_new_not_Panic [simp]: "constraint_new sz al policy \<noteq> Panic"
  by (simp add: constraint_new_def split: alloc_policy.splits)

subsection \<open>Alignment\<close>

lemma align_down_eq:
  assumes "is_power_of_two al"
  shows "\<exists>r. align_down a al = Ok r \<and> unat r = unat a - unat a mod unat al"
proof -
  from assms obtain n where n: "n < LENGTH(64)" "al = 2 ^ n" "unat al = 2 ^ n"
    by (rule is_power_of_two_unatE)
  then show ?thesis
    using assms unat_and_not_low_bits [OF n(1), of a] by (simp add: align_down_def)
qed

lemma align_down_spec:
  assumes "is_power_of_two al"
  obtains r where "align_down a al = Ok r" and "unat r = unat a div unat al * unat al"
  using align_down_eq [OF assms, of a] by (auto simp: minus_mod_eq_div_mult)

lemma align_down_not_Panic [simp]: "align_down a al \<noteq> Panic"
  by (simp add: align_down_def)

lemma align_up_not_Panic [simp]: "align_up a al \<noteq> Panic"
  by (simp add: align_up_def split: option.splits)

lemma div_mult_least_multiple:
  fixes a d r :: nat
  assumes "0 < d" and "r = (a + (d - 1)) div d * d"
  shows "a \<le> r" and "d dvd r" and "\<And>x. d dvd x \<Longrightarrow> a \<le> x \<Longrightarrow> r \<le> x"
proof -
  have eq: "a + (d - 1) = r + (a + (d - 1)) mod d" using assms by simp
  have "(a + (d - 1)) mod d < d" using assms(1) by (rule mod_less_divisor)
  then show "a \<le> r" using eq by linarith
  show "d dvd r" using assms(2) by simp
  fix x assume "d dvd x" "a \<le> x"
  from \<open>d dvd x\<close> obtain m where m: "x = d * m" by (rule dvdE)
  have "a + (d - 1) < (m + 1) * d" using \<open>a \<le> x\<close> m assms(1) by (simp add: algebra_simps)
  then have "(a + (d - 1)) div d \<le> m" using assms(1) by (metis add.commute div_less_iff_less_mult less_Suc_eq_le plus_1_eq_Suc)
  then have "(a + (d - 1)) div d * d \<le> m * d" by (rule mult_le_mono1)
  then show "r \<le> x" by (simp only: assms(2) m mult.commute [of d m])
qed

lemma align_up_spec:
  assumes al: "is_power_of_two al" and up: "align_up a al = Ok r"
  shows "unat a \<le> unat r" and "unat al dvd unat r"
    and "\<And>x. unat al dvd x \<Longrightarrow> unat a \<le> x \<Longrightarrow> unat r \<le> x"
proof -
  have pos: "0 < unat al" using is_power_of_two_nonzero [OF al] by (simp add: unat_gt_0)
  from up is_power_of_two_nonzero [OF al] obtain i where i: "checked_add a (al - 1) = Some i"
    and down: "align_down i al = Ok r"
    by (auto simp: align_up_def split: option.splits)
  have "unat i = unat a + (unat al - 1)"
    using checked_add_unat [OF i] pos by (simp add: unat_minus_one unat_gt_0)
  moreover have "unat r = unat i div unat al * unat al"
    using align_down_eq [OF al, of i] down by (auto simp: minus_mod_eq_div_mult)
  ultimately have r: "unat r = (unat a + (unat al - 1)) div unat al * unat al" by simp
  show "unat a \<le> unat r" "unat al dvd unat r"
    "\<And>x. unat al dvd x \<Longrightarrow> unat a \<le> x \<Longrightarrow> unat r \<le> x"
    by (rule div_mult_least_multiple [OF pos r], assumption?)+
qed

text \<open>The only way rounding up can fail on a power of two is that the result leaves 64 bits.\<close>

lemma align_up_total:
  assumes "is_power_of_two al"
  shows "(\<exists>r. align_up a al = Ok r) \<or> align_up a al = Err Overflow \<and> 2 ^ 64 \<le> unat a + (unat al - 1)"
proof (cases "checked_add a (al - 1)")
  case None
  then have "2 ^ 64 \<le> unat a + (unat al - 1)"
    using is_power_of_two_nonzero [OF assms] by (simp add: checked_add_None_iff unat_minus_one)
  with None show ?thesis
    using is_power_of_two_nonzero [OF assms] by (simp add: align_up_def)
next
  case (Some i)
  then show ?thesis
    using is_power_of_two_nonzero [OF assms] align_down_eq [OF assms, of i]
    by (auto simp: align_up_def)
qed

end
