(* ===== verification/IntervalTree.thy ===== *)
theory IntervalTree
  imports AllocTypes
begin

section \<open>vm-allocator: the balanced interval tree\<close>

text \<open>
  \<open>vm-allocator/src/allocation_engine/interval_tree.rs\<close>.  An \<open>Option<Box<InnerNode>>\<close> is an
  \<open>inner_tree\<close>: \<open>Tip\<close> is \<open>None\<close>, \<open>Node\<close> carries the five fields of the struct.  Methods on
  \<open>Box<Self>\<close> take a \<open>Node\<close>; where the code matches an optional child before it recurses,
  the \<open>None\<close> branch is the equation for \<open>Tip\<close>.  \<open>unreachable!()\<close> and \<open>unwrap()\<close> on
  \<open>None\<close> are \<open>Panic\<close>.  The cached height is a \<open>nat\<close>: \<open>insert\<close> refuses to descend below a
  node of height 50, and the invariant below keeps every height at most 50, so the \<open>u64\<close>
  additions of the code never wrap.
\<close>

subsection \<open>Nodes\<close>

datatype inner_tree =
    Tip
  | Node (left: inner_tree) (key: range_inclusive) (state: node_state) (cached: nat)
      (right: inner_tree)

fun height :: "inner_tree \<Rightarrow> nat" where
  "height Tip = 0"
| "height (Node l k s h r) = h"

definition is_free :: "node_state \<Rightarrow> bool" where
  "is_free s \<longleftrightarrow> s = Free"

definition node_new :: "range_inclusive \<Rightarrow> node_state \<Rightarrow> inner_tree" where
  "node_new k s = Node Tip k s 1 Tip"

fun search :: "inner_tree \<Rightarrow> range_inclusive \<Rightarrow> inner_tree option" where
  "search Tip q = None"
| "search (Node l k s h r) q =
     (case cmp k q of
        Equal \<Rightarrow> Some (Node l k s h r)
      | Less \<Rightarrow> search r q
      | Greater \<Rightarrow> search l q)"

fun search_superset :: "inner_tree \<Rightarrow> range_inclusive \<Rightarrow> inner_tree option" where
  "search_superset Tip q = None"
| "search_superset (Node l k s h r) q =
     (if contains k q then Some (Node l k s h r)
      else if ri_end q < ri_start k then search_superset l q
      else search_superset r q)"

fun update_cached_height :: "inner_tree \<Rightarrow> inner_tree" where
  "update_cached_height Tip = Tip"
| "update_cached_height (Node l k s h r) = Node l k s (max (height l) (height r) + 1) r"

fun rotate_left :: "inner_tree \<Rightarrow> inner_tree" where
  "rotate_left (Node l k s h (Node rl rk rs rh rr)) =
     update_cached_height (Node (update_cached_height (Node l k s h rl)) rk rs rh rr)"
| "rotate_left _ = Tip"

fun rotate_right :: "inner_tree \<Rightarrow> inner_tree" where
  "rotate_right (Node (Node ll lk ls lh lr) k s h r) =
     update_cached_height (Node ll lk ls lh (update_cached_height (Node lr k s h r)))"
| "rotate_right _ = Tip"

fun rotate_left_successor :: "inner_tree \<Rightarrow> inner_tree" where
  "rotate_left_successor (Node (Node ll lk ls lh lr) k s h r) =
     rotate_right
       (if height ll < height lr
        then update_cached_height (Node (rotate_left (Node ll lk ls lh lr)) k s h r)
        else Node (Node ll lk ls lh lr) k s h r)"
| "rotate_left_successor _ = Tip"

fun rotate_right_successor :: "inner_tree \<Rightarrow> inner_tree" where
  "rotate_right_successor (Node l k s h (Node rl rk rs rh rr)) =
     rotate_left
       (if height rl > height rr
        then update_cached_height (Node l k s h (rotate_right (Node rl rk rs rh rr)))
        else Node l k s h (Node rl rk rs rh rr))"
| "rotate_right_successor _ = Tip"

definition unwrap_box :: "inner_tree \<Rightarrow> (inner_tree, alloc_error) result" where
  "unwrap_box t = (if t = Tip then Panic else Ok t)"

definition rotate :: "inner_tree \<Rightarrow> (inner_tree, alloc_error) result" where
  "rotate t =
     (let d = int (height (left t)) - int (height (right t))
      in if - 1 \<le> d \<and> d \<le> 1 then Ok t
         else if d = 2 then unwrap_box (rotate_left_successor t)
         else if d = - 2 then unwrap_box (rotate_right_successor t)
         else Panic)"

fun get_new_root :: "inner_tree \<Rightarrow> (inner_tree \<times> inner_tree, alloc_error) result" where
  "get_new_root Tip = Panic"
| "get_new_root (Node l k s h r) =
     (if l = Tip then Ok (Node Tip k s h Tip, r)
      else rbind (get_new_root l) (\<lambda>(min_node, l').
           rbind (rotate (update_cached_height (Node l' k s h r))) (\<lambda>t. Ok (min_node, t))))"

definition combine_subtrees :: "inner_tree \<Rightarrow> inner_tree \<Rightarrow> (inner_tree, alloc_error) result" where
  "combine_subtrees l r =
     rbind (get_new_root r) (\<lambda>(new_root, remaining).
       rotate (update_cached_height
         (Node l (key new_root) (state new_root) (cached new_root) remaining)))"

fun delete_root :: "inner_tree \<Rightarrow> (inner_tree, alloc_error) result" where
  "delete_root Tip = Panic"
| "delete_root (Node Tip k s h Tip) = Ok Tip"
| "delete_root (Node l k s h Tip) = Ok l"
| "delete_root (Node Tip k s h r) = Ok r"
| "delete_root (Node l k s h r) = combine_subtrees l r"

fun insert :: "inner_tree \<Rightarrow> range_inclusive \<Rightarrow> node_state \<Rightarrow> (inner_tree, alloc_error) result" where
  "insert Tip q st = Ok (node_new q st)"
| "insert (Node l k s h r) q st =
     (if h + 1 > 50 then Err Overflow
      else if overlaps k q then Err (Overlap q k)
      else (case cmp k q of
          Equal \<Rightarrow> Panic
        | Less \<Rightarrow> rbind (insert r q st) (\<lambda>r'. rotate (update_cached_height (Node l k s h r')))
        | Greater \<Rightarrow> rbind (insert l q st) (\<lambda>l'. rotate (update_cached_height (Node l' k s h r)))))"

fun mark_as_allocated :: "inner_tree \<Rightarrow> range_inclusive \<Rightarrow> (inner_tree, alloc_error) result" where
  "mark_as_allocated Tip q = Err ResourceNotAvailable"
| "mark_as_allocated (Node l k s h r) q =
     (case cmp k q of
        Equal \<Rightarrow> if s \<noteq> Free then Err (InvalidStateTransition k s) else Ok (Node l k Allocated h r)
      | Less \<Rightarrow> rbind (mark_as_allocated r q) (\<lambda>r'. Ok (Node l k s h r'))
      | Greater \<Rightarrow> rbind (mark_as_allocated l q) (\<lambda>l'. Ok (Node l' k s h r)))"

fun delete :: "inner_tree \<Rightarrow> range_inclusive \<Rightarrow> (inner_tree, alloc_error) result" where
  "delete Tip q = Ok Tip"
| "delete (Node l k s h r) q =
     (case cmp k q of
        Equal \<Rightarrow> delete_root (Node l k s h r)
      | Less \<Rightarrow>
          if r = Tip then Ok (Node l k s h r)
          else rbind (delete r q) (\<lambda>r'. rotate (update_cached_height (Node l k s h r')))
      | Greater \<Rightarrow>
          if l = Tip then Ok (Node l k s h r)
          else rbind (delete l q) (\<lambda>l'. rotate (update_cached_height (Node l' k s h r))))"

subsection \<open>Choosing a node\<close>

definition check_constraint ::
  "range_inclusive \<Rightarrow> node_state \<Rightarrow> alloc_constraint \<Rightarrow> (range_inclusive, alloc_error) result" where
  "check_constraint k s c =
     (if \<not> is_free s \<or> range_len k < c_size c then Err ResourceNotAvailable
      else rbind
        (case c_policy c of
           FirstMatch \<Rightarrow> align_up (ri_start k) (c_align c)
         | LastMatch \<Rightarrow>
             rbind (rbind (ok_or (checked_sub (ri_end k) (c_size c)) Underflow)
                      (\<lambda>addr. ok_or (checked_add addr 1) Overflow)) (\<lambda>candidate_address.
             rbind (align_down candidate_address (c_align c)) (\<lambda>aligned_address.
               if aligned_address < ri_start k then Err UnalignedAddress
               else Ok aligned_address))
         | ExactMatch _ \<Rightarrow> Panic) (\<lambda>range_start.
        rbind (range_new range_start (ri_end k)) (\<lambda>k'.
          if range_len k' \<ge> c_size c then Ok k' else Err ResourceNotAvailable)))"

fun first_match ::
  "inner_tree \<Rightarrow> alloc_constraint \<Rightarrow> (inner_tree \<times> range_inclusive, alloc_error) result" where
  "first_match Tip c = Err ResourceNotAvailable"
| "first_match (Node l k s h r) c =
     (let res = first_match l c;
          res = (if res = Err ResourceNotAvailable
                 then (case check_constraint k s c of
                         Ok node \<Rightarrow> Ok (Node l k s h r, node)
                       | Err _ \<Rightarrow> res
                       | Panic \<Rightarrow> Panic)
                 else res)
      in if res = Err ResourceNotAvailable then first_match r c else res)"

fun last_match ::
  "inner_tree \<Rightarrow> alloc_constraint \<Rightarrow> (inner_tree \<times> range_inclusive, alloc_error) result" where
  "last_match Tip c = Err ResourceNotAvailable"
| "last_match (Node l k s h r) c =
     (let res = last_match r c;
          res = (if res = Err ResourceNotAvailable
                 then (case check_constraint k s c of
                         Ok node \<Rightarrow> Ok (Node l k s h r, node)
                       | Err _ \<Rightarrow> res
                       | Panic \<Rightarrow> Panic)
                 else res)
      in if res = Err ResourceNotAvailable then last_match l c else res)"

definition find_candidate ::
  "inner_tree \<Rightarrow> alloc_constraint \<Rightarrow> (inner_tree \<times> range_inclusive, alloc_error) result" where
  "find_candidate t c =
     (case c_policy c of
        FirstMatch \<Rightarrow> first_match t c
      | LastMatch \<Rightarrow> last_match t c
      | ExactMatch start_address \<Rightarrow>
          rbind (ok_or (checked_add start_address 1) Overflow) (\<lambda>next.
          rbind (range_new start_address next) (\<lambda>probe.
          rbind (ok_or (search_superset t probe) ResourceNotAvailable) (\<lambda>node.
          rbind (ok_or (checked_sub (c_size c) 1) Underflow) (\<lambda>len.
          rbind (ok_or (checked_add start_address len) Overflow) (\<lambda>end_address.
          rbind (range_new start_address end_address) (\<lambda>range.
            if \<not> contains (key node) range then Err ResourceNotAvailable
            else Ok (node, range))))))))"

subsection \<open>Abstraction and invariant\<close>

type_synonym entry = "range_inclusive \<times> node_state"

fun inorder :: "inner_tree \<Rightarrow> entry list" where
  "inorder Tip = []"
| "inorder (Node l k s h r) = inorder l @ (k, s) # inorder r"

fun avl :: "inner_tree \<Rightarrow> bool" where
  "avl Tip = True"
| "avl (Node l k s h r) \<longleftrightarrow>
     height l \<le> height r + 1 \<and> height r \<le> height l + 1 \<and>
     h = max (height l) (height r) + 1 \<and> avl l \<and> avl r"

definition entries :: "inner_tree \<Rightarrow> entry set" where
  "entries t = set (inorder t)"

definition ordered :: "entry list \<Rightarrow> bool" where
  "ordered es \<longleftrightarrow> sorted_wrt (\<lambda>a b. ri_end (fst a) < ri_start (fst b)) es"

definition tree_inv :: "inner_tree \<Rightarrow> bool" where
  "tree_inv t \<longleftrightarrow> avl t \<and> height t \<le> 50 \<and> ordered (inorder t) \<and> (\<forall>e \<in> entries t. valid_range (fst e))"

lemma entries_simps [simp]:
  "entries Tip = {}"
  "entries (Node l k s h r) = Set.insert (k, s) (entries l \<union> entries r)"
  by (auto simp: entries_def)

lemma finite_entries [simp]: "finite (entries t)"
  by (simp add: entries_def)

lemma ordered_Nil [simp]: "ordered []"
  by (simp add: ordered_def)

lemma ordered_keys: "ordered es \<longleftrightarrow> sorted_wrt (\<lambda>a b. ri_end a < ri_start b) (map fst es)"
  by (simp add: ordered_def sorted_wrt_map)

lemma ordered_append_Cons:
  "ordered (xs @ (k, s) # ys) \<longleftrightarrow> ordered xs \<and> ordered ys \<and>
     (\<forall>e \<in> set xs. ri_end (fst e) < ri_start k) \<and> (\<forall>e \<in> set ys. ri_end k < ri_start (fst e)) \<and>
     (\<forall>a \<in> set xs. \<forall>b \<in> set ys. ri_end (fst a) < ri_start (fst b))"
  by (auto simp: ordered_def sorted_wrt_append)

lemma ordered_inorder_Node:
  "ordered (inorder l @ (k, s) # inorder r) \<longleftrightarrow> ordered (inorder l) \<and> ordered (inorder r) \<and>
     (\<forall>e \<in> entries l. ri_end (fst e) < ri_start k) \<and>
     (\<forall>e \<in> entries r. ri_end k < ri_start (fst e)) \<and>
     (\<forall>a \<in> entries l. \<forall>b \<in> entries r. ri_end (fst a) < ri_start (fst b))"
  by (simp add: ordered_append_Cons entries_def)

lemma ordered_NodeI:
  assumes "ordered (inorder l)" "ordered (inorder r)" "valid_range k"
    and "\<forall>e \<in> entries l. ri_end (fst e) < ri_start k" "\<forall>e \<in> entries r. ri_end k < ri_start (fst e)"
  shows "ordered (inorder l @ (k, s) # inorder r)"
  using assms valid_range_le [OF assms(3)]
  by (fastforce simp: ordered_inorder_Node)

lemma height_0_iff: "avl t \<Longrightarrow> height t = 0 \<longleftrightarrow> t = Tip"
  by (cases t) auto

subsection \<open>Rotation restores balance and never panics\<close>

lemma rotate_left_heavy:
  assumes "avl l" "avl r" "height l = height r + 2"
  shows "\<exists>t. rotate (update_cached_height (Node l k s h r)) = Ok t \<and> avl t \<and>
     inorder t = inorder l @ (k, s) # inorder r \<and> height t \<in> {height l, height l + 1}"
proof -
  from assms(3) obtain ll lk ls lh lr where l: "l = Node ll lk ls lh lr" by (cases l) auto
  show ?thesis
  proof (cases "height ll < height lr")
    case True
    then obtain a ak as ah b where lr: "lr = Node a ak as ah b" by (cases lr) auto
    from assms True show ?thesis
      by (auto simp: rotate_def unwrap_box_def l lr)
  next
    case False
    with assms show ?thesis
      by (auto simp: rotate_def unwrap_box_def l)
  qed
qed

lemma rotate_right_heavy:
  assumes "avl l" "avl r" "height r = height l + 2"
  shows "\<exists>t. rotate (update_cached_height (Node l k s h r)) = Ok t \<and> avl t \<and>
     inorder t = inorder l @ (k, s) # inorder r \<and> height t \<in> {height r, height r + 1}"
proof -
  from assms(3) obtain rl rk rs rh rr where r: "r = Node rl rk rs rh rr" by (cases r) auto
  show ?thesis
  proof (cases "height rl > height rr")
    case True
    then obtain a ak as ah b where rl: "rl = Node a ak as ah b" by (cases rl) auto
    from assms True show ?thesis
      by (auto simp: rotate_def unwrap_box_def r rl)
  next
    case False
    with assms show ?thesis
      by (auto simp: rotate_def unwrap_box_def r)
  qed
qed

lemma rotate_balanced:
  assumes "avl l" "avl r" "height l \<le> height r + 1" "height r \<le> height l + 1"
  shows "rotate (update_cached_height (Node l k s h r)) =
     Ok (Node l k s (max (height l) (height r) + 1) r)"
  using assms by (auto simp: rotate_def)

text \<open>The summary every caller uses.\<close>

lemma rotate_restores:
  assumes "avl l" "avl r" "height l \<le> height r + 2" "height r \<le> height l + 2"
  obtains t where "rotate (update_cached_height (Node l k s h r)) = Ok t" and "avl t"
    and "inorder t = inorder l @ (k, s) # inorder r"
    and "height t = max (height l) (height r) + 1 \<or>
         height t = max (height l) (height r) \<and> (height l = height r + 2 \<or> height r = height l + 2)"
proof -
  consider "height l = height r + 2" | "height r = height l + 2"
    | "height l \<le> height r + 1" "height r \<le> height l + 1" using assms by linarith
  then show thesis
  proof cases
    case 1
    then show thesis using rotate_left_heavy [OF assms(1,2) 1, of k s h] that by auto
  next
    case 2
    then show thesis using rotate_right_heavy [OF assms(1,2) 2, of k s h] that by auto
  next
    case 3
    then show thesis using rotate_balanced [OF assms(1,2) 3, of k s h] assms that by auto
  qed
qed

subsection \<open>Searching\<close>

lemma less_range_startI: "valid_range a \<Longrightarrow> ri_end a < ri_start b \<Longrightarrow> a < b"
  by (auto simp: valid_range_def less_range_inclusive_def)

lemma search_Some_entry: "search t q = Some n \<Longrightarrow> key n = q \<and> (q, state n) \<in> entries t"
  by (induction t q rule: search.induct) (auto split: ordering.splits)

lemma search_None_iff:
  assumes "ordered (inorder t)" "\<forall>e \<in> entries t. valid_range (fst e)"
  shows "search t q = None \<longleftrightarrow> q \<notin> fst ` entries t"
  using assms
proof (induction t)
  case Tip
  then show ?case by simp
next
  case (Node l k s h r)
  have "\<forall>e \<in> entries l. fst e < k" "\<forall>e \<in> entries r. k < fst e"
    using Node.prems by (auto simp: ordered_inorder_Node intro: less_range_startI)
  moreover have "search l q = None \<longleftrightarrow> q \<notin> fst ` entries l" "search r q = None \<longleftrightarrow> q \<notin> fst ` entries r"
    using Node by (auto simp: ordered_inorder_Node)
  ultimately show ?case
    by (cases "cmp k q") (auto dest: less_asym)
qed

lemma search_superset_Some:
  "search_superset t q = Some n \<Longrightarrow> n \<noteq> Tip \<and> (key n, state n) \<in> entries t \<and> contains (key n) q"
  by (induction t q rule: search_superset.induct) (auto split: if_splits)

lemma search_superset_None:
  assumes "ordered (inorder t)" "\<forall>e \<in> entries t. valid_range (fst e)" "valid_range q"
    and "search_superset t q = None" "e \<in> entries t"
  shows "\<not> contains (fst e) q"
  using assms
proof (induction t)
  case Tip
  then show ?case by simp
next
  case (Node l k s h r)
  have k: "ri_start k \<le> ri_end k" "ri_start q \<le> ri_end q" "\<not> contains k q"
    using Node.prems by (auto simp: valid_range_def split: if_splits)
  from Node.prems(5) consider "e = (k, s)" | "e \<in> entries l" | "e \<in> entries r" by auto
  then show ?case
  proof cases
    case 1
    then show ?thesis using k by simp
  next
    case 2
    have "ri_end (fst e) < ri_start k" using 2 Node.prems by (simp add: ordered_inorder_Node)
    then show ?thesis
      using 2 Node.prems k Node.IH(1)
      by (cases "ri_end q < ri_start k") (auto simp: ordered_inorder_Node contains_def)
  next
    case 3
    have "ri_end k < ri_start (fst e)" using 3 Node.prems by (simp add: ordered_inorder_Node)
    then show ?thesis
      using 3 Node.prems k Node.IH(2)
      by (cases "ri_end q < ri_start k") (auto simp: ordered_inorder_Node contains_def)
  qed
qed

subsection \<open>Insertion\<close>

lemma overlaps_cases:
  assumes "valid_range k" "valid_range q" "\<not> overlaps k q"
  shows "ri_end k < ri_start q \<and> k < q \<or> ri_end q < ri_start k \<and> q < k"
  using assms by (auto simp: overlaps_iff not_le intro: less_range_startI)

lemma insert_ok:
  assumes "avl t" "ordered (inorder t)" "\<forall>e \<in> entries t. valid_range (fst e)"
    and "valid_range q" "\<forall>e \<in> entries t. \<not> overlaps (fst e) q" "height t < 50"
  shows "\<exists>t'. insert t q st = Ok t' \<and> avl t' \<and> ordered (inorder t') \<and>
     entries t' = Set.insert (q, st) (entries t) \<and> height t' \<in> {height t, height t + 1}"
  using assms
proof (induction t)
  case Tip
  then show ?case by (simp add: node_new_def ordered_def)
next
  case (Node l k s h r)
  have k: "valid_range k" "\<not> overlaps k q" "\<not> h + 1 > 50" using Node.prems by auto
  then consider "ri_end k < ri_start q" "cmp k q = Less" | "ri_end q < ri_start k" "cmp k q = Greater"
    using overlaps_cases [OF _ Node.prems(4)] by auto
  then show ?case
  proof cases
    case 1
    obtain r' where r': "insert r q st = Ok r'" "avl r'" "ordered (inorder r')"
      "entries r' = Set.insert (q, st) (entries r)" "height r' \<in> {height r, height r + 1}"
      using Node.IH(2) Node.prems by (auto simp: ordered_inorder_Node)
    obtain t' where t': "rotate (update_cached_height (Node l k s h r')) = Ok t'" "avl t'"
      "inorder t' = inorder (Node l k s h r')"
      "height t' = max (height l) (height r') + 1 \<or>
       height t' = max (height l) (height r') \<and> (height l = height r' + 2 \<or> height r' = height l + 2)"
      by (rule rotate_restores [of l r' k s h]) (use Node.prems r' in auto)
    have "ordered (inorder t')"
      unfolding t'(3) inorder.simps
      by (rule ordered_NodeI) (use Node.prems r'(3,4) 1 in \<open>auto simp: ordered_inorder_Node\<close>)
    moreover have "entries t' = Set.insert (q, st) (entries (Node l k s h r))"
      using t'(3) r'(4) by (auto simp: entries_def)
    moreover have "height t' \<in> {h, h + 1}"
      using Node.prems(1) r'(5) t'(4) by auto
    moreover have "insert (Node l k s h r) q st = Ok t'"
      using k 1(2) t'(1) r'(1) by simp
    ultimately show ?thesis using t'(2) by simp
  next
    case 2
    obtain l' where l': "insert l q st = Ok l'" "avl l'" "ordered (inorder l')"
      "entries l' = Set.insert (q, st) (entries l)" "height l' \<in> {height l, height l + 1}"
      using Node.IH(1) Node.prems by (auto simp: ordered_inorder_Node)
    obtain t' where t': "rotate (update_cached_height (Node l' k s h r)) = Ok t'" "avl t'"
      "inorder t' = inorder (Node l' k s h r)"
      "height t' = max (height l') (height r) + 1 \<or>
       height t' = max (height l') (height r) \<and> (height l' = height r + 2 \<or> height r = height l' + 2)"
      by (rule rotate_restores [of l' r k s h]) (use Node.prems l' in auto)
    have "ordered (inorder t')"
      unfolding t'(3) inorder.simps
      by (rule ordered_NodeI) (use Node.prems l'(3,4) 2 in \<open>auto simp: ordered_inorder_Node\<close>)
    moreover have "entries t' = Set.insert (q, st) (entries (Node l k s h r))"
      using t'(3) l'(4) by (auto simp: entries_def)
    moreover have "height t' \<in> {h, h + 1}"
      using Node.prems(1) l'(5) t'(4) by auto
    moreover have "insert (Node l k s h r) q st = Ok t'"
      using k 2(2) t'(1) l'(1) by simp
    ultimately show ?thesis using t'(2) by simp
  qed
qed

text \<open>The two ways insertion fails: an overlap is always found on the search path, and a tree of
  the maximal height refuses every insertion.\<close>

lemma insert_overlap:
  assumes "avl t" "ordered (inorder t)" "\<forall>e \<in> entries t. valid_range (fst e)"
    and "valid_range q" "e \<in> entries t" "overlaps (fst e) q" "height t < 50"
  shows "\<exists>k \<in> fst ` entries t. overlaps k q \<and> insert t q st = Err (Overlap q k)"
  using assms
proof (induction t)
  case Tip
  then show ?case by simp
next
  case (Node l k s h r)
  have k: "valid_range k" "valid_range (fst e)" "\<not> h + 1 > 50" using Node.prems by auto
  show ?case
  proof (cases "overlaps k q")
    case True
    with k show ?thesis by auto
  next
    case False
    from overlaps_cases [OF k(1) Node.prems(4) False] show ?thesis
    proof
      assume kq: "ri_end k < ri_start q \<and> k < q"
      have "e \<in> entries r"
        using Node.prems k kq False valid_range_le [OF k(1)]
        by (auto simp: ordered_inorder_Node overlaps_iff dest!: bspec)
      then have "\<exists>k \<in> fst ` entries r. overlaps k q \<and> insert r q st = Err (Overlap q k)"
        using Node by (intro Node.IH(2)) (auto simp: ordered_inorder_Node)
      then show ?thesis using k(3) False kq by auto
    next
      assume kq: "ri_end q < ri_start k \<and> q < k"
      have "e \<in> entries l"
        using Node.prems k kq False valid_range_le [OF k(1)]
        by (auto simp: ordered_inorder_Node overlaps_iff dest!: bspec)
      then have "\<exists>k \<in> fst ` entries l. overlaps k q \<and> insert l q st = Err (Overlap q k)"
        using Node by (intro Node.IH(1)) (auto simp: ordered_inorder_Node)
      then show ?thesis using k(3) False kq by auto
    qed
  qed
qed

lemma insert_full: "height t \<ge> 50 \<Longrightarrow> insert t q st = Err Overflow"
  by (cases t) auto

subsection \<open>Deletion\<close>

lemma get_new_root_ok:
  assumes "avl t" "t \<noteq> Tip"
  shows "\<exists>m t'. get_new_root t = Ok (m, t') \<and> m \<noteq> Tip \<and> avl t' \<and>
     inorder t = (key m, state m) # inorder t' \<and> height t \<in> {height t', height t' + 1}"
  using assms
proof (induction t)
  case Tip
  then show ?case by simp
next
  case (Node l k s h r)
  show ?case
  proof (cases "l = Tip")
    case True
    then show ?thesis using Node.prems by auto
  next
    case False
    then obtain m l' where l': "get_new_root l = Ok (m, l')" "m \<noteq> Tip" "avl l'"
      "inorder l = (key m, state m) # inorder l'" "height l \<in> {height l', height l' + 1}"
      using Node by auto
    obtain t' where t': "rotate (update_cached_height (Node l' k s h r)) = Ok t'" "avl t'"
      "inorder t' = inorder (Node l' k s h r)"
      "height t' = max (height l') (height r) + 1 \<or>
       height t' = max (height l') (height r) \<and> (height l' = height r + 2 \<or> height r = height l' + 2)"
      by (rule rotate_restores [of l' r k s h]) (use Node.prems l' in auto)
    have "h \<in> {height t', height t' + 1}" using Node.prems(1) l'(5) t'(4) by auto
    moreover have "get_new_root (Node l k s h r) = Ok (m, t')" using False l'(1) t'(1) by simp
    ultimately show ?thesis using t' l' by simp
  qed
qed

lemma combine_subtrees_ok:
  assumes "avl l" "avl r" "l \<noteq> Tip" "r \<noteq> Tip" "height l \<le> height r + 1" "height r \<le> height l + 1"
  shows "\<exists>t. combine_subtrees l r = Ok t \<and> avl t \<and> inorder t = inorder l @ inorder r \<and>
     max (height l) (height r) + 1 \<in> {height t, height t + 1}"
proof -
  obtain m r' where r': "get_new_root r = Ok (m, r')" "m \<noteq> Tip" "avl r'"
      "inorder r = (key m, state m) # inorder r'" "height r \<in> {height r', height r' + 1}"
    using get_new_root_ok [OF assms(2,4)] by blast
  obtain t' where t': "rotate (update_cached_height (Node l (key m) (state m) (cached m) r')) = Ok t'"
      "avl t'" "inorder t' = inorder (Node l (key m) (state m) (cached m) r')"
      "height t' = max (height l) (height r') + 1 \<or>
       height t' = max (height l) (height r') \<and> (height l = height r' + 2 \<or> height r' = height l + 2)"
    by (rule rotate_restores [of l r' "key m" "state m" "cached m"]) (use assms r' in auto)
  have "max (height l) (height r) + 1 \<in> {height t', height t' + 1}"
    using assms(5,6) r'(5) t'(4) by auto
  then show ?thesis using r' t' by (simp add: combine_subtrees_def)
qed

lemma delete_root_ok:
  assumes "avl (Node l k s h r)"
  shows "\<exists>t. delete_root (Node l k s h r) = Ok t \<and> avl t \<and> inorder t = inorder l @ inorder r \<and>
     h \<in> {height t, height t + 1}"
proof (cases "l = Tip \<or> r = Tip")
  case True
  then show ?thesis using assms by (cases l; cases r) auto
next
  case False
  then have "delete_root (Node l k s h r) = combine_subtrees l r" by (cases l; cases r) auto
  then show ?thesis using combine_subtrees_ok [of l r] assms False by auto
qed

lemma entries_apart:
  assumes "ordered (inorder l @ (k, s) # inorder r)"
    and "\<forall>e \<in> entries (Node l k s h r). valid_range (fst e)"
  shows "\<And>e. e \<in> entries l \<Longrightarrow> fst e < k" and "\<And>e. e \<in> entries r \<Longrightarrow> k < fst e"
  using assms by (auto simp: ordered_inorder_Node intro: less_range_startI)

lemma filter_key_noop: "(\<And>e. e \<in> entries t \<Longrightarrow> fst e \<noteq> q) \<Longrightarrow> filter (\<lambda>e. fst e \<noteq> q) (inorder t) = inorder t"
  by (simp add: filter_id_conv entries_def)

lemma delete_ok:
  assumes "avl t" "ordered (inorder t)" "\<forall>e \<in> entries t. valid_range (fst e)"
  shows "\<exists>t'. delete t q = Ok t' \<and> avl t' \<and> inorder t' = filter (\<lambda>e. fst e \<noteq> q) (inorder t) \<and>
     height t \<in> {height t', height t' + 1}"
  using assms
proof (induction t)
  case Tip
  then show ?case by simp
next
  case (Node l k s h r)
  note apart = entries_apart [OF Node.prems(2) [unfolded inorder.simps] Node.prems(3)]
  consider "k = q" | "k < q" | "q < k" by (rule linorder_cases)
  then show ?case
  proof cases
    case 1
    have "filter (\<lambda>e. fst e \<noteq> q) (inorder l) = inorder l"
      "filter (\<lambda>e. fst e \<noteq> q) (inorder r) = inorder r"
      using apart 1 by (fastforce intro!: filter_key_noop)+
    then show ?thesis using delete_root_ok [OF Node.prems(1)] 1 by simp
  next
    case 2
    have l: "filter (\<lambda>e. fst e \<noteq> q) (inorder l) = inorder l"
      using apart(1) 2 by (fastforce intro!: filter_key_noop)
    obtain r' where r': "delete r q = Ok r'" "avl r'" "inorder r' = filter (\<lambda>e. fst e \<noteq> q) (inorder r)"
      "height r \<in> {height r', height r' + 1}"
      using Node.IH(2) Node.prems by (auto simp: ordered_inorder_Node)
    obtain t' where t': "rotate (update_cached_height (Node l k s h r')) = Ok t'" "avl t'"
      "inorder t' = inorder (Node l k s h r')"
      "height t' = max (height l) (height r') + 1 \<or>
       height t' = max (height l) (height r') \<and> (height l = height r' + 2 \<or> height r' = height l + 2)"
      by (rule rotate_restores [of l r' k s h]) (use Node.prems r' in auto)
    have "h \<in> {height t', height t' + 1}" using Node.prems(1) r'(4) t'(4) by auto
    then show ?thesis
      using 2 r' t' l Node.prems(1) by (cases "r = Tip") auto
  next
    case 3
    have r: "filter (\<lambda>e. fst e \<noteq> q) (inorder r) = inorder r"
      using apart(2) 3 by (fastforce intro!: filter_key_noop)
    obtain l' where l': "delete l q = Ok l'" "avl l'" "inorder l' = filter (\<lambda>e. fst e \<noteq> q) (inorder l)"
      "height l \<in> {height l', height l' + 1}"
      using Node.IH(1) Node.prems by (auto simp: ordered_inorder_Node)
    obtain t' where t': "rotate (update_cached_height (Node l' k s h r)) = Ok t'" "avl t'"
      "inorder t' = inorder (Node l' k s h r)"
      "height t' = max (height l') (height r) + 1 \<or>
       height t' = max (height l') (height r) \<and> (height l' = height r + 2 \<or> height r = height l' + 2)"
      by (rule rotate_restores [of l' r k s h]) (use Node.prems l' in auto)
    have "h \<in> {height t', height t' + 1}" using Node.prems(1) l'(4) t'(4) by auto
    then show ?thesis
      using 3 l' t' r Node.prems(1) by (cases "l = Tip") auto
  qed
qed

subsection \<open>Marking a node\<close>

lemma mark_as_allocated_ok:
  assumes "avl t" "ordered (inorder t)" "\<forall>e \<in> entries t. valid_range (fst e)" "(q, Free) \<in> entries t"
  shows "\<exists>t'. mark_as_allocated t q = Ok t' \<and> avl t' \<and> height t' = height t \<and>
     inorder t' = map (\<lambda>e. if fst e = q then (q, Allocated) else e) (inorder t)"
  using assms
proof (induction t)
  case Tip
  then show ?case by simp
next
  case (Node l k s h r)
  note apart = entries_apart [OF Node.prems(2) [unfolded inorder.simps] Node.prems(3)]
  have noop: "q \<notin> fst ` entries x \<Longrightarrow> map (\<lambda>e. if fst e = q then (q, Allocated) else e) (inorder x) = inorder x"
    for x by (rule map_idI) (auto simp: entries_def)
  consider "k = q" | "k < q" | "q < k" by (rule linorder_cases)
  then show ?case
  proof cases
    case 1
    then have "q \<notin> fst ` entries l" "q \<notin> fst ` entries r" "s = Free"
      using apart Node.prems(4) by force+
    then show ?thesis using 1 Node.prems(1) noop by simp
  next
    case 2
    then have nl: "q \<notin> fst ` entries l" using apart(1) by (auto dest: less_asym)
    have "(q, Free) \<in> entries r" using Node.prems(4) 2 nl by (auto simp: image_iff)
    then obtain r' where "mark_as_allocated r q = Ok r'" "avl r'" "height r' = height r"
      "inorder r' = map (\<lambda>e. if fst e = q then (q, Allocated) else e) (inorder r)"
      using Node.IH(2) Node.prems by (auto simp: ordered_inorder_Node)
    then show ?thesis using 2 Node.prems(1) noop [OF nl] by auto
  next
    case 3
    then have nr: "q \<notin> fst ` entries r" using apart(2) by (auto dest: less_asym)
    have "(q, Free) \<in> entries l" using Node.prems(4) 3 nr by (auto simp: image_iff)
    then obtain l' where "mark_as_allocated l q = Ok l'" "avl l'" "height l' = height l"
      "inorder l' = map (\<lambda>e. if fst e = q then (q, Allocated) else e) (inorder l)"
      using Node.IH(1) Node.prems by (auto simp: ordered_inorder_Node)
    then show ?thesis using 3 Node.prems(1) noop [OF nr] by auto
  qed
qed

subsection \<open>The matches are the first and the last fitting entries\<close>

definition fits :: "alloc_constraint \<Rightarrow> entry \<Rightarrow> bool" where
  "fits c e = is_ok (check_constraint (fst e) (snd e) c)"

definition windowed :: "alloc_constraint \<Rightarrow> bool" where
  "windowed c \<longleftrightarrow> c_policy c = FirstMatch \<or> c_policy c = LastMatch"

lemma check_constraint_not_Panic: "windowed c \<Longrightarrow> check_constraint k s c \<noteq> Panic"
  by (auto simp: check_constraint_def windowed_def rbind_def ok_or_def range_new_def align_up_def
      align_down_def split: alloc_policy.splits option.splits result.splits)

lemma first_match_cases:
  assumes "windowed c"
  shows "(first_match t c = Err ResourceNotAvailable \<and> (\<forall>e \<in> entries t. \<not> fits c e)) \<or>
    (\<exists>n rg xs ys. first_match t c = Ok (n, rg) \<and> n \<noteq> Tip \<and>
       check_constraint (key n) (state n) c = Ok rg \<and>
       inorder t = xs @ (key n, state n) # ys \<and> (\<forall>e \<in> set xs. \<not> fits c e))"
proof (induction t)
  case Tip
  then show ?case by simp
next
  case (Node l k s h r)
  note np = check_constraint_not_Panic [OF assms, of k s]
  show ?case
  proof (cases "first_match l c = Err ResourceNotAvailable")
    case False
    then show ?thesis using Node.IH(1) by fastforce
  next
    case True
    then have nl: "\<forall>e \<in> entries l. \<not> fits c e" using Node.IH(1) by auto
    show ?thesis
    proof (cases "check_constraint k s c")
      case (Ok rg)
      then show ?thesis using True nl
        by (intro disjI2 exI [of _ "Node l k s h r"] exI [of _ rg] exI [of _ "inorder l"]
            exI [of _ "inorder r"]) (auto simp: entries_def)
    next
      case (Err e)
      then have nk: "\<not> fits c (k, s)" by (simp add: fits_def)
      have eq: "first_match (Node l k s h r) c = first_match r c" using True Err by simp
      show ?thesis
        using Node.IH(2)
      proof
        assume "first_match r c = Err ResourceNotAvailable \<and> (\<forall>e \<in> entries r. \<not> fits c e)"
        then show ?thesis using nl nk eq by auto
      next
        assume "\<exists>n rg xs ys. first_match r c = Ok (n, rg) \<and> n \<noteq> Tip \<and>
          check_constraint (key n) (state n) c = Ok rg \<and>
          inorder r = xs @ (key n, state n) # ys \<and> (\<forall>e \<in> set xs. \<not> fits c e)"
        then obtain n rg xs ys where "first_match r c = Ok (n, rg)" "n \<noteq> Tip"
          "check_constraint (key n) (state n) c = Ok rg"
          "inorder r = xs @ (key n, state n) # ys" "\<forall>e \<in> set xs. \<not> fits c e" by blast
        then show ?thesis using eq nl nk
          by (intro disjI2 exI [of _ n] exI [of _ rg] exI [of _ "inorder l @ (k, s) # xs"]
              exI [of _ ys]) (auto simp: entries_def)
      qed
    qed (use np in simp)
  qed
qed

text \<open>\<open>last_match\<close> is \<open>first_match\<close> on the mirror image.\<close>

fun mirror :: "inner_tree \<Rightarrow> inner_tree" where
  "mirror Tip = Tip"
| "mirror (Node l k s h r) = Node (mirror r) k s h (mirror l)"

lemma inorder_mirror: "inorder (mirror t) = rev (inorder t)"
  by (induction t) auto

lemma mirror_sel: "t \<noteq> Tip \<Longrightarrow> mirror t \<noteq> Tip \<and> key (mirror t) = key t \<and> state (mirror t) = state t"
  by (cases t) auto

lemma mirror_mirror [simp]: "mirror (mirror t) = t"
  by (induction t) auto

lemma last_match_mirror:
  "last_match t c = map_result (map_prod mirror id) id (first_match (mirror t) c)"
proof (induction t)
  case Tip
  then show ?case by simp
next
  case (Node l k s h r)
  have eq: "map_result f (\<lambda>a. a) x = Err ResourceNotAvailable \<longleftrightarrow> x = Err ResourceNotAvailable"
    for f :: "inner_tree \<times> range_inclusive \<Rightarrow> inner_tree \<times> range_inclusive"
      and x :: "(inner_tree \<times> range_inclusive, alloc_error) result"
    by (cases x) auto
  show ?case
    by (cases "check_constraint k s c") (auto simp: Node.IH eq Let_def)
qed

lemma last_match_cases:
  assumes "windowed c"
  shows "(last_match t c = Err ResourceNotAvailable \<and> (\<forall>e \<in> entries t. \<not> fits c e)) \<or>
    (\<exists>n rg xs ys. last_match t c = Ok (n, rg) \<and> n \<noteq> Tip \<and>
       check_constraint (key n) (state n) c = Ok rg \<and>
       inorder t = xs @ (key n, state n) # ys \<and> (\<forall>e \<in> set ys. \<not> fits c e))"
  using first_match_cases [OF assms, of "mirror t"]
proof
  assume "first_match (mirror t) c = Err ResourceNotAvailable \<and> (\<forall>e \<in> entries (mirror t). \<not> fits c e)"
  then show ?thesis by (simp add: last_match_mirror entries_def inorder_mirror)
next
  assume "\<exists>n rg xs ys. first_match (mirror t) c = Ok (n, rg) \<and> n \<noteq> Tip \<and>
       check_constraint (key n) (state n) c = Ok rg \<and>
       inorder (mirror t) = xs @ (key n, state n) # ys \<and> (\<forall>e \<in> set xs. \<not> fits c e)"
  then obtain n rg xs ys where n: "first_match (mirror t) c = Ok (n, rg)" "n \<noteq> Tip"
    "check_constraint (key n) (state n) c = Ok rg"
    "inorder (mirror t) = xs @ (key n, state n) # ys" "\<forall>e \<in> set xs. \<not> fits c e" by blast
  have "inorder t = rev ys @ (key n, state n) # rev xs"
    using arg_cong [OF n(4), of rev] by (simp add: inorder_mirror)
  then show ?thesis
    using n mirror_sel [OF n(2)]
    by (intro disjI2 exI [of _ "mirror n"] exI [of _ rg] exI [of _ "rev ys"] exI [of _ "rev xs"])
      (auto simp: last_match_mirror)
qed

end
