(* ===== verification/AllocEngine.thy ===== *)
theory AllocEngine
  imports IntervalTree
begin

section \<open>vm-allocator: the allocation engine\<close>

text \<open>
  The public operations of \<open>IntervalTree\<close> in \<open>allocation_engine/interval_tree.rs\<close>: a struct
  whose only field is the optional root, so its state is an \<open>inner_tree\<close>.  A method on
  \<open>&mut self\<close> is an action: it returns its result together with the state it leaves, also
  when it fails.  \<open>it_insert\<close> takes the root out of the struct before it calls the fallible
  \<open>InnerNode::insert\<close>, so an error leaves the struct without a root.  The lemmas describe each
  operation by the sets of free and of allocated addresses of the tree.
\<close>

subsection \<open>The operations of the interval tree\<close>

definition it_new :: "range_inclusive \<Rightarrow> inner_tree" where
  "it_new k = node_new k Free"

definition it_search_superset :: "inner_tree \<Rightarrow> range_inclusive \<Rightarrow> inner_tree option" where
  "it_search_superset t q = (case t of Tip \<Rightarrow> None | _ \<Rightarrow> search_superset t q)"

definition it_insert :: "range_inclusive \<Rightarrow> node_state \<Rightarrow> (inner_tree, unit, alloc_error) act" where
  "it_insert q st t =
     (if t = Tip then (Ok (), node_new q st)
      else (case insert t q st of
          Ok t' \<Rightarrow> (Ok (), t')
        | Err e \<Rightarrow> (Err e, Tip)
        | Panic \<Rightarrow> (Panic, Tip)))"

definition it_mark_as_allocated :: "range_inclusive \<Rightarrow> (inner_tree, unit, alloc_error) act" where
  "it_mark_as_allocated q t =
     (if t = Tip then (Ok (), t)
      else (case mark_as_allocated t q of
          Ok t' \<Rightarrow> (Ok (), t')
        | Err e \<Rightarrow> (Err e, t)
        | Panic \<Rightarrow> (Panic, t)))"

definition it_delete :: "range_inclusive \<Rightarrow> (inner_tree, unit, alloc_error) act" where
  "it_delete q t =
     (if t = Tip then (Ok (), t)
      else if search t q = None then (Err ResourceNotAvailable, t)
      else (case delete t q of
          Ok t' \<Rightarrow> (Ok (), t')
        | Err e \<Rightarrow> (Err e, Tip)
        | Panic \<Rightarrow> (Panic, Tip)))"

text \<open>The second half of \<open>allocate\<close>, for a candidate that is not a perfect match: delete it and
  insert what is left of it on either side of the allocated range.\<close>

definition free_before ::
  "range_inclusive \<Rightarrow> range_inclusive \<Rightarrow> (inner_tree, unit, alloc_error) act" where
  "free_before node_key res =
     (if ri_start res > ri_start node_key then
        abind (alift (rbind (ok_or (checked_sub (ri_start res) 1) Overflow)
          (\<lambda>e. range_new (ri_start node_key) e))) (\<lambda>rg. it_insert rg Free)
      else alift (Ok ()))"

definition free_after ::
  "range_inclusive \<Rightarrow> range_inclusive \<Rightarrow> (inner_tree, unit, alloc_error) act" where
  "free_after node_key res =
     (if ri_end res < ri_end node_key then
        abind (alift (rbind (ok_or (checked_add (ri_end res) 1) Overflow)
          (\<lambda>s. range_new s (ri_end node_key)))) (\<lambda>rg. it_insert rg Free)
      else alift (Ok ()))"

definition split_node ::
  "range_inclusive \<Rightarrow> range_inclusive \<Rightarrow> (inner_tree, range_inclusive, alloc_error) act" where
  "split_node node_key res =
     abind (it_delete node_key) (\<lambda>_.
     abind (free_before node_key res) (\<lambda>_.
     abind (it_insert res Allocated) (\<lambda>_.
     abind (free_after node_key res) (\<lambda>_.
     alift (Ok res)))))"

definition it_allocate :: "alloc_constraint \<Rightarrow> (inner_tree, range_inclusive, alloc_error) act" where
  "it_allocate c t =
     (if t = Tip then (Err ResourceNotAvailable, t)
      else abind (alift (find_candidate t c)) (\<lambda>(node, range).
        abind (alift
          (rbind (rbind (ok_or (checked_add (ri_start range) (c_size c)) Overflow)
                    (\<lambda>addr. ok_or (checked_sub addr 1) Underflow))
             (\<lambda>e. range_new (ri_start range) e))) (\<lambda>res.
        if ri_start (key node) = ri_start res \<and> range_len (key node) = c_size c then
          abind (it_mark_as_allocated (key node)) (\<lambda>_. alift (Ok (key node)))
        else split_node (key node) res)) t)"

text \<open>The two probes of \<open>free\<close>: the node that holds the two addresses before the range, and the
  one that holds the two addresses after it.\<close>

definition merge_left :: "inner_tree \<Rightarrow> range_inclusive \<Rightarrow> (range_inclusive, alloc_error) result" where
  "merge_left t rng =
     (if ri_start rng > 0 then
        rbind (ok_or (checked_sub (ri_start rng) 2) Underflow) (\<lambda>a.
        rbind (ok_or (checked_sub (ri_start rng) 1) Underflow) (\<lambda>b.
        rbind (range_new a b) (\<lambda>probe.
          case it_search_superset t probe of
            Some node \<Rightarrow>
              if state node = Free then range_new (ri_start (key node)) (ri_end rng) else Ok rng
          | None \<Rightarrow> Ok rng)))
      else Ok rng)"

definition merge_right :: "inner_tree \<Rightarrow> range_inclusive \<Rightarrow> (range_inclusive, alloc_error) result" where
  "merge_right t rng =
     (if ri_end rng < - 1 then
        rbind (ok_or (checked_add (ri_end rng) 1) Overflow) (\<lambda>a.
        rbind (ok_or (checked_add (ri_end rng) 2) Overflow) (\<lambda>b.
        rbind (range_new a b) (\<lambda>probe.
          case it_search_superset t probe of
            Some node \<Rightarrow>
              if state node = Free then range_new (ri_start rng) (ri_end (key node)) else Ok rng
          | None \<Rightarrow> Ok rng)))
      else Ok rng)"

definition absorb_left :: "range_inclusive \<Rightarrow> range_inclusive \<Rightarrow> (inner_tree, unit, alloc_error) act" where
  "absorb_left k rng =
     (if ri_start rng < ri_start k then
        abind (alift (rbind (ok_or (checked_sub (ri_start k) 1) Underflow)
          (\<lambda>e. range_new (ri_start rng) e))) it_delete
      else alift (Ok ()))"

definition absorb_right :: "range_inclusive \<Rightarrow> range_inclusive \<Rightarrow> (inner_tree, unit, alloc_error) act" where
  "absorb_right k rng =
     (if ri_end rng > ri_end k then
        abind (alift (rbind (ok_or (checked_add (ri_end k) 1) Overflow)
          (\<lambda>s. range_new s (ri_end rng)))) it_delete
      else alift (Ok ()))"

definition it_free :: "range_inclusive \<Rightarrow> (inner_tree, unit, alloc_error) act" where
  "it_free k =
     abind (it_delete k) (\<lambda>_ t.
     abind (alift (rbind (merge_left t k) (merge_right t))) (\<lambda>rng.
     abind (absorb_left k rng) (\<lambda>_.
     abind (absorb_right k rng) (\<lambda>_.
     it_insert rng Free))) t)"

subsection \<open>Addresses held by a set of nodes\<close>

definition covered :: "node_state \<Rightarrow> entry set \<Rightarrow> u64 set" where
  "covered st E = (\<Union>e \<in> {e \<in> E. snd e = st}. range_set (fst e))"

definition addrs :: "node_state \<Rightarrow> inner_tree \<Rightarrow> u64 set" where
  "addrs st t = covered st (entries t)"

definition apart :: "entry set \<Rightarrow> bool" where
  "apart E \<longleftrightarrow> (\<forall>a \<in> E. \<forall>b \<in> E. a \<noteq> b \<longrightarrow> range_set (fst a) \<inter> range_set (fst b) = {})"

lemma covered_insert:
  "covered st (Set.insert (k, s) E) = (if s = st then range_set k \<union> covered st E else covered st E)"
  by (auto simp: covered_def)

lemma apartD:
  assumes "apart E" "a \<in> E" "b \<in> E" "x \<in> range_set (fst a)" "x \<in> range_set (fst b)"
  shows "a = b"
  using assms unfolding apart_def by blast

lemma covered_iff: "x \<in> covered st E \<longleftrightarrow> (\<exists>e \<in> E. snd e = st \<and> x \<in> range_set (fst e))"
  unfolding covered_def by blast

lemma covered_remove:
  assumes "apart E" "(k, s) \<in> E" "valid_range k"
  shows "covered st {e \<in> E. fst e \<noteq> k} = (if s = st then covered st E - range_set k else covered st E)"
proof -
  have same: "e = (k, s)" if "e \<in> E" "x \<in> range_set (fst e)" "x \<in> range_set k" for e x
    using apartD [OF assms(1) that(1) assms(2) that(2)] that(3) by simp
  have key: "e = (k, s)" if "e \<in> E" "fst e = k" for e
    using same [OF that(1)] that(2) range_set_nonempty [OF assms(3)] by blast
  show ?thesis
  proof (cases "s = st")
    case True
    have "x \<in> covered st {e \<in> E. fst e \<noteq> k} \<longleftrightarrow> x \<in> covered st E \<and> x \<notin> range_set k" for x
      unfolding covered_iff using same [where x = x] by (metis (mono_tags, lifting) fst_conv mem_Collect_eq)
    then show ?thesis using True by auto
  next
    case False
    have "x \<in> covered st {e \<in> E. fst e \<noteq> k} \<longleftrightarrow> x \<in> covered st E" for x
      unfolding covered_iff using key False by (metis (mono_tags, lifting) snd_conv mem_Collect_eq)
    then show ?thesis using False by auto
  qed
qed

lemma ordered_apart:
  assumes "ordered es" "\<forall>e \<in> set es. valid_range (fst e)"
  shows "apart (set es)"
  using assms
proof (induction es)
  case Nil
  then show ?case by (simp add: apart_def)
next
  case (Cons a es)
  have "range_set (fst a) \<inter> range_set (fst b) = {}" if "b \<in> set es" for b
    using Cons.prems that by (auto simp: ordered_def range_set_def)
  moreover have "apart (set es)" using Cons by (simp add: ordered_def)
  ultimately show ?case by (auto simp: apart_def Int_commute)
qed

lemma tree_inv_apart: "tree_inv t \<Longrightarrow> apart (entries t)"
  using ordered_apart [of "inorder t"] by (simp add: tree_inv_def entries_def)

lemma tree_inv_valid: "tree_inv t \<Longrightarrow> e \<in> entries t \<Longrightarrow> valid_range (fst e)"
  by (simp add: tree_inv_def)

lemma tree_inv_Tip [simp]: "tree_inv Tip"
  by (simp add: tree_inv_def)

lemma tree_inv_node_new: "valid_range k \<Longrightarrow> tree_inv (node_new k s)"
  by (simp add: tree_inv_def node_new_def ordered_def)

lemma entries_node_new [simp]: "entries (node_new k s) = {(k, s)}"
  by (simp add: node_new_def)

text \<open>Two nodes that meet are the same node.\<close>

lemma entries_meet:
  assumes "tree_inv t" "a \<in> entries t" "b \<in> entries t" "x \<in> range_set (fst a)" "x \<in> range_set (fst b)"
  shows "a = b"
  using apartD [OF tree_inv_apart [OF assms(1)] assms(2-)] .

lemma entries_same_key:
  assumes "tree_inv t" "(k, s) \<in> entries t" "(k, s') \<in> entries t"
  shows "s = s'"
  using entries_meet [OF assms, of "ri_start k"] tree_inv_valid [OF assms(1,2)]
  by (simp add: range_set_def valid_range_def)

subsection \<open>The elementary operations\<close>

lemma it_insert_cases:
  assumes "tree_inv t" "valid_range q"
  shows "(\<exists>t'. it_insert q st t = (Ok (), t') \<and> tree_inv t' \<and> height t' \<le> height t + 1 \<and>
            entries t' = Set.insert (q, st) (entries t) \<and> (\<forall>e \<in> entries t. \<not> overlaps (fst e) q)) \<or>
         (\<exists>e. it_insert q st t = (Err e, Tip) \<and> (height t \<ge> 50 \<or> (\<exists>e \<in> entries t. overlaps (fst e) q)))"
proof (cases "t = Tip")
  case True
  then show ?thesis using tree_inv_node_new [OF assms(2), of st] by (simp add: it_insert_def node_new_def)
next
  case False
  note inv = assms(1) [unfolded tree_inv_def]
  consider "height t \<ge> 50" | e where "height t < 50" "e \<in> entries t" "overlaps (fst e) q"
    | "height t < 50" "\<forall>e \<in> entries t. \<not> overlaps (fst e) q" by force
  then show ?thesis
  proof cases
    case 1
    then show ?thesis using False by (auto simp: it_insert_def insert_full)
  next
    case 2
    then show ?thesis using False inv assms(2) insert_overlap [of t q e st]
      by (auto simp: it_insert_def)
  next
    case 3
    then obtain t' where "insert t q st = Ok t'" "avl t'" "ordered (inorder t')"
      "entries t' = Set.insert (q, st) (entries t)" "height t' \<in> {height t, height t + 1}"
      using inv assms(2) insert_ok [of t q st] by auto
    then show ?thesis using False 3 inv assms(2) by (auto simp: it_insert_def tree_inv_def)
  qed
qed

lemma it_insert_Ok:
  assumes "it_insert q st t = (Ok (), t')" "tree_inv t" "valid_range q"
  shows "tree_inv t' \<and> entries t' = Set.insert (q, st) (entries t) \<and>
    (\<forall>e \<in> entries t. \<not> overlaps (fst e) q) \<and> height t' \<le> height t + 1"
  using it_insert_cases [OF assms(2,3), of st] assms(1) by (elim disjE conjE exE) simp_all

lemma keeps_it_insert: "valid_range q \<Longrightarrow> keeps tree_inv (it_insert q st)"
proof (rule keepsI)
  fix t assume "valid_range q" "tree_inv t"
  from it_insert_cases [OF this(2,1), of st]
  show "tree_inv (snd (it_insert q st t)) \<and> fst (it_insert q st t) \<noteq> Panic"
    by (elim disjE conjE exE) simp_all
qed

lemma it_delete_cases:
  assumes "tree_inv t"
  shows "(t = Tip \<and> it_delete q t = (Ok (), Tip)) \<or>
     (t \<noteq> Tip \<and> q \<notin> fst ` entries t \<and> it_delete q t = (Err ResourceNotAvailable, t)) \<or>
     (q \<in> fst ` entries t \<and> (\<exists>t'. it_delete q t = (Ok (), t') \<and> tree_inv t' \<and>
        entries t' = {e \<in> entries t. fst e \<noteq> q} \<and> height t' \<le> height t))"
proof (cases "t = Tip")
  case True
  then show ?thesis by (simp add: it_delete_def)
next
  case False
  note inv = assms [unfolded tree_inv_def]
  show ?thesis
  proof (cases "q \<in> fst ` entries t")
    case True
    then have "search t q \<noteq> None" using search_None_iff [of t q] inv by blast
    moreover obtain t' where t': "delete t q = Ok t'" "avl t'"
      "inorder t' = filter (\<lambda>e. fst e \<noteq> q) (inorder t)" "height t \<in> {height t', height t' + 1}"
      using delete_ok [of t q] inv by auto
    moreover have h: "height t' \<le> height t" using t'(4) by auto
    moreover have E: "entries t' = {e \<in> entries t. fst e \<noteq> q}"
      by (simp add: entries_def t'(3))
    moreover have "ordered (inorder t')"
      using inv by (simp add: t'(3) ordered_def sorted_wrt_filter)
    ultimately have "it_delete q t = (Ok (), t')" "tree_inv t'"
      using False inv by (simp_all add: it_delete_def tree_inv_def) 
    with True h E show ?thesis by blast
  next
    case notin: False
    then have "search t q = None" using search_None_iff [of t q] inv by blast
    with notin False show ?thesis by (simp add: it_delete_def)
  qed
qed

lemma it_delete_Ok:
  assumes "it_delete q t = (Ok (), t')" "tree_inv t"
  shows "tree_inv t' \<and> entries t' = {e \<in> entries t. fst e \<noteq> q} \<and> (t \<noteq> Tip \<longrightarrow> q \<in> fst ` entries t) \<and>
    height t' \<le> height t"
  using it_delete_cases [OF assms(2), of q] assms(1) by (elim disjE conjE exE) simp_all

lemma keeps_it_delete: "keeps tree_inv (it_delete q)"
proof (rule keepsI)
  fix t assume inv: "tree_inv t"
  from it_delete_cases [OF inv, of q] inv
  show "tree_inv (snd (it_delete q t)) \<and> fst (it_delete q t) \<noteq> Panic"
    by (elim disjE conjE exE) simp_all
qed

lemma it_mark_Free:
  assumes "tree_inv t" "(q, Free) \<in> entries t"
  obtains t' where "it_mark_as_allocated q t = (Ok (), t')" "tree_inv t'"
    "entries t' = Set.insert (q, Allocated) {e \<in> entries t. fst e \<noteq> q}"
proof -
  note inv = assms(1) [unfolded tree_inv_def]
  obtain t' where t': "mark_as_allocated t q = Ok t'" "avl t'" "height t' = height t"
    "inorder t' = map (\<lambda>e. if fst e = q then (q, Allocated) else e) (inorder t)"
    using mark_as_allocated_ok [of t q] inv assms(2) by auto
  have keys: "map fst (inorder t') = map fst (inorder t)"
    by (simp add: t'(4))
  have "ordered (inorder t')"
    using inv by (simp only: ordered_keys keys)
  moreover have "entries t' = Set.insert (q, Allocated) {e \<in> entries t. fst e \<noteq> q}"
    using assms(2) unfolding entries_def t'(4) set_map by (auto intro: rev_image_eqI)
  moreover have "valid_range q" using tree_inv_valid [OF assms] by simp
  ultimately have "tree_inv t'" using t' inv by (auto simp: tree_inv_def)
  moreover have "t \<noteq> Tip" using assms(2) by auto
  ultimately show thesis
    using that t'(1) \<open>entries t' = _\<close> by (simp add: it_mark_as_allocated_def)
qed

lemma mark_as_allocated_not_Panic: "mark_as_allocated t q \<noteq> Panic"
  by (induction t q rule: mark_as_allocated.induct) (simp_all add: rbind_eq_Panic_iff split: ordering.splits)

lemma mark_as_allocated_Ok_Free: "mark_as_allocated t q = Ok t' \<Longrightarrow> (q, Free) \<in> entries t"
  by (induction t q arbitrary: t' rule: mark_as_allocated.induct)
    (auto simp: rbind_eq_Ok_iff split: ordering.splits if_splits)

lemma keeps_it_mark: "keeps tree_inv (it_mark_as_allocated q)"
proof (rule keepsI)
  fix t assume inv: "tree_inv t"
  show "tree_inv (snd (it_mark_as_allocated q t)) \<and> fst (it_mark_as_allocated q t) \<noteq> Panic"
  proof (cases "mark_as_allocated t q")
    case (Ok t')
    obtain t'' where "it_mark_as_allocated q t = (Ok (), t'')" "tree_inv t''"
      by (rule it_mark_Free [OF inv mark_as_allocated_Ok_Free [OF Ok]])
    then show ?thesis by simp
  qed (use inv mark_as_allocated_not_Panic [of t q] in \<open>auto simp: it_mark_as_allocated_def\<close>)
qed

subsection \<open>No operation panics or breaks the tree\<close>

lemma find_candidate_not_Panic: "find_candidate t c \<noteq> Panic"
proof (cases "c_policy c")
  case FirstMatch
  then show ?thesis using first_match_cases [of c t] by (auto simp: find_candidate_def windowed_def)
next
  case LastMatch
  then show ?thesis using last_match_cases [of c t] by (auto simp: find_candidate_def windowed_def)
next
  case (ExactMatch a)
  then show ?thesis by (auto simp: find_candidate_def rbind_eq_Panic_iff)
qed

lemma checked_range_not_Panic:
  "rbind (ok_or x e) (\<lambda>a. range_new a b) \<noteq> Panic" "rbind (ok_or x e) (\<lambda>b. range_new a b) \<noteq> Panic"
  by (simp_all add: rbind_eq_Panic_iff)

lemma keeps_optional_insert:
  assumes "r \<noteq> Panic" "\<And>x. r = Ok x \<Longrightarrow> valid_range x"
  shows "keeps tree_inv (if b then abind (alift r) (\<lambda>rg. it_insert rg Free) else alift (Ok ()))"
  using assms by (cases b) (auto intro!: keeps_it_insert)

lemma keeps_optional_delete:
  "r \<noteq> Panic \<Longrightarrow> keeps tree_inv (if b then abind (alift r) it_delete else alift (Ok ()))"
  by (cases b) (auto intro!: keeps_it_delete)

lemma keeps_split_node: "valid_range res \<Longrightarrow> keeps tree_inv (split_node k res)"
  unfolding split_node_def free_before_def free_after_def
  by (intro keeps_abind keeps_it_delete keeps_optional_insert keeps_it_insert keeps_alift
      checked_range_not_Panic) (auto simp: rbind_eq_Ok_iff dest: valid_range_new)

lemma keeps_it_allocate: "keeps tree_inv (it_allocate c)"
proof (rule keepsI)
  fix t assume inv: "tree_inv t"
  have mark: "keeps tree_inv (abind (it_mark_as_allocated k) (\<lambda>_. alift (Ok k)))" for k
    by (intro keeps_abind keeps_it_mark keeps_alift) simp
  show "tree_inv (snd (it_allocate c t)) \<and> fst (it_allocate c t) \<noteq> Panic"
  proof (cases "t = Tip")
    case True
    then show ?thesis by (simp add: it_allocate_def)
  next
    case False
    show ?thesis
      unfolding it_allocate_def if_not_P [OF False]
      by (rule keepsD [where P = tree_inv and m = "abind (alift (find_candidate t c)) f" for f, OF _ inv])
        (auto simp: find_candidate_not_Panic rbind_eq_Panic_iff rbind_eq_Ok_iff dest: valid_range_new
          intro!: keeps_abind_alift keeps_split_node mark)
  qed
qed

lemma merge_not_Panic: "merge_left t k \<noteq> Panic" "merge_right t k \<noteq> Panic"
  by (auto simp: merge_left_def merge_right_def rbind_eq_Panic_iff split: option.splits)

lemma valid_merge_left: "merge_left t k = Ok r \<Longrightarrow> valid_range k \<Longrightarrow> valid_range r"
  by (auto simp: merge_left_def rbind_eq_Ok_iff dest: valid_range_new split: if_splits option.splits)

lemma valid_merge_right: "merge_right t k = Ok r \<Longrightarrow> valid_range k \<Longrightarrow> valid_range r"
  by (auto simp: merge_right_def rbind_eq_Ok_iff dest: valid_range_new split: if_splits option.splits)

lemma keeps_it_free:
  assumes "valid_range k"
  shows "keeps tree_inv (it_free k)"
proof -
  have step: "keeps tree_inv (\<lambda>t. abind (alift (rbind (merge_left t k) (merge_right t))) f t)"
    if "\<And>r. valid_range r \<Longrightarrow> keeps tree_inv (f r)" for f
  proof (rule keepsI)
    fix t assume inv: "tree_inv t"
    have "keeps tree_inv (abind (alift (rbind (merge_left t k) (merge_right t))) f)"
      using that assms merge_not_Panic valid_merge_left valid_merge_right
      by (intro keeps_abind_alift) (auto simp: rbind_eq_Ok_iff rbind_eq_Panic_iff)
    then show "tree_inv (snd (abind (alift (rbind (merge_left t k) (merge_right t))) f t)) \<and>
      fst (abind (alift (rbind (merge_left t k) (merge_right t))) f t) \<noteq> Panic"
      using inv by (rule keepsD)
  qed
  show ?thesis
    unfolding it_free_def absorb_left_def absorb_right_def
    by (intro keeps_abind [OF keeps_it_delete] step)
      (intro keeps_abind keeps_optional_delete keeps_it_insert checked_range_not_Panic)
qed

subsection \<open>What an allocation does to the address space\<close>

lemma word_le_pred_iff: "b \<noteq> 0 \<Longrightarrow> x \<le> b - 1 \<longleftrightarrow> x < b" for x b :: "'a::len word"
  using unat_gt_0 [of b] by (auto simp: word_le_nat_alt word_less_nat_alt unat_minus_one)

lemma word_succ_le_iff: "b \<noteq> - 1 \<Longrightarrow> b + 1 \<le> x \<longleftrightarrow> b < x" for x b :: "'a::len word"
  using unatSuc [of b] by (auto simp: word_le_nat_alt word_less_nat_alt add.commute add_eq_0_iff)

lemma atMost_pred: "b \<noteq> 0 \<Longrightarrow> {a..b - 1} = {a..<b}" for a b :: "'a::len word"
  by (auto simp: word_le_pred_iff)

lemma atLeast_succ: "b \<noteq> - 1 \<Longrightarrow> {b + 1..c} = {b<..c}" for b c :: "'a::len word"
  by (auto simp: word_succ_le_iff)

lemma addrs_insert:
  assumes "entries t' = Set.insert (q, s) (entries t)"
  shows "addrs st t' = addrs st t \<union> (if s = st then range_set q else {})"
  using assms by (auto simp: addrs_def covered_insert)

lemma it_insert_addrs:
  assumes "it_insert q s t = (Ok u, t')" "tree_inv t" "valid_range q"
  shows "tree_inv t'" and "addrs st t' = addrs st t \<union> (if s = st then range_set q else {})"
  using it_insert_Ok [of q s t t'] addrs_insert [of t' q s t] assms by auto

lemma free_before_addrs:
  assumes "free_before k res t = (Ok u, t')" "tree_inv t"
  shows "tree_inv t' \<and> addrs st t' = addrs st t \<union> (if st = Free then {ri_start k..<ri_start res} else {})"
proof (cases "ri_start res > ri_start k")
  case True
  then obtain rg where rg: "range_new (ri_start k) (ri_start res - 1) = Ok rg" "it_insert rg Free t = (Ok u, t')"
    using assms(1) by (auto simp: free_before_def abind_eq_Ok_iff rbind_eq_Ok_iff ok_or_eq_Ok_iff
        checked_sub_Some_iff alift_def)
  have "ri_start res \<noteq> 0" using True by (auto simp: word_less_nat_alt)
  then have "range_set rg = {ri_start k..<ri_start res}"
    using rg(1) atMost_pred [of "ri_start res"] by (auto simp: range_new_eq_Ok_iff range_set_def)
  then show ?thesis
    using it_insert_addrs(1) [OF rg(2) assms(2) valid_range_new [OF rg(1)]]
      it_insert_addrs(2) [OF rg(2) assms(2) valid_range_new [OF rg(1)], of st] by auto
next
  case False
  then show ?thesis using assms by (auto simp: free_before_def alift_def)
qed

lemma free_after_addrs:
  assumes "free_after k res t = (Ok u, t')" "tree_inv t"
  shows "tree_inv t' \<and> addrs st t' = addrs st t \<union> (if st = Free then {ri_end res<..ri_end k} else {})"
proof (cases "ri_end res < ri_end k")
  case True
  then obtain rg where rg: "range_new (ri_end res + 1) (ri_end k) = Ok rg" "it_insert rg Free t = (Ok u, t')"
    using assms(1) by (auto simp: free_after_def abind_eq_Ok_iff rbind_eq_Ok_iff ok_or_eq_Ok_iff
        checked_add_Some_iff alift_def)
  have "ri_end res \<noteq> - 1" using True by auto
  then have "range_set rg = {ri_end res<..ri_end k}"
    using rg(1) atLeast_succ [of "ri_end res"] by (auto simp: range_new_eq_Ok_iff range_set_def)
  then show ?thesis
    using it_insert_addrs(1) [OF rg(2) assms(2) valid_range_new [OF rg(1)]]
      it_insert_addrs(2) [OF rg(2) assms(2) valid_range_new [OF rg(1)], of st] by auto
next
  case False
  then show ?thesis using assms by (auto simp: free_after_def alift_def)
qed

lemma it_delete_addrs:
  assumes "it_delete q t = (Ok u, t')" "tree_inv t" "(q, s) \<in> entries t"
  shows "tree_inv t'" and "addrs st t' = (if s = st then addrs st t - range_set q else addrs st t)"
  using it_delete_Ok [of q t t'] assms covered_remove [OF tree_inv_apart [OF assms(2)] assms(3)]
    tree_inv_valid [OF assms(2,3)] by (auto simp: addrs_def)

lemma range_set_split:
  assumes "contains k res" "valid_range res"
  shows "range_set k = {ri_start k..<ri_start res} \<union> range_set res \<union> {ri_end res<..ri_end k}"
  using assms by (auto simp: contains_def valid_range_def range_set_def)

lemma range_set_addrs: "(k, st) \<in> entries t \<Longrightarrow> range_set k \<subseteq> addrs st t"
  unfolding addrs_def covered_def by fastforce

lemma addrs_disjoint:
  assumes "tree_inv t"
  shows "addrs Free t \<inter> addrs Allocated t = {}"
proof -
  have False if x: "x \<in> addrs Free t" "x \<in> addrs Allocated t" for x
  proof -
    from x obtain a b where "a \<in> entries t" "snd a = Free" "x \<in> range_set (fst a)"
      "b \<in> entries t" "snd b = Allocated" "x \<in> range_set (fst b)"
      unfolding addrs_def covered_iff by blast
    with apartD [OF tree_inv_apart [OF assms], of a b x] show False by simp
  qed
  then show ?thesis by blast
qed

lemma split_node_addrs:
  assumes "split_node k res t = (Ok r, t')" "tree_inv t" "(k, Free) \<in> entries t"
    and "valid_range res" "contains k res"
  shows "r = res" and "addrs Free t' = addrs Free t - range_set res"
    and "addrs Allocated t' = addrs Allocated t \<union> range_set res"
proof -
  from assms(1) obtain t1 t2 t3 u1 u2 u3 u4 where
    t1: "it_delete k t = (Ok u1, t1)" and t2: "free_before k res t1 = (Ok u2, t2)" and
    t3: "it_insert res Allocated t2 = (Ok u3, t3)" and t4: "free_after k res t3 = (Ok u4, t')" and
    r: "r = res"
    by (auto simp: split_node_def abind_eq_Ok_iff alift_def)
  show "r = res" by (rule r)
  note d = it_delete_addrs [OF t1 assms(2,3)]
  note l = free_before_addrs [OF t2 d(1)]
  note m = it_insert_addrs [OF t3 conjunct1 [OF l] assms(4)]
  note e = free_after_addrs [OF t4 m(1)]
  note sp = range_set_split [OF assms(5,4)]
  have sub: "range_set k \<subseteq> addrs Free t" using assms(3) by (rule range_set_addrs)
  have "addrs Free t' = addrs Free t - range_set k \<union> {ri_start k..<ri_start res} \<union> {ri_end res<..ri_end k}"
    using d(2) [of Free] l m(2) [of Free] e by simp
  also have "\<dots> = addrs Free t - range_set res"
    using sub sp valid_range_le [OF assms(4)] unfolding range_set_def by auto
  finally show "addrs Free t' = addrs Free t - range_set res" .
  show "addrs Allocated t' = addrs Allocated t \<union> range_set res"
    using d(2) [of Allocated] l m(2) [of Allocated] e by simp
qed

subsection \<open>Soundness of first and last match\<close>

lemma align_down_Ok_dvd: "is_power_of_two al \<Longrightarrow> align_down a al = Ok r \<Longrightarrow> unat al dvd unat r"
  using align_down_eq [of al a] by (auto simp: minus_mod_eq_div_mult)

lemma check_constraint_Ok:
  assumes "check_constraint k s c = Ok k'" "valid_constraint c" "windowed c"
  shows "s = Free \<and> k' = RangeInclusive (ri_start k') (ri_end k) \<and> valid_range k' \<and>
    ri_start k \<le> ri_start k' \<and> c_size c \<le> range_len k' \<and> unat (c_align c) dvd unat (ri_start k')"
proof -
  have al: "is_power_of_two (c_align c)" using assms(2) by (simp add: valid_constraint_def)
  from assms(1) have s: "s = Free" by (auto simp: check_constraint_def is_free_def split: if_splits)
  from assms(1) obtain rs where rs: "range_new rs (ri_end k) = Ok k'" "c_size c \<le> range_len k'" and
    cases: "c_policy c = FirstMatch \<and> align_up (ri_start k) (c_align c) = Ok rs \<or>
     c_policy c = LastMatch \<and> ri_start k \<le> rs \<and> (\<exists>a. align_down a (c_align c) = Ok rs)"
    using assms(3)
    by (auto simp: check_constraint_def windowed_def rbind_eq_Ok_iff not_less split: if_splits) blast
  from cases have "ri_start k \<le> rs \<and> unat (c_align c) dvd unat rs"
    using align_up_spec(1,2) [OF al] align_down_Ok_dvd [OF al] by (auto simp: word_le_nat_alt)
  with rs s show ?thesis by (auto simp: range_new_eq_Ok_iff)
qed

lemma window_in_node:
  assumes "valid_range k'" "c_size c \<le> range_len k'" "c_size c \<noteq> 0"
    and "checked_add (ri_start k') (c_size c) = Some a" "checked_sub a 1 = Some e"
    and "range_new (ri_start k') e = Ok res"
  shows "contains k' res \<and> range_len res = c_size c \<and> ri_start res = ri_start k' \<and> valid_range res"
proof -
  have res: "res = RangeInclusive (ri_start k') e" "valid_range res"
    using assms(6) by (auto simp: range_new_eq_Ok_iff)
  have pos: "0 < unat (c_size c)" using assms(3) by (simp add: unat_gt_0)
  have e: "unat e = unat (ri_start k') + unat (c_size c) - 1"
    using checked_add_unat [OF assms(4)] checked_sub_unat [OF assms(5)] by simp
  moreover have "unat (c_size c) \<le> unat (ri_end k') - unat (ri_start k') + 1"
    using assms(2) unat_range_len [OF assms(1)] by (simp add: word_le_nat_alt)
  moreover have "unat (ri_start k') \<le> unat (ri_end k')"
    using valid_range_le [OF assms(1)] by (simp add: word_le_nat_alt)
  ultimately have "contains k' res"
    using res(1) pos by (simp add: contains_def word_le_nat_alt)
  moreover have "unat (range_len res) = unat (c_size c)"
    using unat_range_len [OF res(2)] res(1) e pos by simp
  ultimately show ?thesis using res by (simp add: word_unat_eq_iff)
qed

lemma find_candidate_windowed:
  assumes "find_candidate t c = Ok (n, rg)" "windowed c"
  shows "n \<noteq> Tip \<and> (key n, state n) \<in> entries t \<and> check_constraint (key n) (state n) c = Ok rg"
proof (cases "c_policy c")
  case FirstMatch
  then show ?thesis using assms first_match_cases [OF assms(2), of t]
    by (auto simp: find_candidate_def entries_def)
next
  case LastMatch
  then show ?thesis using assms last_match_cases [OF assms(2), of t]
    by (auto simp: find_candidate_def entries_def)
qed (use assms(2) in \<open>simp add: windowed_def\<close>)

lemma it_allocate_OkE:
  assumes "it_allocate c t = (Ok r, t')"
  obtains n rg a e res where "find_candidate t c = Ok (n, rg)"
    and "checked_add (ri_start rg) (c_size c) = Some a" "checked_sub a 1 = Some e"
    and "range_new (ri_start rg) e = Ok res"
    and "if ri_start (key n) = ri_start res \<and> range_len (key n) = c_size c
      then it_mark_as_allocated (key n) t = (Ok (), t') \<and> r = key n
      else split_node (key n) res t = (Ok r, t')"
proof -
  from assms obtain n rg where "find_candidate t c = Ok (n, rg)"
    and body: "abind (alift
          (rbind (rbind (ok_or (checked_add (ri_start rg) (c_size c)) Overflow)
                    (\<lambda>addr. ok_or (checked_sub addr 1) Underflow))
             (\<lambda>e. range_new (ri_start rg) e))) (\<lambda>res.
        if ri_start (key n) = ri_start res \<and> range_len (key n) = c_size c then
          abind (it_mark_as_allocated (key n)) (\<lambda>_. alift (Ok (key n)))
        else split_node (key n) res) t = (Ok r, t')"
    by (auto simp: it_allocate_def abind_eq_Ok_iff alift_def split: if_splits prod.splits)
  from body obtain a e res where "checked_add (ri_start rg) (c_size c) = Some a" "checked_sub a 1 = Some e"
    "range_new (ri_start rg) e = Ok res"
    "(if ri_start (key n) = ri_start res \<and> range_len (key n) = c_size c then
        abind (it_mark_as_allocated (key n)) (\<lambda>_. alift (Ok (key n)))
      else split_node (key n) res) t = (Ok r, t')"
    unfolding abind_eq_Ok_iff by (auto simp: alift_def rbind_eq_Ok_iff ok_or_eq_Ok_iff)
  then show thesis
    using \<open>find_candidate t c = _\<close> that by (auto simp: abind_eq_Ok_iff alift_def split: if_splits)
qed

lemma it_allocate_sound:
  assumes "tree_inv t" "valid_constraint c" "windowed c" "it_allocate c t = (Ok r, t')"
  shows "range_set r \<subseteq> addrs Free t" and "range_len r = c_size c"
    and "unat (c_align c) dvd unat (ri_start r)"
    and "addrs Free t' = addrs Free t - range_set r"
    and "addrs Allocated t' = addrs Allocated t \<union> range_set r"
    and "valid_range r"
proof -
  from assms(4) obtain n rg a e res where n: "find_candidate t c = Ok (n, rg)"
    and w: "checked_add (ri_start rg) (c_size c) = Some a" "checked_sub a 1 = Some e"
      "range_new (ri_start rg) e = Ok res"
    and fin: "if ri_start (key n) = ri_start res \<and> range_len (key n) = c_size c
      then it_mark_as_allocated (key n) t = (Ok (), t') \<and> r = key n
      else split_node (key n) res t = (Ok r, t')"
    by (rule it_allocate_OkE)
  have sz: "c_size c \<noteq> 0" using assms(2) by (simp add: valid_constraint_def)
  note cand = find_candidate_windowed [OF n assms(3)]
  note ok = check_constraint_Ok [OF conjunct2 [OF conjunct2 [OF cand]] assms(2,3)]
  have ent: "(key n, Free) \<in> entries t" using cand ok by simp
  have k: "valid_range (key n)" using tree_inv_valid [OF assms(1) ent] by simp
  have win: "contains rg res \<and> range_len res = c_size c \<and> ri_start res = ri_start rg \<and> valid_range res"
    using ok sz by (intro window_in_node [OF _ _ _ w]) auto
  have sub: "contains (key n) res"
  proof -
    have "ri_end rg = ri_end (key n)" using ok by (metis range_inclusive.sel(2))
    then show ?thesis using ok win by (auto simp: contains_def)
  qed
  have "range_set r \<subseteq> addrs Free t \<and> range_len r = c_size c \<and> unat (c_align c) dvd unat (ri_start r) \<and>
     addrs Free t' = addrs Free t - range_set r \<and> addrs Allocated t' = addrs Allocated t \<union> range_set r \<and>
     valid_range r"
  proof (cases "ri_start (key n) = ri_start res \<and> range_len (key n) = c_size c")
    case True
    obtain t'' where t'': "it_mark_as_allocated (key n) t = (Ok (), t'')" "tree_inv t''"
      "entries t'' = Set.insert (key n, Allocated) {e \<in> entries t. fst e \<noteq> key n}"
      by (rule it_mark_Free [OF assms(1) ent])
    have "addrs st t'' = (if st = Free then addrs st t - range_set (key n) else addrs st t \<union> range_set (key n))" for st
      using covered_remove [OF tree_inv_apart [OF assms(1)] ent k, of st]
      by (cases st) (auto simp: addrs_def t''(3) covered_insert)
    then show ?thesis
      using True fin t''(1) ok win k range_set_addrs [OF ent] by auto
  next
    case False
    then have sp: "split_node (key n) res t = (Ok r, t')" using fin by simp
    have "range_set res \<subseteq> range_set (key n)"
      using sub contains_iff_sets [of res "key n"] win by simp
    then show ?thesis
      using split_node_addrs [OF sp assms(1) ent _ sub] win ok range_set_addrs [OF ent] by auto
  qed
  then show "range_set r \<subseteq> addrs Free t" and "range_len r = c_size c"
    and "unat (c_align c) dvd unat (ri_start r)" and "addrs Free t' = addrs Free t - range_set r"
    and "addrs Allocated t' = addrs Allocated t \<union> range_set r" and "valid_range r" by blast+
qed

subsection \<open>Completeness of first match\<close>

definition managed :: "inner_tree \<Rightarrow> u64 set" where
  "managed t = addrs Free t \<union> addrs Allocated t"

lemma managed_iff: "x \<in> managed t \<longleftrightarrow> (\<exists>e \<in> entries t. x \<in> range_set (fst e))"
proof -
  have "snd e = Free \<or> snd e = Allocated" for e :: entry by (cases "snd e") auto
  then show ?thesis unfolding managed_def addrs_def Un_iff covered_iff by blast
qed

lemma it_insert_succeeds:
  assumes "tree_inv t" "valid_range q" "height t < 50" "managed t \<inter> range_set q = {}"
  shows "\<exists>t'. it_insert q s t = (Ok (), t') \<and> height t' \<le> height t + 1"
proof -
  have "\<not> overlaps (fst e) q" if "e \<in> entries t" for e
  proof -
    have "range_set (fst e) \<subseteq> managed t" using that by (auto simp: managed_iff)
    then show ?thesis
      using overlaps_iff_sets [OF tree_inv_valid [OF assms(1) that] assms(2)] assms(4) by blast
  qed
  then show ?thesis using it_insert_cases [OF assms(1,2), of s] assms(3) by auto
qed

lemma it_delete_succeeds:
  assumes "tree_inv t" "(q, s) \<in> entries t"
  obtains t' where "it_delete q t = (Ok (), t')" "tree_inv t'" "height t' \<le> height t"
    "managed t' = managed t - range_set q"
proof -
  have "q \<in> fst ` entries t" using assms(2) by force
  then obtain t' where t': "it_delete q t = (Ok (), t')" "tree_inv t'" "height t' \<le> height t"
    using it_delete_cases [OF assms(1), of q] by auto
  have "managed t' = managed t - range_set q"
    using it_delete_addrs(2) [OF t'(1) assms(1,2)] addrs_disjoint [OF assms(1)]
      range_set_addrs [OF assms(2)] by (cases s) (auto simp: managed_def)
  with t' show thesis by (rule that)
qed

lemma free_before_succeeds:
  assumes "tree_inv t" "height t < 50" "managed t \<inter> {ri_start k..<ri_start res} = {}"
  shows "\<exists>t'. free_before k res t = (Ok (), t') \<and> height t' \<le> height t + 1"
proof (cases "ri_start res > ri_start k")
  case True
  then have nz: "ri_start res \<noteq> 0" by (auto simp: word_less_nat_alt)
  let ?q = "RangeInclusive (ri_start k) (ri_start res - 1)"
  have rs: "range_set ?q = {ri_start k..<ri_start res}" by (simp add: range_set_def atMost_pred [OF nz])
  have "ri_start res - 1 < ri_start res" using word_le_pred_iff [OF nz] by blast
  then have "ri_start res - 1 \<noteq> - 1" by auto
  then have v: "valid_range ?q" using True by (simp add: valid_range_def word_le_pred_iff [OF nz])
  have "1 \<le> ri_start res" using nz by (simp add: word_le_nat_alt unat_gt_0 Suc_leI)
  then have "free_before k res t = it_insert ?q Free t"
    using True v by (simp add: free_before_def checked_sub_def range_new_eq_Ok_iff [THEN iffD2])
  then show ?thesis using it_insert_succeeds [OF assms(1) v assms(2), of Free] assms(3) rs by simp
qed (simp add: free_before_def alift_def)

lemma free_after_succeeds:
  assumes "tree_inv t" "height t < 50" "managed t \<inter> {ri_end res<..ri_end k} = {}"
  shows "\<exists>t'. free_after k res t = (Ok (), t') \<and> height t' \<le> height t + 1"
proof (cases "ri_end res < ri_end k")
  case True
  then have nm: "ri_end res \<noteq> - 1" by auto
  let ?q = "RangeInclusive (ri_end res + 1) (ri_end k)"
  have rs: "range_set ?q = {ri_end res<..ri_end k}" by (simp add: range_set_def atLeast_succ [OF nm])
  have "ri_end res + 1 \<noteq> 0" using nm by (simp add: eq_neg_iff_add_eq_0)
  then have v: "valid_range ?q" using True by (simp add: valid_range_def word_succ_le_iff [OF nm])
  have "unat (ri_end res) + unat (1 :: u64) < 2 ^ 64"
    using True unsigned_less [of "ri_end k", where 'a = nat] by (simp add: word_less_nat_alt)
  then have "free_after k res t = it_insert ?q Free t"
    using True v by (simp add: free_after_def checked_add_def range_new_eq_Ok_iff [THEN iffD2])
  then show ?thesis using it_insert_succeeds [OF assms(1) v assms(2), of Free] assms(3) rs by simp
qed (simp add: free_after_def alift_def)

lemma split_node_succeeds:
  assumes "tree_inv t" "(k, Free) \<in> entries t" "valid_range res" "contains k res" "height t \<le> 47"
  shows "\<exists>t'. split_node k res t = (Ok res, t')"
proof -
  note sp = range_set_split [OF assms(4,3)]
  obtain t1 where t1: "it_delete k t = (Ok (), t1)" "tree_inv t1" "height t1 \<le> height t"
    "managed t1 = managed t - range_set k" by (rule it_delete_succeeds [OF assms(1,2)])
  obtain t2 where t2: "free_before k res t1 = (Ok (), t2)" "height t2 \<le> height t1 + 1"
    using free_before_succeeds [OF t1(2), of k res] t1(3,4) assms(5) sp by auto
  note l = free_before_addrs [OF t2(1) t1(2)]
  have m2: "managed t2 \<inter> range_set res = {}" "managed t2 \<inter> {ri_end res<..ri_end k} = {}"
    using l [of Free] l [of Allocated] t1(4) sp valid_range_le [OF assms(3)]
    unfolding managed_def range_set_def by auto
  obtain t3 where t3: "it_insert res Allocated t2 = (Ok (), t3)" "height t3 \<le> height t2 + 1"
    using it_insert_succeeds [OF conjunct1 [OF l] assms(3) _ m2(1), of Allocated] t1(3) t2(2) assms(5) by auto
  note m = it_insert_addrs [OF t3(1) conjunct1 [OF l] assms(3)]
  have "managed t3 \<inter> {ri_end res<..ri_end k} = {}"
    using m2(2) m(2) [of Free] m(2) [of Allocated] unfolding managed_def range_set_def by auto
  then obtain t4 where "free_after k res t3 = (Ok (), t4)"
    using free_after_succeeds [OF m(1), of res k] t1(3) t2(2) t3(2) assms(5) by auto
  then have "split_node k res t = (Ok res, t4)"
    using t1(1) t2(1) t3(1) by (simp add: split_node_def abind_def alift_def)
  then show ?thesis by blast
qed

text \<open>A free node fits as soon as it holds one aligned window of the requested size, and the start
  chosen in it is not above that window.\<close>

definition window_at :: "alloc_constraint \<Rightarrow> range_inclusive \<Rightarrow> nat \<Rightarrow> bool" where
  "window_at c k x \<longleftrightarrow> unat (ri_start k) \<le> x \<and> unat (c_align c) dvd x \<and>
     x + unat (c_size c) \<le> unat (ri_end k) + 1"

lemma aligned_below_top:
  assumes "is_power_of_two (al :: u64)" "unat al dvd x" "x < 2 ^ 64"
  shows "x + unat al \<le> 2 ^ 64"
proof -
  from assms(1) obtain n where n: "n < LENGTH(64)" "unat al = 2 ^ n" by (rule is_power_of_two_unatE)
  have "n \<le> 64" using n(1) by simp
  then have "unat al dvd 2 ^ 64" unfolding n(2) by (rule le_imp_power_dvd)
  then obtain a b where "x = unat al * a" "2 ^ 64 = unat al * b" using assms(2) unfolding dvd_def by blast
  moreover then have "a < b" using assms(3) by (metis mult_less_cancel1)
  ultimately show ?thesis by (metis Suc_leI add.commute mult_Suc_right mult_le_mono2)
qed

lemma check_constraint_window:
  assumes "valid_range k" "valid_constraint c" "c_policy c = FirstMatch" "window_at c k x"
  shows "\<exists>k'. check_constraint k Free c = Ok k' \<and> unat (ri_start k') \<le> x"
proof -
  have al: "is_power_of_two (c_align c)" and sz: "0 < unat (c_size c)"
    using assms(2) by (simp_all add: valid_constraint_def unat_gt_0)
  have w: "unat (ri_start k) \<le> x" "unat (c_align c) dvd x" "x + unat (c_size c) \<le> unat (ri_end k) + 1"
    using assms(4) by (simp_all add: window_at_def)
  have top: "unat (ri_end k) < 2 ^ 64" using unsigned_less [of "ri_end k", where 'a = nat] by simp
  have "x + unat (c_align c) \<le> 2 ^ 64"
    using aligned_below_top [OF al w(2)] w(3) sz top by simp
  moreover have "0 < unat (c_align c)" using is_power_of_two_nonzero [OF al] by (simp add: unat_gt_0)
  ultimately obtain rs where rs: "align_up (ri_start k) (c_align c) = Ok rs"
    using align_up_total [OF al, of "ri_start k"] w(1) by auto
  note up = align_up_spec [OF al rs]
  have le: "unat rs \<le> x" using up(3) [OF w(2,1)] .
  have "rs \<le> ri_end k" using le w(3) sz by (simp add: word_le_nat_alt)
  moreover have "rs = 0 \<Longrightarrow> ri_start k = 0" using up(1) by (simp add: unat_0_iff)
  ultimately have v: "valid_range (RangeInclusive rs (ri_end k))"
    using assms(1) by (auto simp: valid_range_def)
  have "unat (c_size c) \<le> unat (ri_end k) - unat rs + 1" "unat (c_size c) \<le> unat (ri_end k) - unat (ri_start k) + 1"
    using le w sz by linarith+
  then have "c_size c \<le> range_len (RangeInclusive rs (ri_end k))" "c_size c \<le> range_len k"
    using unat_range_len [OF v] unat_range_len [OF assms(1)] by (simp_all add: word_le_nat_alt)
  then have "check_constraint k Free c = Ok (RangeInclusive rs (ri_end k))"
    using assms(3) rs range_new_eq_Ok_iff [THEN iffD2, OF conjI [OF refl v]]
    by (simp add: check_constraint_def is_free_def not_less)
  then show ?thesis using le by simp
qed

lemma first_match_window:
  assumes "tree_inv t" "valid_constraint c" "c_policy c = FirstMatch" "(k, Free) \<in> entries t" "window_at c k x"
  obtains n rg where "find_candidate t c = Ok (n, rg)" "unat (ri_start rg) \<le> x"
proof -
  have win: "windowed c" using assms(3) by (simp add: windowed_def)
  have k: "valid_range k" using tree_inv_valid [OF assms(1,4)] by simp
  obtain k' where k': "check_constraint k Free c = Ok k'" "unat (ri_start k') \<le> x"
    using check_constraint_window [OF k assms(2,3,5)] by blast
  then have "fits c (k, Free)" by (simp add: fits_def)
  then obtain n rg xs ys where n: "first_match t c = Ok (n, rg)" "n \<noteq> Tip"
    "check_constraint (key n) (state n) c = Ok rg" "inorder t = xs @ (key n, state n) # ys"
    and "(k, Free) \<notin> set xs"
    using first_match_cases [OF win, of t] assms(4) by auto
  then consider "(k, Free) = (key n, state n)" | "(k, Free) \<in> set ys"
    using assms(4) by (auto simp: entries_def)
  then have "unat (ri_start rg) \<le> x"
  proof cases
    case 1
    then show ?thesis using n(3) k' by simp
  next
    case 2
    have "ri_end (key n) < ri_start k"
      using assms(1) 2 by (auto simp: tree_inv_def n(4) ordered_append_Cons)
    moreover have "ri_start rg \<le> ri_end (key n)"
      using check_constraint_Ok [OF n(3) assms(2) win] by (metis range_inclusive.sel(2) valid_range_def)
    ultimately have "unat (ri_start rg) \<le> unat (ri_start k)" by (simp add: word_le_nat_alt word_less_nat_alt)
    then show ?thesis using assms(5) by (simp add: window_at_def)
  qed
  then show thesis using that n(1) assms(3) by (simp add: find_candidate_def)
qed

lemma window_exists:
  fixes a z :: u64
  assumes "unat a + unat z < 2 ^ 64" "z \<noteq> 0"
  shows "checked_add a z = Some (a + z)" and "checked_sub (a + z) 1 = Some (a + z - 1)"
    and "range_new a (a + z - 1) = Ok (RangeInclusive a (a + z - 1))"
    and "valid_range (RangeInclusive a (a + z - 1))"
proof -
  show s: "checked_add a z = Some (a + z)" using assms(1) by (simp add: checked_add_def)
  have sz: "0 < unat z" using assms(2) by (simp add: unat_gt_0)
  have u: "unat (a + z) = unat a + unat z" using checked_add_unat [OF s] .
  then have "1 \<le> a + z" using sz by (simp add: word_le_nat_alt)
  then show e: "checked_sub (a + z) 1 = Some (a + z - 1)" by (simp add: checked_sub_def)
  have "unat (a + z - 1) = unat a + unat z - 1" using checked_sub_unat [OF e] u by simp
  moreover have "a + z - 1 \<noteq> - 1" using sz u by (auto simp: algebra_simps unat_0_iff)
  ultimately show v: "valid_range (RangeInclusive a (a + z - 1))"
    using sz by (simp add: valid_range_def word_le_nat_alt)
  then show "range_new a (a + z - 1) = Ok (RangeInclusive a (a + z - 1))"
    by (simp add: range_new_eq_Ok_iff)
qed

lemma it_allocate_first_fit:
  assumes "tree_inv t" "valid_constraint c" "c_policy c = FirstMatch" "height t \<le> 47"
    and "(k, Free) \<in> entries t" "window_at c k x" "x + unat (c_size c) < 2 ^ 64"
  shows "\<exists>r t'. it_allocate c t = (Ok r, t') \<and> unat (ri_start r) \<le> x"
proof -
  obtain n rg where n: "find_candidate t c = Ok (n, rg)" "unat (ri_start rg) \<le> x"
    by (rule first_match_window [OF assms(1,2,3,5,6)])
  have win: "windowed c" using assms(3) by (simp add: windowed_def)
  have sz: "c_size c \<noteq> 0" using assms(2) by (simp add: valid_constraint_def)
  note cand = find_candidate_windowed [OF n(1) win]
  note ok = check_constraint_Ok [OF conjunct2 [OF conjunct2 [OF cand]] assms(2) win]
  have ent: "(key n, Free) \<in> entries t" using cand ok by simp
  have lt: "unat (ri_start rg) + unat (c_size c) < 2 ^ 64" using n(2) assms(7) by simp
  note ex = window_exists [OF lt sz]
  let ?res = "RangeInclusive (ri_start rg) (ri_start rg + c_size c - 1)"
  have w: "contains rg ?res" using ok sz by (intro window_in_node [OF _ _ _ ex(1,2,3), THEN conjunct1]) auto
  have "ri_end rg = ri_end (key n)" using ok by (metis range_inclusive.sel(2))
  then have c: "contains (key n) ?res" using w ok by (auto simp: contains_def)
  have t: "t \<noteq> Tip" using ent by auto
  show ?thesis
  proof (cases "ri_start (key n) = ri_start ?res \<and> range_len (key n) = c_size c")
    case True
    obtain t' where "it_mark_as_allocated (key n) t = (Ok (), t')" by (rule it_mark_Free [OF assms(1) ent])
    then have "it_allocate c t = (Ok (key n), t')"
      using True t n(1) ex by (simp add: it_allocate_def abind_def alift_def)
    then show ?thesis using True n(2) by auto
  next
    case False
    obtain t' where "split_node (key n) ?res t = (Ok ?res, t')"
      using split_node_succeeds [OF assms(1) ent ex(4) c assms(4)] by blast
    then have "it_allocate c t = (Ok ?res, t')"
      using False t n(1) ex by (auto simp: it_allocate_def abind_def alift_def)
    then show ?thesis using n(2) by auto
  qed
qed

subsection \<open>What freeing does to the address space\<close>

definition meets_left :: "inner_tree \<Rightarrow> range_inclusive \<Rightarrow> range_inclusive \<Rightarrow> bool" where
  "meets_left t k r \<longleftrightarrow> r = k \<or> (\<exists>q. (q, Free) \<in> entries t \<and> r = RangeInclusive (ri_start q) (ri_end k) \<and>
     ri_start k \<noteq> 0 \<and> ri_start k - 1 \<in> range_set q)"

definition meets_right :: "inner_tree \<Rightarrow> range_inclusive \<Rightarrow> range_inclusive \<Rightarrow> bool" where
  "meets_right t k r \<longleftrightarrow> r = k \<or> (\<exists>q. (q, Free) \<in> entries t \<and> r = RangeInclusive (ri_start k) (ri_end q) \<and>
     ri_end k \<noteq> - 1 \<and> ri_end k + 1 \<in> range_set q)"

lemma it_search_superset_Some:
  assumes "it_search_superset t p = Some n"
  shows "(key n, state n) \<in> entries t \<and> contains (key n) p"
  using assms search_superset_Some [of t p n] by (auto simp: it_search_superset_def split: inner_tree.splits)

lemma merge_left_meets:
  assumes "merge_left t k = Ok r"
  shows "meets_left t k r"
proof (cases "0 < ri_start k")
  case True
  then obtain a b p where p: "checked_sub (ri_start k) 2 = Some a" "checked_sub (ri_start k) 1 = Some b"
    "range_new a b = Ok p" and m: "(case it_search_superset t p of
       Some node \<Rightarrow> if state node = Free then range_new (ri_start (key node)) (ri_end k) else Ok k
     | None \<Rightarrow> Ok k) = Ok r"
    using assms by (auto simp: merge_left_def rbind_eq_Ok_iff ok_or_eq_Ok_iff)
  have b: "ri_start k \<noteq> 0" "ri_end p = ri_start k - 1" "ri_start p \<le> ri_end p"
    using True p by (auto simp: checked_sub_Some_iff range_new_eq_Ok_iff valid_range_def)
  from m show ?thesis
  proof (cases "it_search_superset t p")
    case (Some n)
    have "ri_end p \<in> range_set (key n)"
      using it_search_superset_Some [OF Some] b(3) by (auto simp: contains_def range_set_def)
    then show ?thesis
      using m Some it_search_superset_Some [OF Some] b
      by (auto simp: meets_left_def range_new_eq_Ok_iff split: if_splits)
  qed (simp add: meets_left_def)
next
  case False
  then show ?thesis using assms by (simp add: merge_left_def meets_left_def)
qed

lemma merge_right_meets:
  assumes "merge_right t k = Ok r"
  shows "meets_right t k r"
proof (cases "ri_end k < - 1")
  case True
  then obtain a b p where p: "checked_add (ri_end k) 1 = Some a" "checked_add (ri_end k) 2 = Some b"
    "range_new a b = Ok p" and m: "(case it_search_superset t p of
       Some node \<Rightarrow> if state node = Free then range_new (ri_start k) (ri_end (key node)) else Ok k
     | None \<Rightarrow> Ok k) = Ok r"
    using assms by (auto simp: merge_right_def rbind_eq_Ok_iff ok_or_eq_Ok_iff)
  have b: "ri_end k \<noteq> - 1" "ri_start p = ri_end k + 1" "ri_start p \<le> ri_end p"
    using True p by (auto simp: checked_add_Some_iff range_new_eq_Ok_iff valid_range_def)
  from m show ?thesis
  proof (cases "it_search_superset t p")
    case (Some n)
    have "ri_start p \<in> range_set (key n)"
      using it_search_superset_Some [OF Some] b(3) by (auto simp: contains_def range_set_def)
    then show ?thesis
      using m Some it_search_superset_Some [OF Some] b
      by (auto simp: meets_right_def range_new_eq_Ok_iff split: if_splits)
  qed (simp add: meets_right_def)
next
  case False
  then show ?thesis using assms by (simp add: merge_right_def meets_right_def)
qed

text \<open>The node \<open>free\<close> deletes on one side is exactly the node its probe found there.\<close>

lemma absorb_key:
  assumes "tree_inv t" "(q, Free) \<in> entries t" "x \<in> range_set q" "x \<in> range_set p"
    and "it_delete p t = (Ok u, t')"
  shows "p = q"
proof -
  have "t \<noteq> Tip" using assms(2) by auto
  then obtain s where s: "(p, s) \<in> entries t"
    using it_delete_Ok [of p t t'] assms(1,5) by auto
  show ?thesis using entries_meet [OF assms(1) s assms(2), of x] assms(3,4) by simp
qed

lemma absorb_left_addrs:
  assumes "absorb_left k r t = (Ok u, t')" "tree_inv t"
    and "ri_start r = ri_start k \<or> (\<exists>q. (q, Free) \<in> entries t \<and> ri_start r = ri_start q \<and>
       ri_start k \<noteq> 0 \<and> ri_start k - 1 \<in> range_set q)"
  shows "tree_inv t'" and "addrs Free t' = addrs Free t - {ri_start r..<ri_start k}"
    and "addrs Allocated t' = addrs Allocated t" and "{ri_start r..<ri_start k} \<subseteq> addrs Free t"
    and "\<And>e. e \<in> entries t \<Longrightarrow> ri_start k \<le> ri_end (fst e) \<Longrightarrow> e \<in> entries t'"
    and "ri_start r \<le> ri_start k"
proof -
  have "tree_inv t' \<and> addrs Free t' = addrs Free t - {ri_start r..<ri_start k} \<and>
    addrs Allocated t' = addrs Allocated t \<and> {ri_start r..<ri_start k} \<subseteq> addrs Free t \<and>
    (\<forall>e. e \<in> entries t \<longrightarrow> ri_start k \<le> ri_end (fst e) \<longrightarrow> e \<in> entries t') \<and> ri_start r \<le> ri_start k"
  proof (cases "ri_start r < ri_start k")
    case True
    with assms(3) obtain q where q: "(q, Free) \<in> entries t" "ri_start r = ri_start q"
      "ri_start k \<noteq> 0" "ri_start k - 1 \<in> range_set q" by auto
    from assms(1) True obtain p where p: "range_new (ri_start q) (ri_start k - 1) = Ok p"
      "it_delete p t = (Ok u, t')"
      by (auto simp: absorb_left_def q(2) abind_eq_Ok_iff rbind_eq_Ok_iff ok_or_eq_Ok_iff
          checked_sub_Some_iff alift_def)
    have rp: "range_set p = {ri_start r..<ri_start k}"
      using p(1) q(2) atMost_pred [OF q(3)] by (auto simp: range_new_eq_Ok_iff range_set_def)
    have "p = q"
      using q(4) p(1) by (intro absorb_key [OF assms(2) q(1,4) _ p(2)])
        (auto simp: range_new_eq_Ok_iff range_set_def)
    then have e: "(p, Free) \<in> entries t" using q(1) by simp
    have "fst e \<noteq> p" if "ri_start k \<le> ri_end (fst e)" for e :: entry
      using that p(1) word_le_pred_iff [OF q(3)] by (force simp: range_new_eq_Ok_iff)
    then show ?thesis
      using it_delete_addrs(1) [OF p(2) assms(2) e] it_delete_addrs(2) [OF p(2) assms(2) e]
        it_delete_Ok [of p t t'] p(2) assms(2) range_set_addrs [OF e] rp True by auto
  next
    case False
    then have "ri_start r = ri_start k"
    proof -
      have "ri_start q \<le> ri_start k - 1 \<Longrightarrow> ri_start k \<noteq> 0 \<Longrightarrow> ri_start q < ri_start k" for q
        by (simp add: word_le_pred_iff)
      then show ?thesis using False assms(3) by (auto simp: range_set_def)
    qed
    with False assms(1,2) show ?thesis by (auto simp: absorb_left_def alift_def)
  qed
  then show "tree_inv t'" and "addrs Free t' = addrs Free t - {ri_start r..<ri_start k}"
    and "addrs Allocated t' = addrs Allocated t" and "{ri_start r..<ri_start k} \<subseteq> addrs Free t"
    and "\<And>e. e \<in> entries t \<Longrightarrow> ri_start k \<le> ri_end (fst e) \<Longrightarrow> e \<in> entries t'"
    and "ri_start r \<le> ri_start k" by blast+
qed

lemma absorb_right_addrs:
  assumes "absorb_right k r t = (Ok u, t')" "tree_inv t"
    and "ri_end r = ri_end k \<or> (\<exists>q. (q, Free) \<in> entries t \<and> ri_end r = ri_end q \<and>
       ri_end k \<noteq> - 1 \<and> ri_end k + 1 \<in> range_set q)"
  shows "tree_inv t'" and "addrs Free t' = addrs Free t - {ri_end k<..ri_end r}"
    and "addrs Allocated t' = addrs Allocated t" and "{ri_end k<..ri_end r} \<subseteq> addrs Free t"
    and "ri_end k \<le> ri_end r"
proof -
  have "tree_inv t' \<and> addrs Free t' = addrs Free t - {ri_end k<..ri_end r} \<and>
    addrs Allocated t' = addrs Allocated t \<and> {ri_end k<..ri_end r} \<subseteq> addrs Free t \<and> ri_end k \<le> ri_end r"
  proof (cases "ri_end k < ri_end r")
    case True
    with assms(3) obtain q where q: "(q, Free) \<in> entries t" "ri_end r = ri_end q"
      "ri_end k \<noteq> - 1" "ri_end k + 1 \<in> range_set q" by auto
    from assms(1) True obtain p where p: "range_new (ri_end k + 1) (ri_end q) = Ok p"
      "it_delete p t = (Ok u, t')"
      by (auto simp: absorb_right_def q(2) abind_eq_Ok_iff rbind_eq_Ok_iff ok_or_eq_Ok_iff
          checked_add_Some_iff alift_def)
    have rp: "range_set p = {ri_end k<..ri_end r}"
      using p(1) q(2) atLeast_succ [OF q(3)] by (auto simp: range_new_eq_Ok_iff range_set_def)
    have "p = q"
      using q(4) p(1) by (intro absorb_key [OF assms(2) q(1,4) _ p(2)])
        (auto simp: range_new_eq_Ok_iff range_set_def)
    then have e: "(p, Free) \<in> entries t" using q(1) by simp
    then show ?thesis
      using it_delete_addrs(1) [OF p(2) assms(2) e] it_delete_addrs(2) [OF p(2) assms(2) e]
        range_set_addrs [OF e] rp True by auto
  next
    case False
    then have "ri_end r = ri_end k"
    proof -
      have "ri_end k + 1 \<le> ri_end q \<Longrightarrow> ri_end k \<noteq> - 1 \<Longrightarrow> ri_end k < ri_end q" for q
        by (simp add: word_succ_le_iff)
      then show ?thesis using False assms(3) by (auto simp: range_set_def)
    qed
    with False assms(1,2) show ?thesis by (auto simp: absorb_right_def alift_def)
  qed
  then show "tree_inv t'" and "addrs Free t' = addrs Free t - {ri_end k<..ri_end r}"
    and "addrs Allocated t' = addrs Allocated t" and "{ri_end k<..ri_end r} \<subseteq> addrs Free t"
    and "ri_end k \<le> ri_end r" by blast+
qed

lemma it_free_sound:
  assumes "it_free k t = (Ok u, t')" "tree_inv t" "(k, s) \<in> entries t"
  shows "addrs Free t' = addrs Free t \<union> range_set k"
    and "addrs Allocated t' = addrs Allocated t - range_set k"
proof -
  have k: "valid_range k" using tree_inv_valid [OF assms(2,3)] by simp
  from assms(1) obtain t1 rl rng t2 t3 u1 u2 u3 where t1: "it_delete k t = (Ok u1, t1)"
    and rl: "merge_left t1 k = Ok rl" and rng: "merge_right t1 rl = Ok rng"
    and t2: "absorb_left k rng t1 = (Ok u2, t2)" and t3: "absorb_right k rng t2 = (Ok u3, t3)"
    and t': "it_insert rng Free t3 = (Ok u, t')"
    by (auto simp: it_free_def abind_eq_Ok_iff alift_def rbind_eq_Ok_iff)
  note d = it_delete_addrs [OF t1 assms(2,3)]
  have ml: "meets_left t1 k rl" and mr: "meets_right t1 rl rng"
    using merge_left_meets [OF rl] merge_right_meets [OF rng] by auto
  have ends: "ri_start rng = ri_start rl" "ri_end rl = ri_end k"
    using ml mr by (auto simp: meets_left_def meets_right_def)
  have sl: "ri_start rng = ri_start k \<or> (\<exists>q. (q, Free) \<in> entries t1 \<and> ri_start rng = ri_start q \<and>
       ri_start k \<noteq> 0 \<and> ri_start k - 1 \<in> range_set q)"
    using ml ends by (auto simp: meets_left_def)
  note L = absorb_left_addrs [OF t2 d(1) sl]
  have sr: "ri_end rng = ri_end k \<or> (\<exists>q. (q, Free) \<in> entries t2 \<and> ri_end rng = ri_end q \<and>
       ri_end k \<noteq> - 1 \<and> ri_end k + 1 \<in> range_set q)"
  proof (cases "rng = rl")
    case False
    then obtain q where q: "(q, Free) \<in> entries t1" "ri_end rng = ri_end q" "ri_end k \<noteq> - 1"
      "ri_end k + 1 \<in> range_set q"
      using mr ends by (auto simp: meets_right_def)
    then have "ri_end k < ri_end q"
      using word_succ_le_iff [of "ri_end k" "ri_end q"] by (simp add: range_set_def)
    then have "(q, Free) \<in> entries t2"
      using L(5) [OF q(1)] valid_range_le [OF k] by simp
    with q show ?thesis by blast
  qed (use ends in simp)
  note R = absorb_right_addrs [OF t3 L(1) sr]
  have c: "contains rng k" using L(6) R(5) by (simp add: contains_def)
  note I = it_insert_addrs [OF t' R(1) valid_merge_right [OF rng valid_merge_left [OF rl k]]]
  have split: "range_set rng = {ri_start rng..<ri_start k} \<union> range_set k \<union> {ri_end k<..ri_end rng}"
    by (rule range_set_split [OF c k])
  have "addrs Free t' = addrs Free t1 \<union> range_set k"
    using I(2) [of Free] split L(2,4) R(2,4) by auto
  then show "addrs Free t' = addrs Free t \<union> range_set k"
    using d(2) [of Free] range_set_addrs [OF assms(3)] by (cases s) auto
  have "addrs Allocated t' = addrs Allocated t1"
    using I(2) [of Allocated] L(3) R(3) by simp
  then show "addrs Allocated t' = addrs Allocated t - range_set k"
    using d(2) [of Allocated] range_set_addrs [OF assms(3)] addrs_disjoint [OF assms(2)]
    by (cases s) auto
qed

subsection \<open>Free space never grows behind the client's back\<close>

definition within :: "u64 set \<Rightarrow> inner_tree \<Rightarrow> bool" where
  "within F t \<longleftrightarrow> tree_inv t \<and> addrs Free t \<subseteq> F"

lemma within_Tip [simp]: "within F Tip"
  by (simp add: within_def addrs_def covered_def)

lemma keeps_within_insert:
  assumes "valid_range q" "s = Free \<Longrightarrow> range_set q \<subseteq> F"
  shows "keeps (within F) (it_insert q s)"
proof (rule keepsI)
  fix t assume w: "within F t"
  then have inv: "tree_inv t" by (simp add: within_def)
  from it_insert_cases [OF inv assms(1), of s]
  show "within F (snd (it_insert q s t)) \<and> fst (it_insert q s t) \<noteq> Panic"
  proof (elim disjE exE conjE)
    fix t' assume "it_insert q s t = (Ok (), t')" "tree_inv t'" "entries t' = Set.insert (q, s) (entries t)"
    then show ?thesis using w assms(2) addrs_insert [of t' q s t Free] by (auto simp: within_def)
  qed simp_all
qed

lemma keeps_within_delete: "keeps (within F) (it_delete q)"
proof (rule keepsI)
  fix t assume w: "within F t"
  then have inv: "tree_inv t" by (simp add: within_def)
  have "addrs Free t' \<subseteq> addrs Free t" if "entries t' = {e \<in> entries t. fst e \<noteq> q}" for t'
    using that by (auto simp: addrs_def covered_def)
  with it_delete_cases [OF inv, of q] w
  show "within F (snd (it_delete q t)) \<and> fst (it_delete q t) \<noteq> Panic"
    by (elim disjE exE conjE) (auto simp: within_def)
qed

lemma keeps_within_mark: "keeps (within F) (it_mark_as_allocated q)"
proof (rule keepsI)
  fix t assume w: "within F t"
  then have inv: "tree_inv t" by (simp add: within_def)
  show "within F (snd (it_mark_as_allocated q t)) \<and> fst (it_mark_as_allocated q t) \<noteq> Panic"
  proof (cases "mark_as_allocated t q")
    case (Ok t')
    obtain t'' where "it_mark_as_allocated q t = (Ok (), t'')" "tree_inv t''"
      "entries t'' = Set.insert (q, Allocated) {e \<in> entries t. fst e \<noteq> q}"
      by (rule it_mark_Free [OF inv mark_as_allocated_Ok_Free [OF Ok]])
    then show ?thesis using w by (auto simp: within_def addrs_def covered_def)
  qed (use w mark_as_allocated_not_Panic [of t q] in \<open>auto simp: it_mark_as_allocated_def\<close>)
qed

lemma keeps_within_split:
  assumes "valid_range res" "contains k res" "range_set k \<subseteq> F"
  shows "keeps (within F) (split_node k res)"
proof -
  have sp: "{ri_start k..<ri_start res} \<subseteq> F" "{ri_end res<..ri_end k} \<subseteq> F"
    using range_set_split [OF assms(2,1)] assms(3) by auto
  have "keeps (within F) (free_before k res)"
  proof (cases "ri_start res > ri_start k")
    case True
    then have nz: "ri_start res \<noteq> 0" by (auto simp: word_less_nat_alt)
    show ?thesis unfolding free_before_def
      using sp(1) True by (auto intro!: keeps_abind_alift keeps_within_insert
          simp: rbind_eq_Panic_iff rbind_eq_Ok_iff ok_or_eq_Ok_iff checked_sub_Some_iff
            range_new_eq_Ok_iff range_set_def atMost_pred [OF nz])
  qed (auto simp: free_before_def)
  moreover have "keeps (within F) (free_after k res)"
  proof (cases "ri_end res < ri_end k")
    case True
    then have nm: "ri_end res \<noteq> - 1" by auto
    show ?thesis unfolding free_after_def
      using sp(2) True by (auto intro!: keeps_abind_alift keeps_within_insert
          simp: rbind_eq_Panic_iff rbind_eq_Ok_iff ok_or_eq_Ok_iff checked_add_Some_iff
            range_new_eq_Ok_iff range_set_def atLeast_succ [OF nm])
  qed (auto simp: free_after_def)
  ultimately show ?thesis
    unfolding split_node_def using assms(1)
    by (intro keeps_abind keeps_within_delete keeps_within_insert keeps_alift) simp_all
qed

lemma within_it_allocate:
  assumes "within F t" "windowed c" "valid_constraint c"
  shows "within F (snd (it_allocate c t))"
proof (cases "t = Tip")
  case True
  then show ?thesis by (simp add: it_allocate_def)
next
  case False
  have mark: "keeps (within F) (abind (it_mark_as_allocated k) (\<lambda>_. alift (Ok k)))" for k
    by (intro keeps_abind keeps_within_mark keeps_alift) simp
  have split: "keeps (within F) (split_node (key n) res)"
    if "find_candidate t c = Ok (n, rg)" "checked_add (ri_start rg) (c_size c) = Some a"
      "checked_sub a 1 = Some e" "range_new (ri_start rg) e = Ok res" for n rg a e res
  proof -
    note cand = find_candidate_windowed [OF that(1) assms(2)]
    note ok = check_constraint_Ok [OF conjunct2 [OF conjunct2 [OF cand]] assms(3,2)]
    have win: "contains rg res \<and> range_len res = c_size c \<and> ri_start res = ri_start rg \<and> valid_range res"
      using ok assms(3) by (intro window_in_node [OF _ _ _ that(2-4)]) (auto simp: valid_constraint_def)
    have "ri_end rg = ri_end (key n)" using ok by (metis range_inclusive.sel(2))
    then have "contains (key n) res" using ok win by (auto simp: contains_def)
    moreover have "range_set (key n) \<subseteq> F"
      using cand ok range_set_addrs [of "key n" Free t] assms(1) by (auto simp: within_def)
    ultimately show ?thesis using win by (intro keeps_within_split) auto
  qed
  have "keeps (within F) (abind (alift (find_candidate t c)) (\<lambda>(node, range).
        abind (alift
          (rbind (rbind (ok_or (checked_add (ri_start range) (c_size c)) Overflow)
                    (\<lambda>addr. ok_or (checked_sub addr 1) Underflow))
             (\<lambda>e. range_new (ri_start range) e))) (\<lambda>res.
        if ri_start (key node) = ri_start res \<and> range_len (key node) = c_size c then
          abind (it_mark_as_allocated (key node)) (\<lambda>_. alift (Ok (key node)))
        else split_node (key node) res)))"
    by (auto simp: find_candidate_not_Panic rbind_eq_Panic_iff rbind_eq_Ok_iff ok_or_eq_Ok_iff
        intro!: keeps_abind_alift mark split)
  from keepsD [OF this assms(1)] show ?thesis using False by (simp add: it_allocate_def)
qed

lemma meets_left_subset: "meets_left t k r \<Longrightarrow> range_set r \<subseteq> addrs Free t \<union> range_set k"
proof (cases "r = k")
  case False
  assume "meets_left t k r"
  with False obtain q where q: "(q, Free) \<in> entries t" "r = RangeInclusive (ri_start q) (ri_end k)"
    "ri_start k \<noteq> 0" "ri_start k - 1 \<in> range_set q" by (auto simp: meets_left_def)
  have "x \<in> range_set q \<or> x \<in> range_set k" if "x \<in> range_set r" for x
    using that q(2,4) word_le_pred_iff [OF q(3), of x] by (force simp: range_set_def)
  then show ?thesis using range_set_addrs [OF q(1)] by blast
qed simp

lemma meets_right_subset: "meets_right t k r \<Longrightarrow> range_set r \<subseteq> addrs Free t \<union> range_set k"
proof (cases "r = k")
  case False
  assume "meets_right t k r"
  with False obtain q where q: "(q, Free) \<in> entries t" "r = RangeInclusive (ri_start k) (ri_end q)"
    "ri_end k \<noteq> - 1" "ri_end k + 1 \<in> range_set q" by (auto simp: meets_right_def)
  have "x \<in> range_set q \<or> x \<in> range_set k" if "x \<in> range_set r" for x
    using that q(2,4) word_succ_le_iff [OF q(3), of x] by (force simp: range_set_def)
  then show ?thesis using range_set_addrs [OF q(1)] by blast
qed simp

lemma within_it_free:
  assumes "tree_inv t" "valid_range k"
  shows "within (addrs Free t \<union> range_set k) (snd (it_free k t))"
proof -
  let ?F = "addrs Free t \<union> range_set k"
  have del: "keeps (within ?F) (if b then abind (alift r) it_delete else alift (Ok ()))"
    if "r \<noteq> Panic" for b and r :: "(range_inclusive, alloc_error) result"
    using that by (cases b) (auto intro!: keeps_within_delete)
  have tail: "keeps (within ?F) (\<lambda>t. abind (alift (rbind (merge_left t k) (merge_right t))) (\<lambda>rng.
     abind (absorb_left k rng) (\<lambda>_. abind (absorb_right k rng) (\<lambda>_. it_insert rng Free))) t)"
  proof (rule keepsI)
    fix t1 assume w: "within ?F t1"
    have rng: "range_set rng \<subseteq> ?F \<and> valid_range rng" if "rbind (merge_left t1 k) (merge_right t1) = Ok rng" for rng
    proof -
      from that obtain rl where rl: "merge_left t1 k = Ok rl" "merge_right t1 rl = Ok rng"
        by (auto simp: rbind_eq_Ok_iff)
      have "range_set rng \<subseteq> ?F"
        using meets_left_subset [OF merge_left_meets [OF rl(1)]]
          meets_right_subset [OF merge_right_meets [OF rl(2)]] w by (auto simp: within_def)
      then show ?thesis using valid_merge_right [OF rl(2) valid_merge_left [OF rl(1) assms(2)]] by simp
    qed
    have "keeps (within ?F) (abind (alift (rbind (merge_left t1 k) (merge_right t1))) (\<lambda>rng.
     abind (absorb_left k rng) (\<lambda>_. abind (absorb_right k rng) (\<lambda>_. it_insert rng Free))))"
      unfolding absorb_left_def absorb_right_def using rng
      by (intro keeps_abind_alift keeps_abind del keeps_within_insert checked_range_not_Panic)
        (auto simp: rbind_eq_Panic_iff merge_not_Panic)
    from keepsD [OF this w] show "within ?F (snd (abind (alift (rbind (merge_left t1 k) (merge_right t1))) (\<lambda>rng.
     abind (absorb_left k rng) (\<lambda>_. abind (absorb_right k rng) (\<lambda>_. it_insert rng Free))) t1)) \<and>
      fst (abind (alift (rbind (merge_left t1 k) (merge_right t1))) (\<lambda>rng.
     abind (absorb_left k rng) (\<lambda>_. abind (absorb_right k rng) (\<lambda>_. it_insert rng Free))) t1) \<noteq> Panic" .
  qed
  have "within ?F t" using assms(1) by (simp add: within_def)
  with keepsD [OF keeps_abind [OF keeps_within_delete tail]] show ?thesis
    unfolding it_free_def by blast
qed

end
