(* ===== verification/AddressAllocator.thy ===== *)
theory AddressAllocator
  imports AllocEngine
begin

section \<open>vm-allocator: the address allocator and its clients\<close>

text \<open>
  \<open>vm-allocator/src/address_allocator.rs\<close>: the allocator that owns an interval tree, the
  contract it offers as a locale (free space is only ever handed out once), and what a client
  that allocates and frees in any order may rely on.
\<close>

subsection \<open>The address allocator\<close>

record address_allocator =
  address_space :: range_inclusive
  interval_tree :: inner_tree

definition address_allocator_new :: "u64 \<Rightarrow> u64 \<Rightarrow> (address_allocator, alloc_error) result" where
  "address_allocator_new base sz =
     rbind (ok_or (checked_sub sz 1) Underflow) (\<lambda>len.
     rbind (ok_or (checked_add base len) Overflow) (\<lambda>e.
     rbind (range_new base e) (\<lambda>aux_range.
       Ok \<lparr>address_space = aux_range, interval_tree = it_new aux_range\<rparr>)))"

definition on_tree ::
  "(inner_tree, 'a, alloc_error) act \<Rightarrow> (address_allocator, 'a, alloc_error) act" where
  "on_tree m a = (case m (interval_tree a) of (r, t) \<Rightarrow> (r, a\<lparr>interval_tree := t\<rparr>))"

definition allocate ::
  "u64 \<Rightarrow> u64 \<Rightarrow> alloc_policy \<Rightarrow> (address_allocator, range_inclusive, alloc_error) act" where
  "allocate sz alignment policy =
     abind (alift (constraint_new sz alignment policy)) (\<lambda>c. on_tree (it_allocate c))"

definition free :: "range_inclusive \<Rightarrow> (address_allocator, unit, alloc_error) act" where
  "free k = on_tree (it_free k)"

definition aa_base :: "address_allocator \<Rightarrow> u64" where
  "aa_base a = ri_start (address_space a)"

definition aa_end :: "address_allocator \<Rightarrow> u64" where
  "aa_end a = ri_end (address_space a)"

subsection \<open>A client that allocates and frees\<close>

datatype 'q client_op = Request 'q | Release range_inclusive

fun client_step ::
  "('q \<Rightarrow> ('s, range_inclusive, 'e) act) \<Rightarrow> (range_inclusive \<Rightarrow> ('s, unit, 'e) act) \<Rightarrow>
   'q client_op \<Rightarrow> 's \<times> range_inclusive list \<Rightarrow> 's \<times> range_inclusive list" where
  "client_step req rel (Request q) (s, live) =
     (case req q s of (Ok r, s') \<Rightarrow> (s', r # live) | (_, s') \<Rightarrow> (s', live))"
| "client_step req rel (Release r) (s, live) =
     (if r \<in> set live then (snd (rel r s), remove1 r live) else (s, live))"

fun client_run ::
  "('q \<Rightarrow> ('s, range_inclusive, 'e) act) \<Rightarrow> (range_inclusive \<Rightarrow> ('s, unit, 'e) act) \<Rightarrow>
   'q client_op list \<Rightarrow> 's \<times> range_inclusive list \<Rightarrow> 's \<times> range_inclusive list" where
  "client_run req rel [] st = st"
| "client_run req rel (x # xs) st = client_run req rel xs (client_step req rel x st)"

type_synonym alloc_request = "u64 \<times> u64 \<times> alloc_policy"

definition request :: "alloc_request \<Rightarrow> (address_allocator, range_inclusive, alloc_error) act" where
  "request q = (case q of (sz, alignment, policy) \<Rightarrow> allocate sz alignment policy)"

definition windowed_request :: "alloc_request \<Rightarrow> bool" where
  "windowed_request q = (case q of (_, _, policy) \<Rightarrow> policy = FirstMatch \<or> policy = LastMatch)"

subsection \<open>The contract, and what follows from it\<close>

locale range_allocator =
  fixes inv :: "'s \<Rightarrow> bool"
    and free_space :: "'s \<Rightarrow> u64 set"
    and req :: "'q \<Rightarrow> ('s, range_inclusive, 'e) act"
    and rel :: "range_inclusive \<Rightarrow> ('s, unit, 'e) act"
    and wf_req :: "'q \<Rightarrow> bool"
  assumes req_inv: "inv s \<Longrightarrow> inv (snd (req q s))"
    and rel_inv: "inv s \<Longrightarrow> valid_range r \<Longrightarrow> inv (snd (rel r s))"
    and req_shrinks: "inv s \<Longrightarrow> wf_req q \<Longrightarrow> free_space (snd (req q s)) \<subseteq> free_space s"
    and req_fresh: "inv s \<Longrightarrow> wf_req q \<Longrightarrow> req q s = (Ok r, s') \<Longrightarrow>
      valid_range r \<and> range_set r \<subseteq> free_space s \<and> free_space s' \<inter> range_set r = {}"
    and rel_returns: "inv s \<Longrightarrow> valid_range r \<Longrightarrow> free_space (snd (rel r s)) \<subseteq> free_space s \<union> range_set r"
begin

definition safe :: "u64 set \<Rightarrow> 's \<times> range_inclusive list \<Rightarrow> bool" where
  "safe A st = (case st of (s, live) \<Rightarrow>
     inv s \<and> free_space s \<subseteq> A \<and> (\<forall>r \<in> set live. valid_range r \<and> range_set r \<subseteq> A \<and> range_set r \<inter> free_space s = {}) \<and>
     sorted_wrt (\<lambda>r q. range_set r \<inter> range_set q = {}) live)"

lemma sorted_wrt_remove1: "sorted_wrt P xs \<Longrightarrow> sorted_wrt P (remove1 x xs)"
  by (induction xs) (auto dest: notin_set_remove1)

lemma remove1_apart:
  assumes "sorted_wrt (\<lambda>r q. range_set r \<inter> range_set q = {}) live" "r \<in> set live" "q \<in> set (remove1 r live)"
  shows "range_set q \<inter> range_set r = {}"
  using assms by (induction live) (auto split: if_splits)

lemma client_step_safe:
  assumes "safe A st" "\<And>q. x = Request q \<Longrightarrow> wf_req q"
  shows "safe A (client_step req rel x st)"
proof (cases st)
  case (Pair s live)
  have st: "inv s" "free_space s \<subseteq> A" "sorted_wrt (\<lambda>r q. range_set r \<inter> range_set q = {}) live"
    "\<forall>r \<in> set live. valid_range r \<and> range_set r \<subseteq> A \<and> range_set r \<inter> free_space s = {}"
    using assms(1) Pair by (auto simp: safe_def)
  show ?thesis
  proof (cases x)
    case (Request q)
    note shr = req_inv [OF st(1), of q] req_shrinks [OF st(1) assms(2) [OF Request]]
    show ?thesis
    proof (cases "req q s")
      case req: (Pair y s')
      have keep: "safe A (s', live)" using st shr req by (auto simp: safe_def) blast+
      show ?thesis
      proof (cases y)
        case (Ok r)
        then have fr: "valid_range r \<and> range_set r \<subseteq> free_space s \<and> free_space s' \<inter> range_set r = {}"
          using req_fresh [OF st(1) assms(2) [OF Request]] req by simp
        then have "safe A (s', r # live)"
          using st shr req by (auto simp: safe_def) blast+
        then show ?thesis using Pair Request req Ok by simp
      qed (use keep Pair Request req in simp_all)
    qed
  next
    case (Release r)
    show ?thesis
    proof (cases "r \<in> set live")
      case True
      then have r: "valid_range r" "range_set r \<subseteq> A" using st(4) by auto
      have "range_set q \<inter> free_space (snd (rel r s)) = {}" if "q \<in> set (remove1 r live)" for q
        using remove1_apart [OF st(3) True that] rel_returns [OF st(1) r(1)] st(4)
          notin_set_remove1 that by fastforce
      moreover have "free_space (snd (rel r s)) \<subseteq> A" using rel_returns [OF st(1) r(1)] st(2) r(2) by blast
      moreover have "set (remove1 r live) \<subseteq> set live" by (rule set_remove1_subset)
      ultimately have "safe A (snd (rel r s), remove1 r live)"
        using st rel_inv [OF st(1) r(1)] sorted_wrt_remove1 [OF st(3), of r] by (auto simp: safe_def)
      then show ?thesis using Pair Release True by simp
    qed (use assms(1) Pair Release in simp)
  qed
qed

lemma client_run_safe:
  assumes "safe A st" "\<And>q. Request q \<in> set ops \<Longrightarrow> wf_req q"
  shows "safe A (client_run req rel ops st)"
  using assms
proof (induction ops arbitrary: st)
  case (Cons x xs)
  then show ?case using client_step_safe [OF Cons.prems(1), of x] by (simp add: Cons.IH)
qed simp

end

subsection \<open>The address allocator meets the contract\<close>

definition aa_inv :: "address_allocator \<Rightarrow> bool" where
  "aa_inv a \<longleftrightarrow> tree_inv (interval_tree a)"

definition aa_free :: "address_allocator \<Rightarrow> u64 set" where
  "aa_free a = addrs Free (interval_tree a)"

definition aa_allocated :: "address_allocator \<Rightarrow> u64 set" where
  "aa_allocated a = addrs Allocated (interval_tree a)"

lemma on_tree_eq: "on_tree m a = (fst (m (interval_tree a)), a\<lparr>interval_tree := snd (m (interval_tree a))\<rparr>)"
  by (simp add: on_tree_def split: prod.splits)

lemma on_tree_Ok_iff:
  "on_tree m a = (Ok x, a') \<longleftrightarrow> (\<exists>t'. m (interval_tree a) = (Ok x, t') \<and> a' = a\<lparr>interval_tree := t'\<rparr>)"
  by (cases "m (interval_tree a)") (auto simp: on_tree_def)

lemma keeps_on_tree: "keeps tree_inv m \<Longrightarrow> keeps aa_inv (on_tree m)"
  by (rule keepsI) (use keepsD in \<open>fastforce simp: on_tree_eq aa_inv_def\<close>)

lemma keeps_allocate: "keeps aa_inv (allocate sz alignment policy)"
  unfolding allocate_def by (intro keeps_abind_alift keeps_on_tree keeps_it_allocate) simp

lemma keeps_free: "valid_range k \<Longrightarrow> keeps aa_inv (free k)"
  unfolding free_def by (intro keeps_on_tree keeps_it_free)

lemma allocate_cases:
  obtains e where "constraint_new sz alignment policy = Err e" "allocate sz alignment policy a = (Err e, a)"
  | c where "constraint_new sz alignment policy = Ok c" "valid_constraint c"
      "c = \<lparr>c_size = sz, c_align = alignment, c_policy = policy\<rparr>"
      "allocate sz alignment policy a = on_tree (it_allocate c) a"
  using constraint_new_not_Panic [of sz alignment policy]
  by (cases "constraint_new sz alignment policy") (auto simp: allocate_def constraint_new_eq_Ok_iff)

lemma allocate_sound:
  assumes "aa_inv a" "policy = FirstMatch \<or> policy = LastMatch" "allocate sz alignment policy a = (Ok r, a')"
  shows "valid_range r" "range_set r \<subseteq> aa_free a" "range_len r = sz" "unat alignment dvd unat (ri_start r)"
    "aa_free a' = aa_free a - range_set r" "aa_allocated a' = aa_allocated a \<union> range_set r"
    "address_space a' = address_space a"
proof -
  from assms(3) obtain c t' where c: "valid_constraint c" "c_size c = sz" "c_align c = alignment" "windowed c"
    and t': "it_allocate c (interval_tree a) = (Ok r, t')" "a' = a\<lparr>interval_tree := t'\<rparr>"
    using assms(2) by (cases rule: allocate_cases [of sz alignment policy a])
      (auto simp: on_tree_Ok_iff windowed_def)
  note s = it_allocate_sound [OF assms(1) [unfolded aa_inv_def] c(1,4) t'(1)]
  show "valid_range r" "range_set r \<subseteq> aa_free a" "range_len r = sz" "unat alignment dvd unat (ri_start r)"
    "aa_free a' = aa_free a - range_set r" "aa_allocated a' = aa_allocated a \<union> range_set r"
    "address_space a' = address_space a"
    using s c t' by (simp_all add: aa_free_def aa_allocated_def)
qed

lemma request_shrinks:
  assumes "aa_inv a" "windowed_request q"
  shows "aa_free (snd (request q a)) \<subseteq> aa_free a"
proof -
  obtain sz alignment policy where q: "q = (sz, alignment, policy)" by (cases q) auto
  show ?thesis
  proof (cases rule: allocate_cases [of sz alignment policy a])
    case (2 c)
    then have w: "windowed c" using assms(2) q by (auto simp: windowed_request_def windowed_def)
    have "within (aa_free a) (interval_tree a)" using assms(1) by (simp add: within_def aa_inv_def aa_free_def)
    from within_it_allocate [OF this w 2(2)] show ?thesis
      using 2(4) q by (simp add: request_def on_tree_eq aa_free_def within_def)
  qed (simp add: request_def q)
qed

interpretation aa: range_allocator aa_inv aa_free request free windowed_request
proof unfold_locales
  fix s q assume "aa_inv s"
  then show "aa_inv (snd (request q s))"
    using keepsD [OF keeps_allocate] by (cases q) (simp add: request_def)
next
  fix s r assume "aa_inv s" "valid_range r"
  then show "aa_inv (snd (free r s))" using keepsD [OF keeps_free] by blast
next
  fix s q assume "aa_inv s" "windowed_request q"
  then show "aa_free (snd (request q s)) \<subseteq> aa_free s" by (rule request_shrinks)
next
  fix s q r s' assume a: "aa_inv s" "windowed_request q" "request q s = (Ok r, s')"
  obtain sz alignment policy where q: "q = (sz, alignment, policy)" by (cases q) auto
  have "policy = FirstMatch \<or> policy = LastMatch" "allocate sz alignment policy s = (Ok r, s')"
    using a(2,3) q by (auto simp: windowed_request_def request_def)
  from allocate_sound [OF a(1) this]
  show "valid_range r \<and> range_set r \<subseteq> aa_free s \<and> aa_free s' \<inter> range_set r = {}" by auto
next
  fix s r assume "aa_inv s" "valid_range r"
  then show "aa_free (snd (free r s)) \<subseteq> aa_free s \<union> range_set r"
    using within_it_free [of "interval_tree s" r]
    by (simp add: free_def on_tree_eq aa_free_def aa_inv_def within_def)
qed

lemma address_allocator_new_Ok:
  assumes "address_allocator_new base sz = Ok a"
  shows "aa_inv a \<and> aa_free a = range_set (address_space a) \<and> aa_allocated a = {} \<and>
    valid_range (address_space a) \<and> aa_base a = base \<and> unat (aa_end a) + 1 = unat base + unat sz"
proof -
  from assms obtain len e where l: "checked_sub sz 1 = Some len" "checked_add base len = Some e"
    and v: "range_new base e = Ok (address_space a)" and a: "interval_tree a = it_new (address_space a)"
    by (auto simp: address_allocator_new_def rbind_eq_Ok_iff ok_or_eq_Ok_iff)
  have sz: "1 \<le> unat sz" using l(1) by (simp add: checked_sub_Some_iff word_le_nat_alt)
  have "unat e + 1 = unat base + unat sz"
    using checked_sub_unat [OF l(1)] checked_add_unat [OF l(2)] sz by simp
  moreover have "address_space a = RangeInclusive base e" "valid_range (address_space a)"
    using v by (auto simp: range_new_eq_Ok_iff)
  ultimately show ?thesis
    by (auto simp: aa_inv_def aa_free_def aa_allocated_def aa_base_def aa_end_def a it_new_def
        tree_inv_node_new addrs_def covered_def)
qed

subsection \<open>Evaluation\<close>

lemmas alloc_eval = address_allocator_new_def checked_sub_def checked_add_def range_new_def it_new_def
  node_new_def allocate_def on_tree_def free_def request_def it_allocate_def abind_def alift_def
  constraint_new_def is_power_of_two_def upt_rec find_candidate_def range_len_def check_constraint_def
  align_up_def align_down_def split_node_def it_delete_def it_insert_def it_mark_as_allocated_def
  free_before_def free_after_def cmp_def overlaps_def contains_def unwrap_box_def rotate_def
  combine_subtrees_def less_range_inclusive_def less_eq_range_inclusive_def is_free_def merge_left_def
  merge_right_def absorb_left_def absorb_right_def it_free_def it_search_superset_def rbind_def ok_or_def

definition page :: address_allocator where
  "page = \<lparr>address_space = RangeInclusive 0x1000 0x1fff,
     interval_tree = Node Tip (RangeInclusive 0x1000 0x1fff) Free 1 Tip\<rparr>"

lemma page_new: "address_allocator_new 0x1000 0x1000 = Ok page"
  by (simp add: alloc_eval page_def)

lemma page_inv: "aa_inv page"
  using address_allocator_new_Ok [OF page_new] by simp

subsection \<open>Properties\<close>

text \<open>
  C2. Take an address allocator fresh from \<open>new\<close> and let a client issue any sequence of
  \<open>FirstMatch\<close> and \<open>LastMatch\<close> allocations and of releases of ranges it holds.  Whatever mix of
  successes and errors occurs, the ranges the client holds at the end are pairwise disjoint, lie
  inside the address space, and none of their addresses is free; the tree is a balanced, ordered
  interval tree.
\<close>

theorem client_never_overlaps:
  assumes "address_allocator_new base sz = Ok a0"
    and "\<And>q. Request q \<in> set ops \<Longrightarrow> windowed_request q"
    and "client_run request free ops (a0, []) = (a, live)"
  shows "sorted_wrt (\<lambda>r q. range_set r \<inter> range_set q = {}) live \<and>
    (\<forall>r. r \<in> set live \<longrightarrow> valid_range r \<and> range_set r \<subseteq> range_set (address_space a0) - aa_free a) \<and>
    aa_inv a"
proof -
  have "aa.safe (range_set (address_space a0)) (client_run request free ops (a0, []))"
    using address_allocator_new_Ok [OF assms(1)]
    by (intro aa.client_run_safe assms(2)) (simp_all add: aa.safe_def)
  then show ?thesis by (auto simp: assms(3) aa.safe_def)
qed

theorem client_never_overlaps_witness:
  "snd (client_run request free [Request (0x100, 0x100, FirstMatch), Request (0x10, 0x40, LastMatch)] (page, [])) =
    [RangeInclusive 0x1fc0 0x1fcf, RangeInclusive 0x1000 0x10ff] \<and>
   sorted_wrt (\<lambda>r q. range_set r \<inter> range_set q = {})
    [RangeInclusive 0x1fc0 0x1fcf, RangeInclusive 0x1000 0x10ff]"
proof -
  let ?ops = "[Request (0x100, 0x100, FirstMatch), Request (0x10, 0x40, LastMatch)]"
  have run: "snd (client_run request free ?ops (page, [])) =
      [RangeInclusive 0x1fc0 0x1fcf, RangeInclusive 0x1000 0x10ff]"
    by (simp add: alloc_eval page_def)
  have ops: "windowed_request q" if "Request q \<in> set ?ops" for q
    using that by (auto simp: windowed_request_def)
  have "sorted_wrt (\<lambda>r q. range_set r \<inter> range_set q = {}) (snd (client_run request free ?ops (page, [])))"
    by (rule conjunct1 [OF client_never_overlaps [OF page_new ops prod.collapse [symmetric]]])
  then show ?thesis unfolding run by (rule conjI [OF refl])
qed





text \<open>
  C17. Neither \<open>allocate\<close> (any size, alignment and policy) nor \<open>free\<close> (any well-formed range) panics, and
  both leave a balanced, ordered tree of disjoint ranges behind, also when they return an error.
\<close>

theorem operations_keep_tree:
  assumes "aa_inv a" and "valid_range k"
  shows "fst (allocate sz alignment policy a) \<noteq> Panic \<and> aa_inv (snd (allocate sz alignment policy a)) \<and>
    fst (free k a) \<noteq> Panic \<and> aa_inv (snd (free k a))"
  using keepsD [OF keeps_allocate assms(1)] keepsD [OF keeps_free [OF assms(2)] assms(1)] by simp

theorem operations_keep_tree_witness:
  "aa_inv (snd (allocate 0x10 0x10 (ExactMatch 0x1100) page)) \<and>
   aa_inv (snd (free (RangeInclusive 0x1000 0x1fff) page))"
  using operations_keep_tree [OF page_inv, of "RangeInclusive 0x1000 0x1fff" "0x10" "0x10" "ExactMatch 0x1100"]
  by (simp add: valid_range_def)


definition half_used :: address_allocator where
  "half_used = \<lparr>address_space = RangeInclusive 0x1000 0x1fff,
     interval_tree = Node Tip (RangeInclusive 0x1000 0x17ff) Allocated 2
       (Node Tip (RangeInclusive 0x1800 0x1fff) Free 1 Tip)\<rparr>"


text \<open>
  An \<open>ExactMatch\<close> request does not look at the state of the node it hits.  On an allocator whose
  lower half is allocated, a request strictly inside that half succeeds, so the same addresses are
  handed out twice, and the rest of the half becomes free.
\<close>

theorem exact_match_double_allocates:
  "fst (allocate 0x10 0x10 (ExactMatch 0x1100) half_used) = Ok (RangeInclusive 0x1100 0x110f) \<and>
   range_set (RangeInclusive 0x1100 0x110f) \<subseteq> aa_allocated half_used \<and>
   (0x1000 :: u64) \<in> aa_allocated half_used \<and>
   0x1000 \<in> aa_free (snd (allocate 0x10 0x10 (ExactMatch 0x1100) half_used))"
proof -
  have "range_set (RangeInclusive 0x1100 0x110f) \<subseteq> range_set (RangeInclusive 0x1000 0x17ff)"
    by (auto simp: range_set_def)
  moreover have "aa_allocated half_used = range_set (RangeInclusive 0x1000 0x17ff)"
    by (auto simp: aa_allocated_def addrs_def covered_def entries_def half_used_def)
  moreover have "0x1000 \<in> aa_free (snd (allocate 0x10 0x10 (ExactMatch 0x1100) half_used))"
    by (simp add: alloc_eval half_used_def aa_free_def addrs_def covered_def entries_def range_set_def)
      (rule exI [of _ "RangeInclusive 0x1000 0x10ff"], simp)
  moreover have "fst (allocate 0x10 0x10 (ExactMatch 0x1100) half_used) = Ok (RangeInclusive 0x1100 0x110f)"
    by (simp add: alloc_eval half_used_def)
  ultimately show ?thesis by (simp add: range_set_def)
qed

text \<open>
  Three boundary cases of the arithmetic.  An empty allocator that starts at address 0 cannot serve
  a \<open>LastMatch\<close> request for its whole size, because the search subtracts the size from the last address.
  No request can use the last 64-bit address, because the end of a range is computed before 1 is
  subtracted.  Releasing a range that starts at address 1 fails after its node has been deleted, so
  its addresses are in neither state afterwards.
\<close>

theorem boundary_cases:
  "fst (allocate 0x100 1 LastMatch (\<lparr>address_space = RangeInclusive 0 0xff,
      interval_tree = Node Tip (RangeInclusive 0 0xff) Free 1 Tip\<rparr>)) = Err ResourceNotAvailable \<and>
   fst (allocate 0x100 1 FirstMatch (\<lparr>address_space = RangeInclusive 0xffffffffffffff00 0xffffffffffffffff,
      interval_tree = Node Tip (RangeInclusive 0xffffffffffffff00 0xffffffffffffffff) Free 1 Tip\<rparr>)) =
     Err Overflow \<and>
   free (RangeInclusive 1 2) (\<lparr>address_space = RangeInclusive 1 2,
      interval_tree = Node Tip (RangeInclusive 1 2) Allocated 1 Tip\<rparr>) =
     (Err Underflow, \<lparr>address_space = RangeInclusive 1 2, interval_tree = Tip\<rparr>)"
proof -
  have "\<not> 2 \<le> (1 :: u64)" by (simp add: word_le_nat_alt)
  then show ?thesis by (intro conjI) (simp_all add: alloc_eval)
qed

end
