(* ===== verification/IdAllocator.thy ===== *)
theory IdAllocator
  imports AllocTypes
begin

section \<open>vm-allocator: the identifier allocator\<close>

text \<open>
  \<open>vm-allocator/src/id_allocator.rs\<close>.  The \<open>BTreeSet\<close> of released identifiers is a finite set
  whose first element in iteration order is its minimum.  The abstraction of a state is the set
  of identifiers currently handed out; the refinement lemmas say that \<open>allocate_id\<close> hands out
  the least identifier of the range that is not in that set.
\<close>

record id_allocator =
  range_base :: u32
  next_id :: "u32 option"
  range_end :: u32
  freed_ids :: "u32 set"

definition id_allocator_new :: "u32 \<Rightarrow> u32 \<Rightarrow> (id_allocator, alloc_error) result" where
  "id_allocator_new b e =
     (if e < b then Err (InvalidRange (ucast b) (ucast e))
      else Ok \<lparr>range_base = b, next_id = Some b, range_end = e, freed_ids = {}\<rparr>)"

definition id_in_range :: "id_allocator \<Rightarrow> u32 \<Rightarrow> bool" where
  "id_in_range a i \<longleftrightarrow> range_base a \<le> i \<and> i \<le> range_end a"

definition allocate_id :: "(id_allocator, u32, alloc_error) act" where
  "allocate_id a =
     (if freed_ids a \<noteq> {} then
        (let ret_value = Min (freed_ids a)
         in (Ok ret_value, a\<lparr>freed_ids := freed_ids a - {ret_value}\<rparr>))
      else (case next_id a of
          Some n \<Rightarrow>
            if n > range_end a then (Err ResourceNotAvailable, a)
            else (Ok n, a\<lparr>next_id := checked_add n 1\<rparr>)
        | None \<Rightarrow> (Err Overflow, a)))"

definition is_allocated :: "id_allocator \<Rightarrow> u32 \<Rightarrow> bool" where
  "is_allocated a i \<longleftrightarrow>
     (if \<not> id_in_range a i \<or> i \<in> freed_ids a then False
      else (case next_id a of Some n \<Rightarrow> i < n | None \<Rightarrow> True))"

definition free_id :: "u32 \<Rightarrow> (id_allocator, u32, alloc_error) act" where
  "free_id i a =
     (if \<not> id_in_range a i then (Err (OutOfRange i), a)
      else if (case next_id a of Some n \<Rightarrow> n \<le> i | None \<Rightarrow> False) then (Err (NeverAllocated i), a)
      else (if i \<in> freed_ids a then Err (AlreadyReleased i) else Ok i,
            a\<lparr>freed_ids := Set.insert i (freed_ids a)\<rparr>))"

subsection \<open>Invariant and abstraction\<close>

definition handed_out :: "id_allocator \<Rightarrow> u32 set" where
  "handed_out a = (case next_id a of
     Some n \<Rightarrow> {range_base a..<n}
   | None \<Rightarrow> {range_base a..range_end a})"

definition id_inv :: "id_allocator \<Rightarrow> bool" where
  "id_inv a \<longleftrightarrow> range_base a \<le> range_end a \<and> freed_ids a \<subseteq> handed_out a \<and>
     (case next_id a of
        Some n \<Rightarrow> range_base a \<le> n \<and> unat n \<le> unat (range_end a) + 1
      | None \<Rightarrow> range_end a = - 1)"

definition live_ids :: "id_allocator \<Rightarrow> u32 set" where
  "live_ids a = handed_out a - freed_ids a"

definition managed_ids :: "id_allocator \<Rightarrow> u32 set" where
  "managed_ids a = {range_base a..range_end a}"

lemma less_next_id: "unat (n :: u32) \<le> Suc (unat (e :: u32)) \<Longrightarrow> x < n \<Longrightarrow> x \<le> e"
  by (simp add: word_le_nat_alt word_less_nat_alt)

lemma handed_out_managed: "id_inv a \<Longrightarrow> handed_out a \<subseteq> managed_ids a"
  by (auto simp: id_inv_def handed_out_def managed_ids_def split: option.splits intro: less_next_id)

lemma is_allocated_iff: "id_inv a \<Longrightarrow> is_allocated a i \<longleftrightarrow> i \<in> live_ids a"
  using handed_out_managed [of a]
  by (auto simp: is_allocated_def live_ids_def handed_out_def id_in_range_def managed_ids_def
      split: option.splits)

lemma id_allocator_new_inv: "id_allocator_new b e = Ok a \<Longrightarrow> id_inv a \<and> live_ids a = {} \<and> managed_ids a = {b..e}"
  by (auto simp: id_allocator_new_def id_inv_def live_ids_def handed_out_def managed_ids_def
      word_le_nat_alt word_less_nat_alt split: if_splits)

lemma checked_succ_cases:
  assumes "n \<le> (e :: u32)"
  shows "(n = - 1 \<and> e = - 1 \<and> checked_add n 1 = None) \<or>
    (n \<noteq> - 1 \<and> checked_add n 1 = Some (n + 1) \<and> unat (n + 1) = unat n + 1)"
proof (cases "n = - 1")
  case True
  then have "e = - 1" using assms by (simp add: antisym_conv)
  with True show ?thesis by (simp add: checked_add_def unsigned_minus_1_eq_mask mask_eq_exp_minus_1)
next
  case False
  then have "1 + n \<noteq> 0" by (simp add: eq_neg_iff_add_eq_0 add.commute)
  then have "unat (n + 1) = unat n + 1" by (simp add: unatSuc add.commute)
  moreover have "unat (n + 1) < 2 ^ 32" using unsigned_less [of "n + 1", where 'a = nat] by simp
  ultimately show ?thesis using False by (simp add: checked_add_def)
qed

subsection \<open>Refinement\<close>

lemma allocate_id_fresh:
  assumes "id_inv a" "freed_ids a = {}" "next_id a = Some n" "n \<le> range_end a"
  shows "id_inv (a\<lparr>next_id := checked_add n 1\<rparr>)"
    and "live_ids (a\<lparr>next_id := checked_add n 1\<rparr>) = Set.insert n (live_ids a)"
proof -
  have step: "{range_base a..<n + 1} = Set.insert n {range_base a..<n}" if "unat (n + 1) = unat n + 1"
    using that assms(1,3) by (auto simp: id_inv_def word_le_nat_alt word_less_nat_alt word_unat_eq_iff)
  have top: "{range_base a..- 1} = Set.insert (- 1) {range_base a..<- 1}"
    using assms(1) by (auto simp: id_inv_def less_le)
  show "id_inv (a\<lparr>next_id := checked_add n 1\<rparr>)"
    using assms checked_succ_cases [OF assms(4)] by (auto simp: id_inv_def word_le_nat_alt)
  show "live_ids (a\<lparr>next_id := checked_add n 1\<rparr>) = Set.insert n (live_ids a)"
    using assms checked_succ_cases [OF assms(4)] step top
    by (auto simp: live_ids_def handed_out_def)
qed

lemma allocate_id_reuse:
  assumes "id_inv a" "freed_ids a \<noteq> {}"
  shows "id_inv (a\<lparr>freed_ids := freed_ids a - {Min (freed_ids a)}\<rparr>)"
    and "live_ids (a\<lparr>freed_ids := freed_ids a - {Min (freed_ids a)}\<rparr>) =
      Set.insert (Min (freed_ids a)) (live_ids a)"
proof -
  have m: "Min (freed_ids a) \<in> freed_ids a" using assms(2) by (intro Min_in) auto
  show "id_inv (a\<lparr>freed_ids := freed_ids a - {Min (freed_ids a)}\<rparr>)"
    using assms(1) by (auto simp: id_inv_def handed_out_def split: option.splits)
  show "live_ids (a\<lparr>freed_ids := freed_ids a - {Min (freed_ids a)}\<rparr>) =
      Set.insert (Min (freed_ids a)) (live_ids a)"
    using assms(1) m by (auto simp: id_inv_def live_ids_def handed_out_def split: option.splits)
qed

lemma keeps_allocate_id: "keeps id_inv allocate_id"
  by (rule keepsI) (auto simp: allocate_id_def Let_def allocate_id_reuse(1) allocate_id_fresh(1)
      not_less split: option.splits)

lemma keeps_free_id: "keeps id_inv (free_id i)"
  by (rule keepsI) (auto simp: free_id_def id_inv_def handed_out_def id_in_range_def not_le
      split: option.splits)

lemma freed_least:
  assumes "id_inv a" "freed_ids a \<noteq> {}"
  shows "Min (freed_ids a) \<in> managed_ids a - live_ids a"
    and "x \<in> managed_ids a - live_ids a \<Longrightarrow> Min (freed_ids a) \<le> x"
proof -
  have m: "Min (freed_ids a) \<in> freed_ids a" using assms(2) by (intro Min_in) auto
  then have h: "Min (freed_ids a) \<in> handed_out a" using assms(1) by (auto simp: id_inv_def)
  with m show "Min (freed_ids a) \<in> managed_ids a - live_ids a"
    using handed_out_managed [OF assms(1)] unfolding live_ids_def by blast
  assume x: "x \<in> managed_ids a - live_ids a"
  show "Min (freed_ids a) \<le> x"
  proof (cases "x \<in> freed_ids a")
    case False
    then have "x \<notin> handed_out a" using x by (auto simp: live_ids_def)
    then show ?thesis using h x by (auto simp: handed_out_def managed_ids_def split: option.splits)
  qed simp
qed

lemma allocate_id_refines:
  assumes "id_inv a" "allocate_id a = (Ok i, a')"
  shows "live_ids a' = Set.insert i (live_ids a)" and "i \<in> managed_ids a - live_ids a"
    and "\<And>x. x \<in> managed_ids a - live_ids a \<Longrightarrow> i \<le> x"
proof -
  have "live_ids a' = Set.insert i (live_ids a) \<and> i \<in> managed_ids a - live_ids a \<and>
    (\<forall>x \<in> managed_ids a - live_ids a. i \<le> x)"
  proof (cases "freed_ids a = {}")
    case False
    then have "i = Min (freed_ids a)" "a' = a\<lparr>freed_ids := freed_ids a - {Min (freed_ids a)}\<rparr>"
      using assms(2) by (auto simp: allocate_id_def Let_def)
    then show ?thesis using allocate_id_reuse(2) [OF assms(1) False] freed_least [OF assms(1) False] by simp
  next
    case True
    then obtain n where n: "next_id a = Some n" using assms(2) by (cases "next_id a") (simp_all add: allocate_id_def)
    then have le: "n \<le> range_end a"
      using assms(2) True by (cases "range_end a < n") (simp_all add: allocate_id_def)
    then have "allocate_id a = (Ok n, a\<lparr>next_id := checked_add n 1\<rparr>)"
      using True n by (simp add: allocate_id_def)
    then have "i = n" "a' = a\<lparr>next_id := checked_add n 1\<rparr>"
      using assms(2) by (metis Pair_inject result.inject(1))+
    moreover have "live_ids a = {range_base a..<n}" using True n by (simp add: live_ids_def handed_out_def)
    moreover have "range_base a \<le> n" using assms n by (simp add: id_inv_def)
    ultimately show ?thesis
      using le allocate_id_fresh(2) [OF assms(1) True n le] by (auto simp: managed_ids_def)
  qed
  then show "live_ids a' = Set.insert i (live_ids a)" and "i \<in> managed_ids a - live_ids a"
    and "\<And>x. x \<in> managed_ids a - live_ids a \<Longrightarrow> i \<le> x" by blast+
qed

lemma allocate_id_exhausted:
  assumes "id_inv a"
  shows "is_ok (fst (allocate_id a)) \<longleftrightarrow> \<not> managed_ids a \<subseteq> live_ids a"
proof (cases "freed_ids a = {}")
  case False
  then show ?thesis using freed_least(1) [OF assms False] by (auto simp: allocate_id_def Let_def)
next
  case True
  show ?thesis
  proof (cases "next_id a")
    case None
    then show ?thesis using True by (simp add: allocate_id_def live_ids_def handed_out_def managed_ids_def)
  next
    case (Some n)
    have "live_ids a = {range_base a..<n}" using True Some by (simp add: live_ids_def handed_out_def)
    then have "managed_ids a \<subseteq> live_ids a \<longleftrightarrow> range_end a < n"
      using assms by (auto simp: managed_ids_def id_inv_def)
    then show ?thesis using Some True by (simp add: allocate_id_def)
  qed
qed

lemma handed_out_iff:
  assumes "id_inv a"
  shows "i \<in> handed_out a \<longleftrightarrow>
    id_in_range a i \<and> \<not> (case next_id a of Some n \<Rightarrow> n \<le> i | None \<Rightarrow> False)"
proof (cases "next_id a")
  case (Some n)
  then have "i < n \<Longrightarrow> i \<le> range_end a" using assms by (auto simp: id_inv_def intro: less_next_id)
  then show ?thesis using Some by (auto simp: handed_out_def id_in_range_def)
qed (simp add: handed_out_def id_in_range_def)

lemma free_id_cases:
  assumes "id_inv a"
  shows "free_id i a =
    (if i \<in> handed_out a
     then (if i \<in> freed_ids a then Err (AlreadyReleased i) else Ok i,
           a\<lparr>freed_ids := Set.insert i (freed_ids a)\<rparr>)
     else (Err (if id_in_range a i then NeverAllocated i else OutOfRange i), a))"
  using handed_out_iff [OF assms, of i] by (simp add: free_id_def)

lemma free_id_refines:
  assumes "id_inv a"
  shows "is_ok (fst (free_id i a)) \<longleftrightarrow> i \<in> live_ids a"
    and "live_ids (snd (free_id i a)) = live_ids a - {i}"
proof -
  have "handed_out (a\<lparr>freed_ids := F\<rparr>) = handed_out a" for F by (simp add: handed_out_def split: option.split)
  then show "is_ok (fst (free_id i a)) \<longleftrightarrow> i \<in> live_ids a"
    "live_ids (snd (free_id i a)) = live_ids a - {i}"
    by (auto simp: free_id_cases [OF assms] live_ids_def)
qed

subsection \<open>Properties\<close>

text \<open>
  C34. \<open>allocate_id\<close> refines \<^emph>\<open>take the least unused identifier\<close>: it succeeds exactly when some
  identifier of the range is not in use, hands out the least such one, and that identifier is the
  only one whose state changes.  It never panics and keeps the invariant.
\<close>

theorem allocate_id_takes_least:
  assumes "id_inv a"
  shows "case allocate_id a of
      (Ok i, a') \<Rightarrow> id_inv a' \<and> i \<in> managed_ids a - live_ids a \<and>
        (\<forall>x. x \<in> managed_ids a - live_ids a \<longrightarrow> i \<le> x) \<and> live_ids a' = Set.insert i (live_ids a)
    | (Err e, a') \<Rightarrow> a' = a \<and> managed_ids a \<subseteq> live_ids a
    | (Panic, a') \<Rightarrow> False"
proof (cases "allocate_id a")
  case (Pair r a')
  note k = keepsD [OF keeps_allocate_id assms, unfolded Pair, simplified]
  show ?thesis
  proof (cases r)
    case (Ok i)
    then show ?thesis using Pair k allocate_id_refines [OF assms, of i a'] by auto
  next
    case (Err e)
    then have "a' = a" using Pair by (auto simp: allocate_id_def Let_def split: if_splits option.splits)
    then show ?thesis using Pair Err allocate_id_exhausted [OF assms] by simp
  qed (use Pair k in simp)
qed

definition some_ids :: id_allocator where
  "some_ids = \<lparr>range_base = 5, next_id = Some 9, range_end = 11, freed_ids = {7, 6}\<rparr>"

theorem allocate_id_takes_least_witness:
  "fst (allocate_id some_ids) = Ok 6 \<and>
   live_ids (snd (allocate_id some_ids)) = Set.insert 6 (live_ids some_ids)"
proof -
  have inv: "id_inv some_ids" by (auto simp: some_ids_def id_inv_def handed_out_def)
  have run: "fst (allocate_id some_ids) = Ok 6"
    by (simp add: allocate_id_def some_ids_def)
  show ?thesis
    using allocate_id_takes_least [OF inv] run by (cases "allocate_id some_ids") simp
qed

text \<open>
  \<open>free_id\<close> succeeds exactly on the identifiers in use and afterwards exactly that identifier is
  no longer in use.  The three errors tell an identifier outside the range, one never handed out and
  one already released apart, and no error changes which identifiers are in use.
\<close>

theorem free_id_releases:
  assumes "id_inv a"
  shows "fst (free_id i a) =
      (if i \<in> live_ids a then Ok i
       else if i \<notin> managed_ids a then Err (OutOfRange i)
       else if i \<in> freed_ids a then Err (AlreadyReleased i)
       else Err (NeverAllocated i)) \<and>
    live_ids (snd (free_id i a)) = live_ids a - {i} \<and> id_inv (snd (free_id i a))"
proof -
  have "freed_ids a \<subseteq> handed_out a" using assms by (simp add: id_inv_def)
  then have "fst (free_id i a) =
      (if i \<in> live_ids a then Ok i
       else if i \<notin> managed_ids a then Err (OutOfRange i)
       else if i \<in> freed_ids a then Err (AlreadyReleased i)
       else Err (NeverAllocated i))"
    using handed_out_managed [OF assms]
    by (auto simp: free_id_cases [OF assms] live_ids_def managed_ids_def id_in_range_def)
  then show ?thesis using free_id_refines(2) [OF assms] keepsD [OF keeps_free_id assms] by simp
qed

theorem free_id_releases_witness:
  "fst (free_id 8 some_ids) = Ok 8 \<and> fst (free_id 6 some_ids) = Err (AlreadyReleased 6) \<and>
   fst (free_id 10 some_ids) = Err (NeverAllocated 10) \<and> id_inv (snd (free_id 8 some_ids))"
proof -
  have inv: "id_inv some_ids" by (auto simp: some_ids_def id_inv_def handed_out_def)
  show ?thesis
    using free_id_releases [OF inv, of 8] free_id_releases [OF inv, of 6] free_id_releases [OF inv, of 10]
    by (simp add: some_ids_def live_ids_def handed_out_def managed_ids_def)
qed

end
