(* ===== verification/SeccompBpf.thy ===== *)
theory SeccompBpf
  imports Prelude
begin

text \<open>
  The target language of seccompiler: the constants, the instruction record and
  the instruction builders of \<^verbatim>\<open>seccompiler/src/backend/bpf.rs\<close>, and the data
  types of \<^verbatim>\<open>seccompiler/src/backend/mod.rs\<close>.

  The kernel that runs the filter is not part of the repository.  What the
  compiler relies on is the locale \<open>bpf_machine\<close>: one law for every instruction
  the compiler emits, each with the documented side condition that a jump stays
  inside the program.  \<open>bpf_run\<close> is a small interpreter of those instructions
  that satisfies the laws.  The numeric values of the \<^verbatim>\<open>SECCOMP_RET_*\<close> codes come
  from \<^verbatim>\<open>libc\<close> and are the fields of a record, an argument of the definitions
  that emit them.
\<close>

section \<open>Constants\<close>

definition ARG_NUMBER_MAX :: u8 where "ARG_NUMBER_MAX = 5"
definition CONDITION_MAX_LEN :: u8 where "CONDITION_MAX_LEN = 6"
definition BPF_MAX_LEN :: nat where "BPF_MAX_LEN = 4096"

definition SECCOMP_DATA_NR_OFFSET :: u8 where "SECCOMP_DATA_NR_OFFSET = 0"
definition SECCOMP_DATA_ARCH_OFFSET :: u8 where "SECCOMP_DATA_ARCH_OFFSET = 4"
definition SECCOMP_DATA_ARGS_OFFSET :: u8 where "SECCOMP_DATA_ARGS_OFFSET = 16"
definition SECCOMP_DATA_ARG_SIZE :: u8 where "SECCOMP_DATA_ARG_SIZE = 8"

definition BPF_LD :: u16 where "BPF_LD = 0x00"
definition BPF_ALU :: u16 where "BPF_ALU = 0x04"
definition BPF_JMP :: u16 where "BPF_JMP = 0x05"
definition BPF_RET :: u16 where "BPF_RET = 0x06"
definition BPF_W :: u16 where "BPF_W = 0x00"
definition BPF_ABS :: u16 where "BPF_ABS = 0x20"
definition BPF_AND :: u16 where "BPF_AND = 0x50"
definition BPF_JA :: u16 where "BPF_JA = 0x00"
definition BPF_JEQ :: u16 where "BPF_JEQ = 0x10"
definition BPF_JGT :: u16 where "BPF_JGT = 0x20"
definition BPF_JGE :: u16 where "BPF_JGE = 0x30"
definition BPF_K :: u16 where "BPF_K = 0x00"

definition AUDIT_ARCH_X86_64 :: u32
  where "AUDIT_ARCH_X86_64 = 62 OR 0x80000000 OR 0x40000000"
definition AUDIT_ARCH_AARCH64 :: u32
  where "AUDIT_ARCH_AARCH64 = 183 OR 0x80000000 OR 0x40000000"
definition AUDIT_ARCH_RISCV64 :: u32
  where "AUDIT_ARCH_RISCV64 = 243 OR 0x80000000 OR 0x40000000"

lemmas bpf_codes =
  BPF_LD_def BPF_ALU_def BPF_JMP_def BPF_RET_def BPF_W_def BPF_ABS_def BPF_AND_def
  BPF_JA_def BPF_JEQ_def BPF_JGT_def BPF_JGE_def BPF_K_def

lemmas bpf_limits =
  ARG_NUMBER_MAX_def CONDITION_MAX_LEN_def BPF_MAX_LEN_def
  SECCOMP_DATA_NR_OFFSET_def SECCOMP_DATA_ARCH_OFFSET_def
  SECCOMP_DATA_ARGS_OFFSET_def SECCOMP_DATA_ARG_SIZE_def

section \<open>Instructions\<close>

record sock_filter =
  sf_code :: u16
  sf_jt :: u8
  sf_jf :: u8
  sf_k :: u32

type_synonym bpf_program = "sock_filter list"

definition bpf_jump :: "u16 \<Rightarrow> u32 \<Rightarrow> u8 \<Rightarrow> u8 \<Rightarrow> sock_filter" where
  "bpf_jump c operand t f = \<lparr>sf_code = c, sf_jt = t, sf_jf = f, sf_k = operand\<rparr>"

definition bpf_stmt :: "u16 \<Rightarrow> u32 \<Rightarrow> sock_filter" where
  "bpf_stmt c operand = \<lparr>sf_code = c, sf_jt = 0, sf_jf = 0, sf_k = operand\<rparr>"

section \<open>The data types of the backend\<close>

datatype backend_error =
    EmptyRule
  | FilterTooLarge nat
  | IdenticalActions
  | InvalidArgumentNumber
  | InvalidTargetArch string

datatype target_arch = X86_64 | Aarch64 | Riscv64

fun get_audit_value :: "target_arch \<Rightarrow> u32" where
  "get_audit_value X86_64 = AUDIT_ARCH_X86_64"
| "get_audit_value Aarch64 = AUDIT_ARCH_AARCH64"
| "get_audit_value Riscv64 = AUDIT_ARCH_RISCV64"

text \<open>
  \<^verbatim>\<open>str::to_lowercase\<close> on the letters the three names are made of.  No character
  outside ASCII has a lower-case form that occurs in them, so the ASCII mapping
  decides the match exactly.
\<close>

definition to_lowercase :: "string \<Rightarrow> string" where
  "to_lowercase s =
     map (\<lambda>c. if 65 \<le> (of_char c :: nat) \<and> (of_char c :: nat) \<le> 90
              then char_of ((of_char c :: nat) + 32) else c) s"

definition target_arch_try_from :: "string \<Rightarrow> (target_arch, backend_error) result" where
  "target_arch_try_from input =
     (let s = to_lowercase input in
      if s = ''x86_64'' then Ok X86_64
      else if s = ''aarch64'' then Ok Aarch64
      else if s = ''riscv64'' then Ok Riscv64
      else Err (InvalidTargetArch input))"

datatype seccomp_cmp_op = Eq | Ge | Gt | Le | Lt | MaskedEq u64 | Ne

datatype seccomp_cmp_arg_len = Dword | Qword

datatype seccomp_action =
    Allow | Errno u32 | KillThread | KillProcess | Log | Trace u32 | Trap | UserNotif

text \<open>The codes \<^verbatim>\<open>libc\<close> exports, by their names there.\<close>

record libc_codes =
  SECCOMP_RET_ALLOW :: u32
  SECCOMP_RET_DATA :: u32
  SECCOMP_RET_ERRNO :: u32
  SECCOMP_RET_KILL_PROCESS :: u32
  SECCOMP_RET_KILL_THREAD :: u32
  SECCOMP_RET_LOG :: u32
  SECCOMP_RET_TRACE :: u32
  SECCOMP_RET_TRAP :: u32
  SECCOMP_RET_USER_NOTIF :: u32

fun action_code :: "libc_codes \<Rightarrow> seccomp_action \<Rightarrow> u32" where
  "action_code lc Allow = SECCOMP_RET_ALLOW lc"
| "action_code lc (Errno x) = SECCOMP_RET_ERRNO lc OR (x AND SECCOMP_RET_DATA lc)"
| "action_code lc KillThread = SECCOMP_RET_KILL_THREAD lc"
| "action_code lc KillProcess = SECCOMP_RET_KILL_PROCESS lc"
| "action_code lc Log = SECCOMP_RET_LOG lc"
| "action_code lc (Trace x) = SECCOMP_RET_TRACE lc OR (x AND SECCOMP_RET_DATA lc)"
| "action_code lc Trap = SECCOMP_RET_TRAP lc"
| "action_code lc UserNotif = SECCOMP_RET_USER_NOTIF lc"

definition build_arch_validation_sequence :: "libc_codes \<Rightarrow> target_arch \<Rightarrow> bpf_program" where
  "build_arch_validation_sequence lc arch =
     (let audit_arch_value = get_audit_value arch in
      [bpf_stmt (BPF_LD OR BPF_W OR BPF_ABS) (ucast SECCOMP_DATA_ARCH_OFFSET),
       bpf_jump (BPF_JMP OR BPF_JEQ OR BPF_K) audit_arch_value 1 0,
       bpf_stmt (BPF_RET OR BPF_K) (SECCOMP_RET_KILL_PROCESS lc)])"

section \<open>The data a filter reads\<close>

text \<open>
  \<^verbatim>\<open>struct seccomp_data\<close> as the comment of \<^verbatim>\<open>bpf.rs\<close> lays it out: a load of the
  32-bit word at a byte offset, on the little-endian targets the compiler
  supports.
\<close>

record seccomp_data =
  sd_nr :: u32
  sd_arch :: u32
  sd_instruction_pointer :: u64
  sd_args :: "u64 list"

definition lo32 :: "u64 \<Rightarrow> u32" where "lo32 x = ucast x"
definition hi32 :: "u64 \<Rightarrow> u32" where "hi32 x = ucast (drop_bit 32 x)"

definition data_load :: "seccomp_data \<Rightarrow> u32 \<Rightarrow> u32 option" where
  "data_load d off =
     (let n = unat off in
      if n = 0 then Some (sd_nr d)
      else if n = 4 then Some (sd_arch d)
      else if n = 8 then Some (lo32 (sd_instruction_pointer d))
      else if n = 12 then Some (hi32 (sd_instruction_pointer d))
      else if 16 \<le> n \<and> n mod 4 = 0 \<and> (n - 16) div 8 < length (sd_args d)
      then (let x = sd_args d ! ((n - 16) div 8) in
            Some (if n mod 8 = 0 then lo32 x else hi32 x))
      else None)"

section \<open>The machine\<close>

locale bpf_machine =
  fixes run :: "(u32 \<Rightarrow> u32 option) \<Rightarrow> bpf_program \<Rightarrow> u32 \<Rightarrow> u32 option"
  assumes ld_abs: "ld off = Some v \<Longrightarrow>
      run ld (bpf_stmt (BPF_LD OR BPF_W OR BPF_ABS) off # p) a = run ld p v"
    and alu_and: "run ld (bpf_stmt (BPF_ALU OR BPF_AND OR BPF_K) m # p) a = run ld p (a AND m)"
    and jump_always: "unat n < length p \<Longrightarrow>
      run ld (bpf_stmt (BPF_JMP OR BPF_JA) n # p) a = run ld (drop (unat n) p) a"
    and jump_eq: "unat (if a = v then t else f) < length p \<Longrightarrow>
      run ld (bpf_jump (BPF_JMP OR BPF_JEQ OR BPF_K) v t f # p) a =
        run ld (drop (unat (if a = v then t else f)) p) a"
    and jump_gt: "unat (if v < a then t else f) < length p \<Longrightarrow>
      run ld (bpf_jump (BPF_JMP OR BPF_JGT OR BPF_K) v t f # p) a =
        run ld (drop (unat (if v < a then t else f)) p) a"
    and jump_ge: "unat (if v \<le> a then t else f) < length p \<Longrightarrow>
      run ld (bpf_jump (BPF_JMP OR BPF_JGE OR BPF_K) v t f # p) a =
        run ld (drop (unat (if v \<le> a then t else f)) p) a"
    and ret: "run ld (bpf_stmt (BPF_RET OR BPF_K) v # p) a = Some v"

text \<open>
  An interpreter of the emitted subset.  Jumps only go forward, so the rest of
  the program is the program counter and its length the termination measure.
\<close>

function bpf_run :: "(u32 \<Rightarrow> u32 option) \<Rightarrow> bpf_program \<Rightarrow> u32 \<Rightarrow> u32 option" where
  "bpf_run ld [] a = None"
| "bpf_run ld (i # p) a =
     (if sf_code i = 0x20 then (case ld (sf_k i) of None \<Rightarrow> None | Some v \<Rightarrow> bpf_run ld p v)
      else if sf_code i = 0x54 then bpf_run ld p (a AND sf_k i)
      else if sf_code i = 0x05 then bpf_run ld (drop (unat (sf_k i)) p) a
      else if sf_code i = 0x15 then bpf_run ld (drop (unat (if a = sf_k i then sf_jt i else sf_jf i)) p) a
      else if sf_code i = 0x25 then bpf_run ld (drop (unat (if sf_k i < a then sf_jt i else sf_jf i)) p) a
      else if sf_code i = 0x35 then bpf_run ld (drop (unat (if sf_k i \<le> a then sf_jt i else sf_jf i)) p) a
      else if sf_code i = 0x06 then Some (sf_k i)
      else None)"
  by pat_completeness auto

termination
  by (relation "measure (\<lambda>(_, p, _). length p)") auto

interpretation reference: bpf_machine bpf_run
  by unfold_locales (simp_all add: bpf_stmt_def bpf_jump_def bpf_codes)

section \<open>Words in halves\<close>

lemma unat_halves: "unat x = unat (hi32 x) * 2 ^ 32 + unat (lo32 x)"
proof -
  have "unat x div 2 ^ 32 < 2 ^ 32"
    using unsigned_less [of x, where 'a = nat] by (intro less_mult_imp_div_less) simp
  then have "unat (hi32 x) = unat x div 2 ^ 32"
    by (simp add: hi32_def unsigned_ucast_eq drop_bit_eq_div take_bit_eq_mod unat_div)
  moreover have "unat (lo32 x) = unat x mod 2 ^ 32"
    by (simp add: lo32_def unsigned_ucast_eq take_bit_eq_mod)
  ultimately show ?thesis by simp
qed

lemma halves_eq_iff: "x = y \<longleftrightarrow> hi32 x = hi32 y \<and> lo32 x = lo32 y"
  by (metis unat_halves word_unat_eq_iff)

lemma halves_less_iff: "x < y \<longleftrightarrow> hi32 x < hi32 y \<or> hi32 x = hi32 y \<and> lo32 x < lo32 y"
proof -
  have "unat (lo32 x) < 2 ^ 32" "unat (lo32 y) < 2 ^ 32"
    using unsigned_less [of "lo32 x", where 'a = nat] unsigned_less [of "lo32 y", where 'a = nat]
    by simp_all
  then show ?thesis
    using unat_halves [of x] unat_halves [of y]
    by (auto simp: word_less_nat_alt word_unat_eq_iff)
qed

lemma halves_le_iff: "x \<le> y \<longleftrightarrow> hi32 x < hi32 y \<or> hi32 x = hi32 y \<and> lo32 x \<le> lo32 y"
  using halves_less_iff [of x y] halves_eq_iff [of x y] by (auto simp: order_le_less)

lemma halves_and: "hi32 (x AND m) = hi32 x AND hi32 m" "lo32 (x AND m) = lo32 x AND lo32 m"
  by (simp_all add: hi32_def lo32_def unsigned_and_eq)

end
