(* ===== verification/SeccompCompiler.thy ===== *)
theory SeccompCompiler
  imports SeccompBpf
begin

text \<open>
  The compiler of seccompiler, \<^verbatim>\<open>backend/condition.rs\<close>, \<^verbatim>\<open>backend/rule.rs\<close> and
  \<^verbatim>\<open>backend/filter.rs\<close>: conditions, rules and filters, their constructors and
  their translation to BPF.  The translation works backwards and keeps jump
  offsets in a \<open>u8\<close>; the arithmetic is the wrapping one, and the proofs show
  that it never wraps.  A \<^verbatim>\<open>BTreeMap\<close> is the list of its entries in key order.
\<close>

section \<open>Conditions\<close>

record seccomp_condition =
  arg_index :: u8
  arg_len :: seccomp_cmp_arg_len
  operator :: seccomp_cmp_op
  cmp_value :: u64

definition condition_validate :: "seccomp_condition \<Rightarrow> (unit, backend_error) result" where
  "condition_validate c =
     (if ARG_NUMBER_MAX < arg_index c then Err InvalidArgumentNumber else Ok ())"

definition condition_new ::
    "u8 \<Rightarrow> seccomp_cmp_arg_len \<Rightarrow> seccomp_cmp_op \<Rightarrow> u64 \<Rightarrow> (seccomp_condition, backend_error) result"
  where "condition_new i l op v =
     (let c = \<lparr>arg_index = i, arg_len = l, operator = op, cmp_value = v\<rparr> in
      rbind (condition_validate c) (\<lambda>_. Ok c))"

definition get_data_offsets :: "seccomp_condition \<Rightarrow> u8 \<times> u8" where
  "get_data_offsets c =
     (let arg_offset = SECCOMP_DATA_ARGS_OFFSET + arg_index c * SECCOMP_DATA_ARG_SIZE in
      (arg_offset + SECCOMP_DATA_ARG_SIZE div 2, arg_offset))"

definition split_value :: "seccomp_condition \<Rightarrow> u32 \<times> u32" where
  "split_value c = (ucast (drop_bit 32 (cmp_value c)), ucast (cmp_value c))"

definition into_eq_bpf :: "seccomp_condition \<Rightarrow> u8 \<Rightarrow> bpf_program" where
  "into_eq_bpf c offset =
     (let (msb, lsb) = split_value c; (msb_offset, lsb_offset) = get_data_offsets c in
      (case arg_len c of Dword \<Rightarrow> [] | Qword \<Rightarrow>
        [bpf_stmt (BPF_LD OR BPF_W OR BPF_ABS) (ucast msb_offset),
         bpf_jump (BPF_JMP OR BPF_JEQ OR BPF_K) msb 0 (offset + 2)]) @
      [bpf_stmt (BPF_LD OR BPF_W OR BPF_ABS) (ucast lsb_offset),
       bpf_jump (BPF_JMP OR BPF_JEQ OR BPF_K) lsb 0 offset])"

definition into_ne_bpf :: "seccomp_condition \<Rightarrow> u8 \<Rightarrow> bpf_program" where
  "into_ne_bpf c offset =
     (let (msb, lsb) = split_value c; (msb_offset, lsb_offset) = get_data_offsets c in
      (case arg_len c of Dword \<Rightarrow> [] | Qword \<Rightarrow>
        [bpf_stmt (BPF_LD OR BPF_W OR BPF_ABS) (ucast msb_offset),
         bpf_jump (BPF_JMP OR BPF_JEQ OR BPF_K) msb 0 2]) @
      [bpf_stmt (BPF_LD OR BPF_W OR BPF_ABS) (ucast lsb_offset),
       bpf_jump (BPF_JMP OR BPF_JEQ OR BPF_K) lsb offset 0])"

definition into_ge_bpf :: "seccomp_condition \<Rightarrow> u8 \<Rightarrow> bpf_program" where
  "into_ge_bpf c offset =
     (let (msb, lsb) = split_value c; (msb_offset, lsb_offset) = get_data_offsets c in
      (case arg_len c of Dword \<Rightarrow> [] | Qword \<Rightarrow>
        [bpf_stmt (BPF_LD OR BPF_W OR BPF_ABS) (ucast msb_offset),
         bpf_jump (BPF_JMP OR BPF_JGT OR BPF_K) msb 3 0,
         bpf_jump (BPF_JMP OR BPF_JEQ OR BPF_K) msb 0 (offset + 2)]) @
      [bpf_stmt (BPF_LD OR BPF_W OR BPF_ABS) (ucast lsb_offset),
       bpf_jump (BPF_JMP OR BPF_JGE OR BPF_K) lsb 0 offset])"

definition into_gt_bpf :: "seccomp_condition \<Rightarrow> u8 \<Rightarrow> bpf_program" where
  "into_gt_bpf c offset =
     (let (msb, lsb) = split_value c; (msb_offset, lsb_offset) = get_data_offsets c in
      (case arg_len c of Dword \<Rightarrow> [] | Qword \<Rightarrow>
        [bpf_stmt (BPF_LD OR BPF_W OR BPF_ABS) (ucast msb_offset),
         bpf_jump (BPF_JMP OR BPF_JGT OR BPF_K) msb 3 0,
         bpf_jump (BPF_JMP OR BPF_JEQ OR BPF_K) msb 0 (offset + 2)]) @
      [bpf_stmt (BPF_LD OR BPF_W OR BPF_ABS) (ucast lsb_offset),
       bpf_jump (BPF_JMP OR BPF_JGT OR BPF_K) lsb 0 offset])"

definition into_le_bpf :: "seccomp_condition \<Rightarrow> u8 \<Rightarrow> bpf_program" where
  "into_le_bpf c offset =
     (let (msb, lsb) = split_value c; (msb_offset, lsb_offset) = get_data_offsets c in
      (case arg_len c of Dword \<Rightarrow> [] | Qword \<Rightarrow>
        [bpf_stmt (BPF_LD OR BPF_W OR BPF_ABS) (ucast msb_offset),
         bpf_jump (BPF_JMP OR BPF_JGT OR BPF_K) msb (offset + 3) 0,
         bpf_jump (BPF_JMP OR BPF_JEQ OR BPF_K) msb 0 2]) @
      [bpf_stmt (BPF_LD OR BPF_W OR BPF_ABS) (ucast lsb_offset),
       bpf_jump (BPF_JMP OR BPF_JGT OR BPF_K) lsb offset 0])"

definition into_lt_bpf :: "seccomp_condition \<Rightarrow> u8 \<Rightarrow> bpf_program" where
  "into_lt_bpf c offset =
     (let (msb, lsb) = split_value c; (msb_offset, lsb_offset) = get_data_offsets c in
      (case arg_len c of Dword \<Rightarrow> [] | Qword \<Rightarrow>
        [bpf_stmt (BPF_LD OR BPF_W OR BPF_ABS) (ucast msb_offset),
         bpf_jump (BPF_JMP OR BPF_JGT OR BPF_K) msb (offset + 3) 0,
         bpf_jump (BPF_JMP OR BPF_JEQ OR BPF_K) msb 0 2]) @
      [bpf_stmt (BPF_LD OR BPF_W OR BPF_ABS) (ucast lsb_offset),
       bpf_jump (BPF_JMP OR BPF_JGE OR BPF_K) lsb offset 0])"

definition into_masked_eq_bpf :: "seccomp_condition \<Rightarrow> u8 \<Rightarrow> u64 \<Rightarrow> bpf_program" where
  "into_masked_eq_bpf c0 offset m =
     (let c = c0\<lparr>cmp_value := cmp_value c0 AND m\<rparr>;
          (msb_offset, lsb_offset) = get_data_offsets c;
          (msb, lsb) = split_value c;
          (mask_msb, mask_lsb) = (ucast (drop_bit 32 m), ucast m) in
      (case arg_len c of Dword \<Rightarrow> [] | Qword \<Rightarrow>
        [bpf_stmt (BPF_LD OR BPF_W OR BPF_ABS) (ucast msb_offset),
         bpf_stmt (BPF_ALU OR BPF_AND OR BPF_K) mask_msb,
         bpf_jump (BPF_JMP OR BPF_JEQ OR BPF_K) msb 0 (offset + 3)]) @
      [bpf_stmt (BPF_LD OR BPF_W OR BPF_ABS) (ucast lsb_offset),
       bpf_stmt (BPF_ALU OR BPF_AND OR BPF_K) mask_lsb,
       bpf_jump (BPF_JMP OR BPF_JEQ OR BPF_K) lsb 0 offset])"

definition into_bpf :: "seccomp_condition \<Rightarrow> u8 \<Rightarrow> (bpf_program, backend_error) result" where
  "into_bpf c offset =
     (let bpf = (case operator c of
          Eq \<Rightarrow> into_eq_bpf c offset
        | Ge \<Rightarrow> into_ge_bpf c offset
        | Gt \<Rightarrow> into_gt_bpf c offset
        | Le \<Rightarrow> into_le_bpf c offset
        | Lt \<Rightarrow> into_lt_bpf c offset
        | MaskedEq m \<Rightarrow> into_masked_eq_bpf c offset m
        | Ne \<Rightarrow> into_ne_bpf c offset) in
      if length bpf \<le> unat CONDITION_MAX_LEN then Ok bpf else Panic)"

section \<open>Rules\<close>

record seccomp_rule =
  conditions :: "seccomp_condition list"

definition rule_validate :: "seccomp_rule \<Rightarrow> (unit, backend_error) result" where
  "rule_validate r = (if conditions r = [] then Err EmptyRule else Ok ())"

definition rule_new :: "seccomp_condition list \<Rightarrow> (seccomp_rule, backend_error) result" where
  "rule_new cs = (let r = \<lparr>conditions = cs\<rparr> in rbind (rule_validate r) (\<lambda>_. Ok r))"

definition append_condition ::
    "seccomp_condition \<Rightarrow> bpf_program list \<times> u8 \<Rightarrow> (bpf_program list \<times> u8, backend_error) result"
  where "append_condition c st =
     (let (accumulator, offset) = st;
          (accumulator, offset) =
            (if checked_add offset (CONDITION_MAX_LEN + 1) = None
             then (accumulator @
                     [[bpf_stmt (BPF_JMP OR BPF_JA) 2,
                       bpf_stmt (BPF_JMP OR BPF_JA) (ucast offset + 1),
                       bpf_stmt (BPF_JMP OR BPF_JA) (ucast offset + 1)]], 1)
             else (accumulator, offset)) in
      rbind (into_bpf c offset) (\<lambda>bpf.
      rbind (unwrap (if length bpf < 256 then Some (of_nat (length bpf)) else None)) (\<lambda>n.
      Ok (accumulator @ [bpf], offset + n))))"

definition rule_to_bpf :: "seccomp_rule \<Rightarrow> (bpf_program, backend_error) result" where
  "rule_to_bpf r =
     rbind (unwrap (checked_mul_usize (length (conditions r)) (unat CONDITION_MAX_LEN))) (\<lambda>_.
     rbind (rfold append_condition (conditions r) ([], 1)) (\<lambda>(accumulator, offset).
     (let accumulator = accumulator @
            [[bpf_stmt (BPF_JMP OR BPF_JA) 1,
              bpf_stmt (BPF_JMP OR BPF_JA) (ucast offset + 1)]] in
      Ok (concat (rev accumulator)))))"

section \<open>Filters\<close>

record seccomp_filter =
  rules :: "(int \<times> seccomp_rule list) list"
  mismatch_action :: seccomp_action
  match_action :: seccomp_action
  target :: target_arch

definition filter_validate :: "seccomp_filter \<Rightarrow> (unit, backend_error) result" where
  "filter_validate f =
     (if mismatch_action f = match_action f then Err IdenticalActions else Ok ())"

definition filter_new :: "(int \<times> seccomp_rule list) list \<Rightarrow> seccomp_action \<Rightarrow> seccomp_action
    \<Rightarrow> target_arch \<Rightarrow> (seccomp_filter, backend_error) result" where
  "filter_new rs mismatch mtch tgt =
     (let f = \<lparr>rules = rs, mismatch_action = mismatch, match_action = mtch, target = tgt\<rparr> in
      rbind (filter_validate f) (\<lambda>_. Ok f))"

definition syscall_number_to_u32 :: "int \<Rightarrow> u32 option" where
  "syscall_number_to_u32 n = (if 0 \<le> n \<and> n < 2 ^ 32 then Some (word_of_int n) else None)"

definition append_syscall_chain :: "libc_codes \<Rightarrow> seccomp_action \<Rightarrow> seccomp_action
    \<Rightarrow> int \<times> seccomp_rule list \<Rightarrow> bpf_program list \<Rightarrow> (bpf_program list, backend_error) result" where
  "append_syscall_chain lc mismatch mtch entry accumulator =
     (let (syscall_number, chain) = entry in
      rbind (rmap (\<lambda>r. rbind (rule_to_bpf r)
               (\<lambda>bpf. Ok (bpf @ [bpf_stmt (BPF_RET OR BPF_K) (action_code lc mtch)]))) chain)
        (\<lambda>chain.
      rbind (unwrap (syscall_number_to_u32 syscall_number)) (\<lambda>n.
      (let built_syscall =
            [bpf_jump (BPF_JMP OR BPF_JEQ OR BPF_K) n 0 1] @
            (if chain = [] then
               [bpf_stmt (BPF_JMP OR BPF_JA) 1,
                bpf_stmt (BPF_JMP OR BPF_JA) 2,
                bpf_stmt (BPF_RET OR BPF_K) (action_code lc mtch)]
             else concat chain) @
            [bpf_stmt (BPF_RET OR BPF_K) (action_code lc mismatch)] in
       Ok (accumulator @ [built_syscall])))))"

definition filter_try_from :: "libc_codes \<Rightarrow> seccomp_filter \<Rightarrow> (bpf_program, backend_error) result" where
  "filter_try_from lc f =
     (let start = build_arch_validation_sequence lc (target f) in
      if rules f = [] then
        Ok (start @ [bpf_stmt (BPF_RET OR BPF_K) (action_code lc (mismatch_action f))])
      else
        rbind (rfold (append_syscall_chain lc (mismatch_action f) (match_action f)) (rules f)
                 [[bpf_stmt (BPF_LD OR BPF_W OR BPF_ABS) (ucast SECCOMP_DATA_NR_OFFSET)]])
          (\<lambda>accumulator.
           let accumulator = accumulator @
                 [[bpf_stmt (BPF_RET OR BPF_K) (action_code lc (mismatch_action f))]];
               bpf = start @ concat accumulator in
           if BPF_MAX_LEN \<le> length bpf then Err (FilterTooLarge (length bpf)) else Ok bpf))"

section \<open>What a filter means\<close>

text \<open>A condition compares the argument, or its low half for \<open>Dword\<close>, with the value.\<close>

definition compare_op :: "seccomp_cmp_op \<Rightarrow> ('a::len word \<Rightarrow> 'a word \<Rightarrow> 'a word \<Rightarrow> bool)" where
  "compare_op op m x v =
     (case op of Eq \<Rightarrow> x = v | Ge \<Rightarrow> v \<le> x | Gt \<Rightarrow> v < x | Le \<Rightarrow> x \<le> v | Lt \<Rightarrow> x < v
      | MaskedEq _ \<Rightarrow> x AND m = v AND m | Ne \<Rightarrow> x \<noteq> v)"

definition op_mask :: "seccomp_cmp_op \<Rightarrow> u64" where
  "op_mask op = (case op of MaskedEq m \<Rightarrow> m | _ \<Rightarrow> 0)"

definition cond_holds :: "seccomp_data \<Rightarrow> seccomp_condition \<Rightarrow> bool" where
  "cond_holds d c =
     (let x = sd_args d ! unat (arg_index c); v = cmp_value c; op = operator c; m = op_mask op in
      case arg_len c of
        Dword \<Rightarrow> compare_op op (lo32 m) (lo32 x) (lo32 v)
      | Qword \<Rightarrow> compare_op op m x v)"

definition rule_matches :: "seccomp_data \<Rightarrow> seccomp_rule \<Rightarrow> bool" where
  "rule_matches d r = list_all (cond_holds d) (conditions r)"

definition chain_matches :: "seccomp_data \<Rightarrow> seccomp_rule list \<Rightarrow> bool" where
  "chain_matches d chain = (chain = [] \<or> list_ex (rule_matches d) chain)"

definition filter_verdict :: "seccomp_filter \<Rightarrow> seccomp_data \<Rightarrow> seccomp_action" where
  "filter_verdict f d =
     (if sd_arch d \<noteq> get_audit_value (target f) then KillProcess
      else case map_of (rules f) (uint (sd_nr d)) of
        None \<Rightarrow> mismatch_action f
      | Some chain \<Rightarrow> if chain_matches d chain then match_action f else mismatch_action f)"

definition valid_condition :: "seccomp_condition \<Rightarrow> bool" where
  "valid_condition c \<longleftrightarrow> arg_index c \<le> ARG_NUMBER_MAX"

definition valid_rule :: "seccomp_rule \<Rightarrow> bool" where
  "valid_rule r \<longleftrightarrow> list_all valid_condition (conditions r)"

definition valid_filter :: "seccomp_filter \<Rightarrow> bool" where
  "valid_filter f \<longleftrightarrow> list_all (\<lambda>(n, chain). list_all valid_rule chain) (rules f)"

section \<open>Running compiled conditions\<close>

lemma data_load_arg:
  assumes "i < length (sd_args d)"
  shows "unat off = 16 + 8 * i \<Longrightarrow> data_load d off = Some (lo32 (sd_args d ! i))"
    and "unat off = 20 + 8 * i \<Longrightarrow> data_load d off = Some (hi32 (sd_args d ! i))"
proof -
  have "(16 + 8 * i) mod 8 = 0" "(16 + 8 * i) mod 4 = 0" "(20 + 8 * i) mod 8 = 4"
    "(20 + 8 * i) mod 4 = 0" "(16 + 8 * i - 16) div 8 = i" "(20 + 8 * i - 16) div 8 = i"
    by presburger+
  then show "unat off = 16 + 8 * i \<Longrightarrow> data_load d off = Some (lo32 (sd_args d ! i))"
    and "unat off = 20 + 8 * i \<Longrightarrow> data_load d off = Some (hi32 (sd_args d ! i))"
    using assms by (simp_all add: data_load_def)
qed

lemma load_argument:
  assumes "valid_condition c" and "length (sd_args d) = 6"
  shows "data_load d (ucast (fst (get_data_offsets c))) = Some (hi32 (sd_args d ! unat (arg_index c)))"
    and "data_load d (ucast (snd (get_data_offsets c))) = Some (lo32 (sd_args d ! unat (arg_index c)))"
proof -
  have le: "unat (arg_index c) \<le> 5"
    using assms(1) by (simp add: valid_condition_def bpf_limits word_le_nat_alt)
  then have "unat (fst (get_data_offsets c)) = 20 + 8 * unat (arg_index c)"
    and "unat (snd (get_data_offsets c)) = 16 + 8 * unat (arg_index c)"
    by (simp_all add: get_data_offsets_def bpf_limits unat_word_ariths)
  then show "data_load d (ucast (fst (get_data_offsets c))) = Some (hi32 (sd_args d ! unat (arg_index c)))"
    and "data_load d (ucast (snd (get_data_offsets c))) = Some (lo32 (sd_args d ! unat (arg_index c)))"
    using le assms(2) by (simp_all add: data_load_arg)
qed

lemma unat_add_small:
  "unat (off :: u8) \<le> 252 \<Longrightarrow> unat (off + 2) = unat off + 2"
  "unat (off :: u8) \<le> 252 \<Longrightarrow> unat (off + 3) = unat off + 3"
  by (simp_all add: unat_word_ariths)

lemma unat_jump: "unat (ucast (off :: u8) + 1 :: u32) = Suc (unat off)"
  using unsigned_less [of off, where 'a = nat] by (simp add: unat_word_ariths)

lemmas emit_defs =
  into_eq_bpf_def into_ne_bpf_def into_ge_bpf_def into_gt_bpf_def into_le_bpf_def into_lt_bpf_def
  into_masked_eq_bpf_def

lemma length_into_bpf: "into_bpf c off = Ok p \<Longrightarrow> 0 < length p \<and> length p \<le> 6"
  by (auto simp: into_bpf_def Let_def bpf_limits emit_defs split_beta
      split: if_splits seccomp_cmp_op.splits)

lemma into_bpf_total: "\<exists>p. into_bpf c off = Ok p"
  by (auto simp: into_bpf_def Let_def bpf_limits emit_defs split_beta
      split: seccomp_cmp_op.splits seccomp_cmp_arg_len.splits)

lemma lo32_drop_bit: "lo32 (drop_bit 32 x) = hi32 x"
  by (simp add: hi32_def lo32_def)

lemma split_value_eq: "split_value c = (hi32 (cmp_value c), lo32 (cmp_value c))"
  by (simp add: split_value_def hi32_def lo32_def)

context bpf_machine
begin

text \<open>\<open>leads d p a q\<close>: from the start of \<open>p\<close> the run continues at \<open>q\<close>, with some accumulator.\<close>

definition leads :: "seccomp_data \<Rightarrow> bpf_program \<Rightarrow> u32 \<Rightarrow> bpf_program \<Rightarrow> bool" where
  "leads d p a q \<longleftrightarrow> (\<exists>a'. run (data_load d) p a = run (data_load d) q a')"

lemma leads_refl [simp]: "leads d p a p"
  by (auto simp: leads_def)

lemma leads_step:
  "data_load d off = Some v \<Longrightarrow>
     leads d (bpf_stmt (BPF_LD OR BPF_W OR BPF_ABS) off # p) a q = leads d p v q"
  "leads d (bpf_stmt (BPF_ALU OR BPF_AND OR BPF_K) m # p) a q = leads d p (a AND m) q"
  "unat (if a = w then t else f) < length p \<Longrightarrow>
     leads d (bpf_jump (BPF_JMP OR BPF_JEQ OR BPF_K) w t f # p) a q =
       leads d (drop (unat (if a = w then t else f)) p) a q"
  "unat (if w < a then t else f) < length p \<Longrightarrow>
     leads d (bpf_jump (BPF_JMP OR BPF_JGT OR BPF_K) w t f # p) a q =
       leads d (drop (unat (if w < a then t else f)) p) a q"
  "unat (if w \<le> a then t else f) < length p \<Longrightarrow>
     leads d (bpf_jump (BPF_JMP OR BPF_JGE OR BPF_K) w t f # p) a q =
       leads d (drop (unat (if w \<le> a then t else f)) p) a q"
  by (simp_all add: leads_def ld_abs alu_and jump_eq jump_gt jump_ge)

lemma leads_condition:
  assumes "into_bpf c off = Ok p" and "valid_condition c" and "length (sd_args d) = 6"
    and "unat off \<le> 252" and "unat off < length rest"
  shows "leads d (p @ rest) a (if cond_holds d c then rest else drop (unat off) rest)"
proof -
  obtain x where x: "x = sd_args d ! unat (arg_index c)" by simp
  note load = load_argument [OF assms(2,3), folded x]
  note off = unat_add_small [OF assms(4)]
  have "rest \<noteq> []" using assms(5) by auto
  obtain mo lo where offs: "get_data_offsets c = (mo, lo)" by (cases "get_data_offsets c")
  have offs': "get_data_offsets (c\<lparr>cmp_value := v\<rparr>) = (mo, lo)" for v
    using offs by (simp add: get_data_offsets_def)
  note defs = into_bpf_def emit_defs split_value_eq offs offs' x [symmetric] cond_holds_def
    compare_op_def op_mask_def bpf_limits
  show ?thesis
  proof (cases "arg_len c")
    case Dword
    then show ?thesis
      using assms(1,5) load offs \<open>rest \<noteq> []\<close>
      by (cases "operator c") (auto simp: defs leads_step halves_and simp flip: lo32_def hi32_def)
  next
    case Qword
    then show ?thesis
      using assms(1,5) load offs off \<open>rest \<noteq> []\<close>
      by (cases "operator c") (auto simp: defs leads_step halves_and halves_eq_iff halves_less_iff
          halves_le_iff lo32_drop_bit drop_Cons' simp flip: lo32_def hi32_def)
  qed
qed

text \<open>
  What holds of the code \<open>p\<close> of the conditions \<open>cs\<close> of a rule and the offset the builder
  carries, in front of the rest \<open>q\<close> of the program (the on-match action comes first in \<open>q\<close>,
  the next rule second): running it decides the conditions, a jump over \<open>off\<close> instructions
  leaves the rule, and one instruction further leaves the chain, with the accumulator kept.
\<close>

definition rule_code :: "seccomp_data \<Rightarrow> seccomp_condition list \<Rightarrow> bpf_program \<Rightarrow> u8 \<Rightarrow> bpf_program \<Rightarrow> bool"
  where "rule_code d cs p off q \<longleftrightarrow>
    Suc (unat off) < length (p @ q) \<and>
    (\<forall>a. leads d (p @ q) a (if list_all (cond_holds d) cs then q else drop 1 q)) \<and>
    (\<forall>a. run (data_load d) (drop (unat off) (p @ q)) a = run (data_load d) (drop 1 q) a) \<and>
    (\<forall>a. run (data_load d) (drop (Suc (unat off)) (p @ q)) a = run (data_load d) (drop 2 q) a)"

lemma leads_trans: "leads d p a q \<Longrightarrow> (\<And>b. leads d q b r) \<Longrightarrow> leads d p a r"
  unfolding leads_def by metis

lemma leads_eq: "(\<And>a. run (data_load d) q a = run (data_load d) r a) \<Longrightarrow> leads d p a q = leads d p a r"
  unfolding leads_def by simp

lemma rule_code_start: "2 < length q \<Longrightarrow> rule_code d [] [] 1 q"
  by (simp add: rule_code_def numeral_2_eq_2)

lemma rule_code_condition:
  assumes code: "rule_code d cs p off q" and c: "into_bpf c off = Ok b" "valid_condition c"
    and "length (sd_args d) = 6" and off: "unat off \<le> 248"
  shows "rule_code d (c # cs) (b @ p) (off + of_nat (length b)) q"
proof -
  have len: "unat (off + of_nat (length b)) = unat off + length b"
    using length_into_bpf [OF c(1)] off by (simp add: unat_word_ariths unat_of_nat)
  have "leads d (b @ p @ q) a (if list_all (cond_holds d) (c # cs) then q else drop 1 q)" for a
  proof -
    have "leads d (b @ p @ q) a (if cond_holds d c then p @ q else drop (unat off) (p @ q))"
      using assms by (intro leads_condition) (auto simp: rule_code_def)
    then show ?thesis
      using code leads_eq [of d "drop (unat off) (p @ q)" "drop 1 q"]
      by (cases "cond_holds d c") (auto simp: rule_code_def elim!: leads_trans)
  qed
  then show ?thesis
    using code unfolding rule_code_def len by simp
qed

lemma rule_code_helpers:
  assumes "rule_code d cs p off q"
  shows "rule_code d cs ([bpf_stmt (BPF_JMP OR BPF_JA) 2,
      bpf_stmt (BPF_JMP OR BPF_JA) (ucast off + 1),
      bpf_stmt (BPF_JMP OR BPF_JA) (ucast off + 1)] @ p) 1 q"
proof -
  have "0 < length p + length q" using assms by (auto simp: rule_code_def)
  then have "run (data_load d) (bpf_stmt (BPF_JMP OR BPF_JA) 2 # x # y # p @ q) a =
      run (data_load d) (p @ q) a" for x y a
    using jump_always [of 2 "x # y # p @ q"] by simp
  then show ?thesis
    using assms by (simp add: rule_code_def leads_def jump_always unat_jump numeral_2_eq_2)
qed

lemma rule_code_append:
  assumes "append_condition c (acc, off) = Ok (acc', off')"
    and "rule_code d cs (concat (rev acc)) off q" and "valid_condition c" and "length (sd_args d) = 6"
  shows "rule_code d (c # cs) (concat (rev acc')) off' q"
proof (cases "checked_add off (CONDITION_MAX_LEN + 1) = None")
  case True
  with assms(1) obtain b where b: "into_bpf c 1 = Ok b" "off' = 1 + of_nat (length b)"
    "concat (rev acc') = b @ [bpf_stmt (BPF_JMP OR BPF_JA) 2,
      bpf_stmt (BPF_JMP OR BPF_JA) (ucast off + 1),
      bpf_stmt (BPF_JMP OR BPF_JA) (ucast off + 1)] @ concat (rev acc)"
    by (auto simp: append_condition_def rbind_eq_Ok_iff unwrap_def split: if_splits)
  show ?thesis unfolding b(2,3)
    using assms b(1) by (intro rule_code_condition rule_code_helpers) auto
next
  case False
  then have "unat off \<le> 248" 
    by (auto simp: checked_add_None_iff bpf_limits)
  with False assms(1) obtain b where b: "into_bpf c off = Ok b" "off' = off + of_nat (length b)"
    "concat (rev acc') = b @ concat (rev acc)"
    by (auto simp: append_condition_def rbind_eq_Ok_iff unwrap_def split: if_splits)
  show ?thesis unfolding b(2,3)
    using assms b(1) \<open>unat off \<le> 248\<close> by (intro rule_code_condition) auto
qed

lemma rule_to_bpf_runs:
  assumes "rule_to_bpf r = Ok p" and "valid_rule r" and "length (sd_args d) = 6" and "2 < length q"
  shows "leads d (p @ q) a (if rule_matches d r then q else drop 1 q)"
    and "run (data_load d) (drop 1 (p @ q)) a = run (data_load d) (drop 2 q) a"
proof -
  from assms(1) obtain acc off where
    fold: "rfold append_condition (conditions r) ([], 1) = Ok (acc, off)" and
    p: "p = [bpf_stmt (BPF_JMP OR BPF_JA) 1, bpf_stmt (BPF_JMP OR BPF_JA) (ucast off + 1)] @ concat (rev acc)"
    by (auto simp: rule_to_bpf_def rbind_eq_Ok_iff Let_def)
  have "case (acc, off) of (acc, off) \<Rightarrow> rule_code d (rev (conditions r)) (concat (rev acc)) off q"
    using fold
  proof (rule rfold_induct_Ok)
    show "case ([], 1) of (acc, off) \<Rightarrow> rule_code d [] (concat (rev acc)) off q"
      using assms(4) by (simp add: rule_code_start)
  next
    fix c s t ys
    assume "c \<in> set (conditions r)" and "append_condition c s = Ok t"
      and "case s of (acc, off) \<Rightarrow> rule_code d ys (concat (rev acc)) off q"
    then show "case t of (acc, off) \<Rightarrow> rule_code d (c # ys) (concat (rev acc)) off q"
      using assms(2,3) by (auto simp: valid_rule_def list_all_iff split: prod.splits intro: rule_code_append)
  qed
  then have code: "rule_code d (rev (conditions r)) (concat (rev acc)) off q" by simp
  moreover have "run (data_load d) (p @ q) a = run (data_load d) (concat (rev acc) @ q) a" for a
    using jump_always [of 1 "x # concat (rev acc) @ q" for x] assms(4) by (cases q) (simp_all add: p)
  ultimately show "leads d (p @ q) a (if rule_matches d r then q else drop 1 q)"
    by (simp add: rule_code_def rule_matches_def list_all_rev leads_def)
  show "run (data_load d) (drop 1 (p @ q)) a = run (data_load d) (drop 2 q) a"
    using code by (simp add: p rule_code_def jump_always unat_jump)
qed

lemma chain_runs:
  assumes "rmap (\<lambda>r. rbind (rule_to_bpf r) (\<lambda>bpf. Ok (bpf @ [bpf_stmt (BPF_RET OR BPF_K) m]))) chain = Ok ps"
    and "list_all valid_rule chain" and "length (sd_args d) = 6" and "rest \<noteq> []"
  shows "(\<forall>a. run (data_load d) (concat ps @ bpf_stmt (BPF_RET OR BPF_K) v # rest) a =
             Some (if list_ex (rule_matches d) chain then m else v)) \<and>
         (chain \<noteq> [] \<longrightarrow>
           (\<forall>a. run (data_load d) (drop 1 (concat ps @ bpf_stmt (BPF_RET OR BPF_K) v # rest)) a =
              run (data_load d) rest a))"
  using assms(1,2)
proof (induction chain arbitrary: ps)
  case Nil
  then show ?case by (simp add: ret)
next
  case (Cons r chain)
  from Cons.prems(1) obtain p ps' where
    p: "rule_to_bpf r = Ok p" "ps = (p @ [bpf_stmt (BPF_RET OR BPF_K) m]) # ps'" and
    ps': "rmap (\<lambda>r. rbind (rule_to_bpf r) (\<lambda>bpf. Ok (bpf @ [bpf_stmt (BPF_RET OR BPF_K) m]))) chain = Ok ps'"
    by (auto simp: rbind_eq_Ok_iff)
  obtain q where q: "q = concat ps' @ bpf_stmt (BPF_RET OR BPF_K) v # rest" by simp
  note IH = Cons.IH [OF ps', folded q]
  have len: "2 < length (bpf_stmt (BPF_RET OR BPF_K) m # q)"
    using assms(4) by (cases rest) (auto simp: q)
  have vr: "valid_rule r" "list_all valid_rule chain" using Cons.prems(2) by auto
  note rule = rule_to_bpf_runs [OF p(1) vr(1) assms(3) len]
  have goal: "concat ps @ bpf_stmt (BPF_RET OR BPF_K) v # rest = p @ bpf_stmt (BPF_RET OR BPF_K) m # q"
    by (simp add: p(2) q)
  have "run (data_load d) (drop 1 q) a = run (data_load d) rest a" for a
    using IH vr(2) ps' by (cases "chain = []") (auto simp: q)
  moreover have "run (data_load d) (p @ bpf_stmt (BPF_RET OR BPF_K) m # q) a =
      Some (if rule_matches d r \<or> list_ex (rule_matches d) chain then m else v)" for a
    using rule(1) [of a] IH vr(2) by (cases "rule_matches d r") (auto simp: leads_def ret)
  ultimately show ?case
    unfolding goal using rule(2) by (simp add: numeral_2_eq_2)
qed

text \<open>The code of one syscall decides it, and passes every other number on unchanged.\<close>

definition syscall_code :: "seccomp_data \<Rightarrow> u32 \<Rightarrow> u32 \<Rightarrow> int \<times> seccomp_rule list \<Rightarrow> bpf_program \<Rightarrow> bool" where
  "syscall_code d v m entry b \<longleftrightarrow> (\<forall>rest a. rest \<noteq> [] \<longrightarrow> run (data_load d) (b @ rest) a =
     (if uint a = fst entry then Some (if chain_matches d (snd entry) then m else v)
      else run (data_load d) rest a))"

lemma append_syscall_chain_code:
  assumes "append_syscall_chain lc mis mtch (n, chain) acc = Ok acc'"
    and valid: "list_all valid_rule chain" and args: "length (sd_args d) = 6"
  shows "\<exists>b. acc' = acc @ [b] \<and> syscall_code d (action_code lc mis) (action_code lc mtch) (n, chain) b"
proof -
  let ?ret = "\<lambda>x. bpf_stmt (BPF_RET OR BPF_K) (action_code lc x)"
  from assms(1) obtain ps where
    ps: "rmap (\<lambda>r. rbind (rule_to_bpf r) (\<lambda>bpf. Ok (bpf @ [?ret mtch]))) chain = Ok ps" and
    n: "0 \<le> n" "n < 2 ^ 32" and
    acc': "acc' = acc @ [[bpf_jump (BPF_JMP OR BPF_JEQ OR BPF_K) (word_of_int n) 0 1] @
            (if ps = [] then [bpf_stmt (BPF_JMP OR BPF_JA) 1, bpf_stmt (BPF_JMP OR BPF_JA) 2, ?ret mtch]
             else concat ps) @ [?ret mis]]"
    by (auto simp: append_syscall_chain_def rbind_eq_Ok_iff Let_def unwrap_def syscall_number_to_u32_def
        split: if_splits)
  have iff: "a = word_of_int n \<longleftrightarrow> uint a = n" for a :: u32
    using n by (simp add: word_uint_eq_iff uint_word_of_int)
  have "ps = [] \<longleftrightarrow> chain = []"
    using ps by (cases chain) (auto simp: rbind_eq_Ok_iff)
  then have "syscall_code d (action_code lc mis) (action_code lc mtch) (n, chain)
      ([bpf_jump (BPF_JMP OR BPF_JEQ OR BPF_K) (word_of_int n) 0 1] @
            (if ps = [] then [bpf_stmt (BPF_JMP OR BPF_JA) 1, bpf_stmt (BPF_JMP OR BPF_JA) 2, ?ret mtch]
             else concat ps) @ [?ret mis])"
    using chain_runs [OF ps valid args]
    by (auto simp: syscall_code_def chain_matches_def jump_eq jump_always iff ret)
  then show ?thesis using acc' by blast
qed

lemma syscalls_code:
  assumes "rfold (append_syscall_chain lc mis mtch) entries acc = Ok acc'"
    and "list_all (\<lambda>(n, chain). list_all valid_rule chain) entries" and "length (sd_args d) = 6"
  shows "\<exists>bs. acc' = acc @ bs \<and>
    list_all2 (syscall_code d (action_code lc mis) (action_code lc mtch)) entries bs"
  using assms(1,2)
proof (induction entries arbitrary: acc)
  case Nil
  then show ?case by simp
next
  case (Cons e entries)
  obtain n chain where e: "e = (n, chain)" by (cases e)
  from Cons.prems(1) obtain acc1 where
    1: "append_syscall_chain lc mis mtch (n, chain) acc = Ok acc1" and
    2: "rfold (append_syscall_chain lc mis mtch) entries acc1 = Ok acc'"
    by (auto simp: rbind_eq_Ok_iff e)
  from append_syscall_chain_code [OF 1 _ assms(3)] Cons.prems(2) obtain b where
    b: "acc1 = acc @ [b]" "syscall_code d (action_code lc mis) (action_code lc mtch) e b"
    by (auto simp: e)
  from Cons.IH [OF 2] Cons.prems(2) obtain bs where
    "acc' = acc1 @ bs" "list_all2 (syscall_code d (action_code lc mis) (action_code lc mtch)) entries bs"
    by auto
  with b show ?case by (intro exI [of _ "b # bs"]) simp
qed

lemma syscalls_run:
  assumes "list_all2 (syscall_code d v m) entries bs"
  shows "run (data_load d) (concat bs @ [bpf_stmt (BPF_RET OR BPF_K) v]) a =
    Some (case map_of entries (uint a) of None \<Rightarrow> v | Some chain \<Rightarrow> if chain_matches d chain then m else v)"
  using assms
  by (induction rule: list_all2_induct) (auto simp: ret syscall_code_def)

theorem filter_runs:
  assumes compiled: "filter_try_from lc f = Ok p" and valid: "valid_filter f"
    and args: "length (sd_args d) = 6"
  shows "run (data_load d) p a = Some (action_code lc (filter_verdict f d))"
proof -
  have arch: "run (data_load d) (build_arch_validation_sequence lc (target f) @ x # q) a =
      (if sd_arch d = get_audit_value (target f) then run (data_load d) (x # q) (sd_arch d)
       else Some (SECCOMP_RET_KILL_PROCESS lc))" for x q
    by (simp add: build_arch_validation_sequence_def ld_abs [where v = "sd_arch d"] jump_eq ret
        data_load_def bpf_limits)
  show ?thesis
  proof (cases "rules f = []")
    case True
    with compiled show ?thesis
      by (auto simp: filter_try_from_def arch ret filter_verdict_def)
  next
    case False
    with compiled obtain acc where
      acc: "rfold (append_syscall_chain lc (mismatch_action f) (match_action f)) (rules f)
        [[bpf_stmt (BPF_LD OR BPF_W OR BPF_ABS) (ucast SECCOMP_DATA_NR_OFFSET)]] = Ok acc" and
      p: "p = build_arch_validation_sequence lc (target f) @
        concat acc @ [bpf_stmt (BPF_RET OR BPF_K) (action_code lc (mismatch_action f))]"
      by (auto simp: filter_try_from_def rbind_eq_Ok_iff Let_def split: if_splits)
    from syscalls_code [OF acc _ args] valid obtain bs where
      bs: "acc = [bpf_stmt (BPF_LD OR BPF_W OR BPF_ABS) (ucast SECCOMP_DATA_NR_OFFSET)] # bs"
      "list_all2 (syscall_code d (action_code lc (mismatch_action f)) (action_code lc (match_action f)))
        (rules f) bs"
      by (auto simp: valid_filter_def)
    show ?thesis
      using syscalls_run [OF bs(2)]
      by (auto simp: p bs(1) arch filter_verdict_def ld_abs [where v = "sd_nr d"] data_load_def bpf_limits
          split: option.splits)
  qed
qed

end

section \<open>Compilation succeeds, and its jumps stay inside\<close>

text \<open>The structural check the kernel makes before it accepts a filter.\<close>

definition jump_inside :: "sock_filter \<Rightarrow> nat \<Rightarrow> bool" where
  "jump_inside i n \<longleftrightarrow>
     (if sf_code i = BPF_JMP OR BPF_JA then unat (sf_k i) < n
      else if sf_code i \<in> {BPF_JMP OR BPF_JEQ OR BPF_K, BPF_JMP OR BPF_JGT OR BPF_K, BPF_JMP OR BPF_JGE OR BPF_K}
      then unat (sf_jt i) < n \<and> unat (sf_jf i) < n
      else sf_code i = BPF_RET OR BPF_K \<or> 0 < n)"

fun jumps_inside :: "bpf_program \<Rightarrow> bool" where
  "jumps_inside [] = True"
| "jumps_inside (i # p) = (jump_inside i (length p) \<and> jumps_inside p)"

lemma jump_inside_simps [simp]:
  "jump_inside (bpf_stmt (BPF_LD OR BPF_W OR BPF_ABS) x) n = (0 < n)"
  "jump_inside (bpf_stmt (BPF_ALU OR BPF_AND OR BPF_K) x) n = (0 < n)"
  "jump_inside (bpf_stmt (BPF_JMP OR BPF_JA) x) n = (unat x < n)"
  "jump_inside (bpf_stmt (BPF_RET OR BPF_K) x) n"
  "jump_inside (bpf_jump (BPF_JMP OR BPF_JEQ OR BPF_K) x t f) n = (unat t < n \<and> unat f < n)"
  "jump_inside (bpf_jump (BPF_JMP OR BPF_JGT OR BPF_K) x t f) n = (unat t < n \<and> unat f < n)"
  "jump_inside (bpf_jump (BPF_JMP OR BPF_JGE OR BPF_K) x t f) n = (unat t < n \<and> unat f < n)"
  by (simp_all add: jump_inside_def bpf_stmt_def bpf_jump_def bpf_codes)

lemma condition_jumps:
  assumes "into_bpf c off = Ok b" and "unat off \<le> 248" and "unat off < length rest"
  shows "jumps_inside (b @ rest) = jumps_inside rest"
  using assms unat_add_small [of off]
  by (cases "operator c"; cases "arg_len c")
     (auto simp: into_bpf_def emit_defs split_beta Let_def bpf_limits)

lemma append_condition_total: "\<exists>st. append_condition c (acc, off) = Ok st"
proof -
  obtain b b' where "into_bpf c 1 = Ok b" "into_bpf c off = Ok b'"
    using into_bpf_total by metis
  with length_into_bpf [OF this(1)] length_into_bpf [OF this(2)] show ?thesis
    by (auto simp: append_condition_def)
qed

lemma append_condition_jumps:
  assumes "append_condition c (acc, off) = Ok (acc', off')"
    and "Suc (unat off) < length (concat (rev acc) @ q)" and "jumps_inside (concat (rev acc) @ q)"
  shows "Suc (unat off') < length (concat (rev acc') @ q) \<and> jumps_inside (concat (rev acc') @ q)"
proof (cases "checked_add off (CONDITION_MAX_LEN + 1) = None")
  case True
  with assms(1) obtain b where b: "into_bpf c 1 = Ok b" "off' = 1 + of_nat (length b)"
    "concat (rev acc') = b @ [bpf_stmt (BPF_JMP OR BPF_JA) 2,
      bpf_stmt (BPF_JMP OR BPF_JA) (ucast off + 1),
      bpf_stmt (BPF_JMP OR BPF_JA) (ucast off + 1)] @ concat (rev acc)"
    by (auto simp: append_condition_def rbind_eq_Ok_iff unwrap_def split: if_splits)
  have "unat off' = 1 + length b"
    using length_into_bpf [OF b(1)] by (simp add: b(2) unat_word_ariths unat_of_nat)
  then show ?thesis
    using assms(2,3) condition_jumps [OF b(1)] by (auto simp: b(3) unat_jump simp del: add_gr_0)
next
  case False
  then have off: "unat off \<le> 248"
    by (auto simp: checked_add_None_iff bpf_limits)
  with False assms(1) obtain b where b: "into_bpf c off = Ok b" "off' = off + of_nat (length b)"
    "concat (rev acc') = b @ concat (rev acc)"
    by (auto simp: append_condition_def rbind_eq_Ok_iff unwrap_def split: if_splits)
  have "unat off' = unat off + length b"
    using length_into_bpf [OF b(1)] off by (simp add: b(2) unat_word_ariths unat_of_nat)
  then show ?thesis
    using assms(2,3) condition_jumps [OF b(1) off] by (simp add: b(3))
qed

lemma rule_jumps:
  assumes "rule_to_bpf r = Ok p" and "2 < length q" and "jumps_inside q"
  shows "jumps_inside (p @ q)"
proof -
  from assms(1) obtain acc off where
    fold: "rfold append_condition (conditions r) ([], 1) = Ok (acc, off)" and
    p: "p = [bpf_stmt (BPF_JMP OR BPF_JA) 1, bpf_stmt (BPF_JMP OR BPF_JA) (ucast off + 1)] @ concat (rev acc)"
    by (auto simp: rule_to_bpf_def rbind_eq_Ok_iff Let_def)
  have "case (acc, off) of (acc, off) \<Rightarrow>
      Suc (unat off) < length (concat (rev acc) @ q) \<and> jumps_inside (concat (rev acc) @ q)"
    using fold
    by (rule rfold_induct_Ok [where P = "\<lambda>_ (acc, off).
      Suc (unat off) < length (concat (rev acc) @ q) \<and> jumps_inside (concat (rev acc) @ q)"])
      (use assms(2,3) append_condition_jumps in \<open>auto split: prod.splits\<close>)
  then show ?thesis using assms(2) by (auto simp: p unat_jump)
qed

lemma chain_jumps:
  assumes "rmap (\<lambda>r. rbind (rule_to_bpf r) (\<lambda>bpf. Ok (bpf @ [bpf_stmt (BPF_RET OR BPF_K) m]))) chain = Ok ps"
    and "1 < length q" and "jumps_inside q"
  shows "jumps_inside (concat ps @ q)"
  using assms(1)
proof (induction chain arbitrary: ps)
  case Nil
  then show ?case using assms(3) by simp
next
  case (Cons r chain)
  then obtain p ps' where "rule_to_bpf r = Ok p" "ps = (p @ [bpf_stmt (BPF_RET OR BPF_K) m]) # ps'"
    "jumps_inside (concat ps' @ q)"
    by (auto simp: rbind_eq_Ok_iff)
  then show ?case using assms(2) rule_jumps [of r p "bpf_stmt (BPF_RET OR BPF_K) m # concat ps' @ q"] by simp
qed

lemma syscalls_jumps:
  assumes "rfold (append_syscall_chain lc mis mtch) entries acc = Ok acc'"
  shows "\<exists>bs. acc' = acc @ bs \<and> (\<forall>q. q \<noteq> [] \<and> jumps_inside q \<longrightarrow> jumps_inside (concat bs @ q))"
  using assms
proof (induction entries arbitrary: acc)
  case Nil
  then show ?case by simp
next
  case (Cons e entries)
  from Cons.prems obtain acc1 where
    1: "append_syscall_chain lc mis mtch e acc = Ok acc1" and
    2: "rfold (append_syscall_chain lc mis mtch) entries acc1 = Ok acc'"
    by (auto simp: rbind_eq_Ok_iff)
  from Cons.IH [OF 2] obtain bs where
    bs: "acc' = acc1 @ bs" "\<And>q. q \<noteq> [] \<Longrightarrow> jumps_inside q \<Longrightarrow> jumps_inside (concat bs @ q)"
    by auto
  let ?ret = "\<lambda>x. bpf_stmt (BPF_RET OR BPF_K) (action_code lc x)"
  from 1 obtain ps n where
    ps: "rmap (\<lambda>r. rbind (rule_to_bpf r) (\<lambda>bpf. Ok (bpf @ [?ret mtch]))) (snd e) = Ok ps" and
    acc1: "acc1 = acc @ [[bpf_jump (BPF_JMP OR BPF_JEQ OR BPF_K) n 0 1] @
            (if ps = [] then [bpf_stmt (BPF_JMP OR BPF_JA) 1, bpf_stmt (BPF_JMP OR BPF_JA) 2, ?ret mtch]
             else concat ps) @ [?ret mis]]"
    by (auto simp: append_syscall_chain_def rbind_eq_Ok_iff Let_def split: prod.splits)
  have "jumps_inside (concat (([bpf_jump (BPF_JMP OR BPF_JEQ OR BPF_K) n 0 1] @
            (if ps = [] then [bpf_stmt (BPF_JMP OR BPF_JA) 1, bpf_stmt (BPF_JMP OR BPF_JA) 2, ?ret mtch]
             else concat ps) @ [?ret mis]) # bs) @ q)" if "q \<noteq> []" "jumps_inside q" for q
  proof -
    have "0 < length q" using that by simp
    then show ?thesis
      using bs(2) [OF that] chain_jumps [OF ps, of "?ret mis # concat bs @ q"] by auto
  qed
  then show ?case unfolding bs(1) acc1 by (intro exI conjI) (auto simp del: concat.simps)
qed

definition compilable :: "seccomp_filter \<Rightarrow> bool" where
  "compilable f \<longleftrightarrow> list_all (\<lambda>(n, chain). 0 \<le> n \<and> n < 2 ^ 32 \<and>
     list_all (\<lambda>r. length (conditions r) * 6 < 2 ^ 64) chain) (rules f)"

lemma rule_to_bpf_total:
  assumes "length (conditions r) * 6 < 2 ^ 64"
  shows "\<exists>p. rule_to_bpf r = Ok p"
proof -
  have "\<exists>st. rfold append_condition (conditions r) ([], 1) = Ok st"
    by (rule rfold_total) (metis append_condition_total surj_pair)
  then show ?thesis
    using assms by (auto simp: rule_to_bpf_def checked_mul_usize_def bpf_limits split_beta)
qed

lemma append_syscall_chain_total:
  assumes "0 \<le> n" "n < 2 ^ 32" "list_all (\<lambda>r. length (conditions r) * 6 < 2 ^ 64) chain"
  shows "\<exists>acc'. append_syscall_chain lc mis mtch (n, chain) acc = Ok acc'"
proof -
  have "\<exists>ps. rmap (\<lambda>r. rbind (rule_to_bpf r)
      (\<lambda>bpf. Ok (bpf @ [bpf_stmt (BPF_RET OR BPF_K) (action_code lc mtch)]))) chain = Ok ps"
    using assms(3) rule_to_bpf_total by (intro rmap_total) (force simp: list_all_iff)
  then show ?thesis
    using assms(1,2) by (auto simp: append_syscall_chain_def syscall_number_to_u32_def Let_def)
qed

lemma filter_compiles:
  assumes "compilable f"
  shows "(\<exists>p. filter_try_from lc f = Ok p) \<or>
    (\<exists>n. filter_try_from lc f = Err (FilterTooLarge n) \<and> BPF_MAX_LEN \<le> n)"
proof -
  have "\<exists>acc. rfold (append_syscall_chain lc (mismatch_action f) (match_action f)) (rules f)
      [[bpf_stmt (BPF_LD OR BPF_W OR BPF_ABS) (ucast SECCOMP_DATA_NR_OFFSET)]] = Ok acc"
  proof (rule rfold_total)
    fix e s assume "e \<in> set (rules f)"
    then have "0 \<le> fst e" "fst e < 2 ^ 32" "list_all (\<lambda>r. length (conditions r) * 6 < 2 ^ 64) (snd e)"
      using assms by (auto simp: compilable_def list_all_iff split_beta)
    then show "\<exists>t. append_syscall_chain lc (mismatch_action f) (match_action f) e s = Ok t"
      using append_syscall_chain_total [of "fst e" "snd e"] by simp
  qed
  then obtain acc where acc: "rfold (append_syscall_chain lc (mismatch_action f) (match_action f)) (rules f)
      [[bpf_stmt (BPF_LD OR BPF_W OR BPF_ABS) (ucast SECCOMP_DATA_NR_OFFSET)]] = Ok acc" by blast
  show ?thesis
    unfolding filter_try_from_def Let_def acc rbind_simps by (simp split: if_split)
qed

lemma filter_jumps:
  assumes "filter_try_from lc f = Ok p"
  shows "jumps_inside p" and "length p < BPF_MAX_LEN"
proof -
  let ?ret = "bpf_stmt (BPF_RET OR BPF_K) (action_code lc (mismatch_action f))"
  have "jumps_inside p \<and> length p < BPF_MAX_LEN"
  proof (cases "rules f = []")
    case True
    with assms show ?thesis
      by (auto simp: filter_try_from_def build_arch_validation_sequence_def bpf_limits)
  next
    case False
    with assms obtain acc where
      acc: "rfold (append_syscall_chain lc (mismatch_action f) (match_action f)) (rules f)
        [[bpf_stmt (BPF_LD OR BPF_W OR BPF_ABS) (ucast SECCOMP_DATA_NR_OFFSET)]] = Ok acc" and
      p: "p = build_arch_validation_sequence lc (target f) @ concat acc @ [?ret]" "length p < BPF_MAX_LEN"
      by (auto simp: filter_try_from_def rbind_eq_Ok_iff Let_def split: if_splits)
    from syscalls_jumps [OF acc] obtain bs where
      "acc = [bpf_stmt (BPF_LD OR BPF_W OR BPF_ABS) (ucast SECCOMP_DATA_NR_OFFSET)] # bs"
      "jumps_inside (concat bs @ [?ret])"
      by auto
    then show ?thesis
      using p(2) by (simp add: p(1) build_arch_validation_sequence_def)
  qed
  then show "jumps_inside p" and "length p < BPF_MAX_LEN" by auto
qed

section \<open>Properties\<close>

text \<open>
  C1. The compiler is correct.  Let a machine execute BPF as documented (the laws of
  \<open>bpf_machine\<close>).  If a filter whose conditions name arguments 0 to 5 compiles, then for every
  system call the program returns the code of exactly one action: \<open>KillProcess\<close> when the call comes
  from another architecture; otherwise the on-match action when the map has an entry for the number
  and its rule chain is empty or contains a rule all of whose conditions hold of the arguments; and
  the mismatch action in every other case.
\<close>

theorem compiled_filter_is_correct:
  assumes "bpf_machine run" and "filter_try_from lc f = Ok p" and "valid_filter f"
    and "length (sd_args d) = 6"
  shows "run (data_load d) p a = Some (action_code lc (filter_verdict f d))"
  using bpf_machine.filter_runs [OF assms] .

definition linux_codes :: libc_codes where
  "linux_codes = \<lparr>SECCOMP_RET_ALLOW = 0x7fff0000, SECCOMP_RET_DATA = 0xffff, SECCOMP_RET_ERRNO = 0x50000,
     SECCOMP_RET_KILL_PROCESS = 0x80000000, SECCOMP_RET_KILL_THREAD = 0, SECCOMP_RET_LOG = 0x7ffc0000,
     SECCOMP_RET_TRACE = 0x7ff00000, SECCOMP_RET_TRAP = 0x30000, SECCOMP_RET_USER_NOTIF = 0x7fc00000\<rparr>"

definition sample_filter :: seccomp_filter where
  "sample_filter = \<lparr>rules =
     [(0, []),
      (3, [\<lparr>conditions = [\<lparr>arg_index = 1, arg_len = Qword, operator = Gt, cmp_value = 0x100000005\<rparr>]\<rparr>])],
     mismatch_action = Trap, match_action = Allow, target = X86_64\<rparr>"

definition sample_call :: "u32 \<Rightarrow> u64 \<Rightarrow> seccomp_data" where
  "sample_call n x = \<lparr>sd_nr = n, sd_arch = AUDIT_ARCH_X86_64, sd_instruction_pointer = 0,
     sd_args = [0, x, 0, 0, 0, 0]\<rparr>"

lemmas compile_eval = filter_try_from_def build_arch_validation_sequence_def append_syscall_chain_def
  rule_to_bpf_def append_condition_def into_bpf_def emit_defs split_value_def get_data_offsets_def
  syscall_number_to_u32_def checked_mul_usize_def checked_add_def bpf_limits bpf_codes
  AUDIT_ARCH_X86_64_def linux_codes_def unwrap_def

theorem compiled_filter_is_correct_witness:
  "\<exists>p. filter_try_from linux_codes sample_filter = Ok p \<and>
     bpf_run (data_load (sample_call 3 0x100000006)) p 0 = Some (SECCOMP_RET_ALLOW linux_codes) \<and>
     bpf_run (data_load (sample_call 3 0x100000005)) p 0 = Some (SECCOMP_RET_TRAP linux_codes)"
proof -
  obtain p where p: "filter_try_from linux_codes sample_filter = Ok p"
    by (simp add: compile_eval sample_filter_def)
  have valid: "valid_filter sample_filter"
    by (simp add: sample_filter_def valid_filter_def valid_rule_def valid_condition_def bpf_limits)
  have args: "length (sd_args (sample_call 3 x)) = 6" for x by (simp add: sample_call_def)
  have verdict: "filter_verdict sample_filter (sample_call 3 x) = (if 0x100000005 < x then Allow else Trap)" for x
    by (simp add: filter_verdict_def sample_filter_def sample_call_def chain_matches_def rule_matches_def
        cond_holds_def compare_op_def)
  have "bpf_run (data_load (sample_call 3 x)) p 0 =
      Some (action_code linux_codes (filter_verdict sample_filter (sample_call 3 x)))" for x
    by (rule compiled_filter_is_correct [OF reference.bpf_machine_axioms p valid args])
  then show ?thesis using p by (auto simp: verdict)
qed



text \<open>
  C32. Every compiled program passes the structural check the kernel makes: it has fewer than 4096
  instructions, every jump of it, taken or not, lands inside it, and control cannot run off its end.
  In particular the 8-bit jump offsets never wrap, however many conditions a rule has.
\<close>

theorem compiled_jumps_stay_inside:
  assumes "filter_try_from lc f = Ok p"
  shows "jumps_inside p \<and> length p < BPF_MAX_LEN"
  using filter_jumps [OF assms] by simp

theorem compiled_jumps_stay_inside_witness:
  "\<exists>p. filter_try_from linux_codes sample_filter = Ok p \<and> jumps_inside p"
proof -
  obtain p where p: "filter_try_from linux_codes sample_filter = Ok p"
    by (simp add: compile_eval sample_filter_def)
  from compiled_jumps_stay_inside [OF p] p show ?thesis by blast
qed

end
