(* ===== verification/SeccompFrontend.thy ===== *)
theory SeccompFrontend
  imports SeccompCompiler
begin

text \<open>
  The JSON front end and the entry points of seccompiler: \<^verbatim>\<open>frontend/json.rs\<close>,
  \<^verbatim>\<open>syscall_table/mod.rs\<close> and \<^verbatim>\<open>lib.rs\<close>.  What \<^verbatim>\<open>serde_json\<close> reads is the list of the
  entries of the top-level object in the order of the file, or an error; the
  generated syscall tables, \<^verbatim>\<open>prctl\<close> and the \<^verbatim>\<open>seccomp\<close> system call are arguments.
  A \<^verbatim>\<open>HashMap\<close> that is iterated is the list of its entries in iteration order.
\<close>

section \<open>Syscall tables\<close>

record syscall_table =
  syscall_map :: "string \<Rightarrow> int option"

definition syscall_table_new ::
    "(string \<Rightarrow> int option) \<Rightarrow> (string \<Rightarrow> int option) \<Rightarrow> (string \<Rightarrow> int option)
      \<Rightarrow> target_arch \<Rightarrow> syscall_table" where
  "syscall_table_new aarch64_table x86_64_table riscv64_table a =
     \<lparr>syscall_map = (case a of Aarch64 \<Rightarrow> aarch64_table | X86_64 \<Rightarrow> x86_64_table
                              | Riscv64 \<Rightarrow> riscv64_table)\<rparr>"

definition get_syscall_nr :: "syscall_table \<Rightarrow> string \<Rightarrow> int option" where
  "get_syscall_nr t sys_name = syscall_map t sys_name"

section \<open>JSON filters\<close>

datatype json_error =
    JsonBackend backend_error
  | SerdeJson string
  | SyscallName string target_arch

datatype json_comment = JsonComment

record json_condition =
  j_arg_index :: u8
  j_arg_len :: seccomp_cmp_arg_len
  j_operator :: seccomp_cmp_op
  j_value :: u64
  j_cond_comment :: "json_comment option"

definition json_condition_try_from :: "json_condition \<Rightarrow> (seccomp_condition, json_error) result" where
  "json_condition_try_from j =
     map_err JsonBackend (condition_new (j_arg_index j) (j_arg_len j) (j_operator j) (j_value j))"

record json_rule =
  j_syscall :: string
  j_conditions :: "json_condition list option"
  j_rule_comment :: "json_comment option"

record json_filter =
  j_mismatch_action :: seccomp_action
  j_match_action :: seccomp_action
  j_rules :: "json_rule list"

record json_compiler =
  jc_arch :: target_arch
  jc_table :: syscall_table

definition json_compiler_new ::
    "(string \<Rightarrow> int option) \<Rightarrow> (string \<Rightarrow> int option) \<Rightarrow> (string \<Rightarrow> int option)
      \<Rightarrow> target_arch \<Rightarrow> json_compiler" where
  "json_compiler_new aarch64_table x86_64_table riscv64_table a =
     \<lparr>jc_arch = a, jc_table = syscall_table_new aarch64_table x86_64_table riscv64_table a\<rparr>"

text \<open>The visitor of \<^verbatim>\<open>JsonFilterMap\<close>: a repeated key is an error.\<close>

fun visit_map :: "(string \<times> json_filter) list \<Rightarrow> (string \<times> json_filter) list
    \<Rightarrow> ((string \<times> json_filter) list, json_error) result" where
  "visit_map values [] = Ok values"
| "visit_map values ((key, v) # access) =
     (if map_of values key \<noteq> None then Err (SerdeJson ''duplicate filter key'')
      else visit_map (values @ [(key, v)]) access)"

definition add_json_rule :: "json_compiler \<Rightarrow> json_rule \<Rightarrow> (int \<times> seccomp_rule list) list
    \<Rightarrow> ((int \<times> seccomp_rule list) list, json_error) result" where
  "add_json_rule jc r rule_map =
     rbind (ok_or (get_syscall_nr (jc_table jc) (j_syscall r)) (SyscallName (j_syscall r) (jc_arch jc)))
       (\<lambda>syscall_nr.
      case j_conditions r of
        None \<Rightarrow> Ok (btree_entry syscall_nr [] (\<lambda>chain. chain) rule_map)
      | Some cs \<Rightarrow>
          rbind (rmap json_condition_try_from cs) (\<lambda>seccomp_conditions.
          rbind (map_err JsonBackend (rule_new seccomp_conditions)) (\<lambda>new_rule.
          Ok (btree_entry syscall_nr [] (\<lambda>chain. chain @ [new_rule]) rule_map))))"

definition make_seccomp_filter ::
    "json_compiler \<Rightarrow> json_filter \<Rightarrow> (seccomp_filter, json_error) result" where
  "make_seccomp_filter jc jf =
     rbind (rfold (add_json_rule jc) (j_rules jf) []) (\<lambda>rule_map.
     map_err JsonBackend
       (filter_new rule_map (j_mismatch_action jf) (j_match_action jf) (jc_arch jc)))"

definition json_compile :: "json_compiler \<Rightarrow> ((string \<times> json_filter) list, json_error) result
    \<Rightarrow> ((string \<times> seccomp_filter) list, json_error) result" where
  "json_compile jc from_reader =
     rbind (rbind from_reader (visit_map [])) (\<lambda>filters.
     rmap (\<lambda>(name, jf). rbind (make_seccomp_filter jc jf) (\<lambda>f. Ok (name, f))) filters)"

section \<open>Entry points\<close>

datatype seccomp_error =
    Backend backend_error
  | EmptyFilter
  | Prctl int
  | Seccomp int
  | ThreadSync int
  | JsonFrontend json_error

definition compile_from_json :: "libc_codes \<Rightarrow> json_compiler
    \<Rightarrow> ((string \<times> json_filter) list, json_error) result
    \<Rightarrow> ((string \<times> bpf_program) list, seccomp_error) result" where
  "compile_from_json lc jc from_reader =
     rbind (map_err JsonFrontend (json_compile jc from_reader)) (\<lambda>seccomp_filters.
     rmap (\<lambda>(name, f). rbind (map_err Backend (filter_try_from lc f)) (\<lambda>p. Ok (name, p)))
       seccomp_filters)"

text \<open>
  Installing a filter.  \<open>prctl\<close> is the return code of \<^verbatim>\<open>PR_SET_NO_NEW_PRIVS\<close>, \<open>install\<close> that of
  the \<^verbatim>\<open>seccomp\<close> call for a program whose first \<open>len\<close> instructions the kernel reads, and
  \<open>errno\<close> what \<^verbatim>\<open>io::Error::last_os_error\<close> reports.
\<close>

definition apply_filter_with_flags :: "int \<Rightarrow> (u64 \<Rightarrow> u16 \<Rightarrow> bpf_program \<Rightarrow> int) \<Rightarrow> int
    \<Rightarrow> bpf_program \<Rightarrow> u64 \<Rightarrow> (unit, seccomp_error) result" where
  "apply_filter_with_flags prctl install errno bpf_filter flags =
     (if bpf_filter = [] then Err EmptyFilter
      else if prctl \<noteq> 0 then Err (Prctl errno)
      else let rc = install flags (of_nat (length bpf_filter)) bpf_filter in
        if rc < 0 then Err (Seccomp errno)
        else if 0 < rc then Err (ThreadSync rc)
        else Ok ())"

section \<open>What a JSON filter means\<close>

definition j_cond_holds :: "seccomp_data \<Rightarrow> json_condition \<Rightarrow> bool" where
  "j_cond_holds d j = cond_holds d
     \<lparr>arg_index = j_arg_index j, arg_len = j_arg_len j, operator = j_operator j, cmp_value = j_value j\<rparr>"

text \<open>
  The rules of a filter that name the syscall \<open>n\<close>, and the argument alternatives among them.
  A rule without \<^verbatim>\<open>args\<close> contributes no alternative; it matters only when there is none.
\<close>

definition json_rules_for :: "json_compiler \<Rightarrow> json_rule list \<Rightarrow> int \<Rightarrow> json_rule list" where
  "json_rules_for jc rs n = filter (\<lambda>r. get_syscall_nr (jc_table jc) (j_syscall r) = Some n) rs"

definition json_matches :: "json_compiler \<Rightarrow> json_rule list \<Rightarrow> seccomp_data \<Rightarrow> bool" where
  "json_matches jc rs d \<longleftrightarrow>
     (let mine = json_rules_for jc rs (uint (sd_nr d));
          alternatives = List.map_filter j_conditions mine in
      mine \<noteq> [] \<and> (alternatives = [] \<or> list_ex (list_all (j_cond_holds d)) alternatives))"

definition json_verdict :: "json_compiler \<Rightarrow> json_filter \<Rightarrow> seccomp_data \<Rightarrow> seccomp_action" where
  "json_verdict jc jf d =
     (if sd_arch d \<noteq> get_audit_value (jc_arch jc) then KillProcess
      else if json_matches jc (j_rules jf) d then j_match_action jf else j_mismatch_action jf)"

section \<open>The front end preserves meaning\<close>

lemma json_condition_try_from_Ok:
  assumes "json_condition_try_from j = Ok c"
  shows "valid_condition c" and "cond_holds d c = j_cond_holds d j"
  using assms
  by (auto simp: json_condition_try_from_def condition_new_def condition_validate_def Let_def
      valid_condition_def j_cond_holds_def split: if_splits)

lemma rmap_conditions:
  assumes "rmap json_condition_try_from js = Ok cs"
  shows "list_all valid_condition cs" and "list_all (cond_holds d) cs = list_all (j_cond_holds d) js"
  using assms
  by (induction js arbitrary: cs) (auto simp: rbind_eq_Ok_iff json_condition_try_from_Ok)

text \<open>
  What the rule map holds after the rules \<open>rs\<close> (newest first) have been added: an entry for each
  syscall named, and in its chain one rule per alternative.
\<close>

definition chain_for :: "json_compiler \<Rightarrow> json_rule list \<Rightarrow> int \<Rightarrow> seccomp_rule list \<Rightarrow> bool" where
  "chain_for jc rs n chain \<longleftrightarrow>
     list_all valid_rule chain \<and>
     (let alternatives = List.map_filter j_conditions (json_rules_for jc rs n) in
      (chain = [] \<longleftrightarrow> alternatives = []) \<and>
      (\<forall>d. list_ex (rule_matches d) chain \<longleftrightarrow> list_ex (list_all (j_cond_holds d)) alternatives))"

definition rule_map_ok :: "json_compiler \<Rightarrow> json_rule list \<Rightarrow> (int \<times> seccomp_rule list) list \<Rightarrow> bool" where
  "rule_map_ok jc rs m \<longleftrightarrow> btree m \<and>
     (\<forall>n. case map_of m n of
        None \<Rightarrow> json_rules_for jc rs n = []
      | Some chain \<Rightarrow> json_rules_for jc rs n \<noteq> [] \<and> chain_for jc rs n chain)"

lemma rule_map_okD:
  assumes "rule_map_ok jc rs m"
  shows "map_of m n = None \<Longrightarrow> json_rules_for jc rs n = []"
    and "map_of m n = Some chain \<Longrightarrow> json_rules_for jc rs n \<noteq> [] \<and> chain_for jc rs n chain"
proof -
  have "case map_of m n of None \<Rightarrow> json_rules_for jc rs n = []
      | Some chain \<Rightarrow> json_rules_for jc rs n \<noteq> [] \<and> chain_for jc rs n chain"
    using assms by (simp add: rule_map_ok_def)
  then show "map_of m n = None \<Longrightarrow> json_rules_for jc rs n = []"
    and "map_of m n = Some chain \<Longrightarrow> json_rules_for jc rs n \<noteq> [] \<and> chain_for jc rs n chain"
    by simp_all
qed

lemma json_rules_for_Cons:
  "json_rules_for jc (r # rs) n =
    (if get_syscall_nr (jc_table jc) (j_syscall r) = Some n then r # json_rules_for jc rs n
     else json_rules_for jc rs n)"
  by (simp add: json_rules_for_def)

lemma chain_for_skip:
  "get_syscall_nr (jc_table jc) (j_syscall r) \<noteq> Some n \<Longrightarrow>
    chain_for jc (r # rs) n chain = chain_for jc rs n chain"
  by (simp add: chain_for_def json_rules_for_Cons)

lemma chain_for_none:
  assumes "chain_for jc rs n chain" and "j_conditions r = None"
  shows "chain_for jc (r # rs) n chain"
  using assms by (simp add: chain_for_def json_rules_for_Cons map_filter_simps Let_def)

lemma chain_for_some:
  assumes "chain_for jc rs n chain" and "get_syscall_nr (jc_table jc) (j_syscall r) = Some n"
    and "j_conditions r = Some js" and "rmap json_condition_try_from js = Ok cs" and "rule_new cs = Ok nw"
  shows "chain_for jc (r # rs) n (chain @ [nw])"
proof -
  have nw: "nw = \<lparr>conditions = cs\<rparr>"
    using assms(5) by (auto simp: rule_new_def rule_validate_def split: if_splits)
  show ?thesis
    using assms rmap_conditions [OF assms(4)]
    by (auto simp: chain_for_def json_rules_for_Cons map_filter_simps Let_def nw rule_matches_def
        valid_rule_def)
qed

lemma chain_for_empty: "json_rules_for jc rs n = [] \<Longrightarrow> chain_for jc rs n []"
  by (simp add: chain_for_def map_filter_simps)

lemma add_json_rule_ok:
  assumes add: "add_json_rule jc r m = Ok m'" and ok: "rule_map_ok jc rs m"
  shows "rule_map_ok jc (r # rs) m'"
proof -
  obtain n where n: "get_syscall_nr (jc_table jc) (j_syscall r) = Some n"
    using add by (auto simp: add_json_rule_def rbind_eq_Ok_iff ok_or_eq_Ok_iff)
  define old where "old = (case map_of m n of None \<Rightarrow> [] | Some chain \<Rightarrow> chain)"
  have old: "chain_for jc rs n old"
    using rule_map_okD [OF ok, of n] chain_for_empty
    by (auto simp: old_def split: option.splits)
  obtain g where m': "m' = btree_entry n [] g m" and g: "chain_for jc (r # rs) n (g old)"
  proof (cases "j_conditions r")
    case None
    with add n that [of "\<lambda>chain. chain"] chain_for_none [OF old None] show ?thesis
      by (auto simp: add_json_rule_def)
  next
    case (Some js)
    with add n obtain cs nw where "rmap json_condition_try_from js = Ok cs" "rule_new cs = Ok nw"
      "m' = btree_entry n [] (\<lambda>chain. chain @ [nw]) m"
      by (auto simp: add_json_rule_def rbind_eq_Ok_iff)
    with that [of "\<lambda>chain. chain @ [nw]"] chain_for_some [OF old n Some] show ?thesis by simp
  qed
  have bt: "btree m" using ok by (simp add: rule_map_ok_def)
  then have map: "map_of m' = (map_of m)(n \<mapsto> g old)"
    by (simp add: m' map_of_btree_entry old_def)
  have "case map_of m' i of None \<Rightarrow> json_rules_for jc (r # rs) i = []
      | Some chain \<Rightarrow> json_rules_for jc (r # rs) i \<noteq> [] \<and> chain_for jc (r # rs) i chain" for i
    using rule_map_okD [OF ok, of i] g n
    by (cases "i = n"; cases "map_of m i") (simp_all add: map json_rules_for_Cons chain_for_skip)
  then show ?thesis
    using bt by (simp add: rule_map_ok_def m' btree_btree_entry)
qed

lemma make_seccomp_filter_Ok:
  assumes "make_seccomp_filter jc jf = Ok f"
  shows "valid_filter f" and "filter_verdict f d = json_verdict jc jf d"
proof -
  obtain m where m: "rfold (add_json_rule jc) (j_rules jf) [] = Ok m"
    and f: "f = \<lparr>rules = m, mismatch_action = j_mismatch_action jf, match_action = j_match_action jf,
      target = jc_arch jc\<rparr>"
    using assms by (auto simp: make_seccomp_filter_def rbind_eq_Ok_iff filter_new_def filter_validate_def
        Let_def split: if_splits)
  have start: "rule_map_ok jc [] []"
    by (simp add: rule_map_ok_def btree_def json_rules_for_def)
  have ok: "rule_map_ok jc (rev (j_rules jf)) m"
    by (rule rfold_induct_Ok [where P = "rule_map_ok jc", OF m start]) (rule add_json_rule_ok)
  have "list_all valid_rule chain" if "(n, chain) \<in> set m" for n chain
  proof -
    have "map_of m n = Some chain"
      using that ok by (intro map_of_is_SomeI) (auto simp: rule_map_ok_def btree_def strict_sorted_iff)
    then show ?thesis using rule_map_okD(2) [OF ok] by (simp add: chain_for_def)
  qed
  then show "valid_filter f" by (auto simp: valid_filter_def f list_all_iff)
  have rev: "json_rules_for jc (rev rs) n = rev (json_rules_for jc rs n)" for rs n
    by (simp add: json_rules_for_def rev_filter)
  have mf: "List.map_filter h (rev xs) = rev (List.map_filter h xs)" for h :: "json_rule \<Rightarrow> json_condition list option" and xs
    by (simp add: List.map_filter_def rev_filter rev_map)
  have "(case map_of m (uint (sd_nr d)) of None \<Rightarrow> False | Some chain \<Rightarrow> chain_matches d chain) =
      json_matches jc (j_rules jf) d"
    using rule_map_okD [OF ok, of "uint (sd_nr d)"]
    by (auto simp: json_matches_def Let_def chain_for_def chain_matches_def rev mf list_ex_iff
        split: option.splits)
  then show "filter_verdict f d = json_verdict jc jf d"
    by (auto simp: filter_verdict_def json_verdict_def f split: option.splits)
qed

text \<open>The names of a compiled map are those of the file, each compiled from its own filter.\<close>

lemma visit_map_Ok: "visit_map seen access = Ok m \<Longrightarrow> m = seen @ access"
  by (induction seen access rule: visit_map.induct) (auto split: if_splits)

lemma visit_map_distinct:
  "visit_map seen access = Ok m \<Longrightarrow> distinct (map fst seen) \<Longrightarrow> distinct (map fst m)"
  by (induction seen access rule: visit_map.induct)
    (auto split: if_splits simp: map_of_eq_None_iff)

lemma rmap_entries:
  assumes "rmap (\<lambda>(name, x). rbind (f x) (\<lambda>y. Ok (name, y))) xs = Ok ys"
  shows "map fst ys = map fst xs"
    and "(name, y) \<in> set ys \<Longrightarrow> \<exists>x. (name, x) \<in> set xs \<and> f x = Ok y"
  using assms by (induction xs arbitrary: ys) (fastforce simp: rbind_eq_Ok_iff)+

lemma compile_from_json_Ok:
  assumes "compile_from_json lc jc r = Ok progs"
  obtains js where "r = Ok js" and "distinct (map fst js)" and "map fst progs = map fst js"
    and "\<And>name p. (name, p) \<in> set progs \<Longrightarrow>
      \<exists>jf f. (name, jf) \<in> set js \<and> make_seccomp_filter jc jf = Ok f \<and> filter_try_from lc f = Ok p"
proof -
  obtain js fs where js: "r = Ok js" "visit_map [] js = Ok js"
    and fs: "rmap (\<lambda>(name, jf). rbind (make_seccomp_filter jc jf) (\<lambda>f. Ok (name, f))) js = Ok fs"
    and ps: "rmap (\<lambda>(name, f). rbind (map_err Backend (filter_try_from lc f)) (\<lambda>p. Ok (name, p))) fs = Ok progs"
    using assms visit_map_Ok [of "[]"]
    by (auto simp: compile_from_json_def json_compile_def rbind_eq_Ok_iff)
  show thesis
  proof
    show "r = Ok js" by (fact js(1))
    show "distinct (map fst js)" using visit_map_distinct [OF js(2)] by simp
    show "map fst progs = map fst js" using rmap_entries(1) [OF fs] rmap_entries(1) [OF ps] by simp
    show "\<exists>jf f. (name, jf) \<in> set js \<and> make_seccomp_filter jc jf = Ok f \<and> filter_try_from lc f = Ok p"
      if "(name, p) \<in> set progs" for name p
      using rmap_entries(2) [OF ps that] rmap_entries(2) [OF fs] by force
  qed
qed

section \<open>Properties\<close>


definition sample_compiler :: json_compiler where
  "sample_compiler = \<lparr>jc_arch = X86_64, jc_table = \<lparr>syscall_map = [''read'' \<mapsto> 0, ''close'' \<mapsto> 3]\<rparr>\<rparr>"

definition close_if :: "u64 \<Rightarrow> json_rule" where
  "close_if v = \<lparr>j_syscall = ''close'', j_conditions =
     Some [\<lparr>j_arg_index = 1, j_arg_len = Qword, j_operator = Eq, j_value = v, j_cond_comment = None\<rparr>],
     j_rule_comment = None\<rparr>"

definition close_always :: json_rule where
  "close_always = \<lparr>j_syscall = ''close'', j_conditions = None, j_rule_comment = None\<rparr>"

definition sample_json :: json_filter where
  "sample_json = \<lparr>j_mismatch_action = Trap, j_match_action = Allow, j_rules = [close_always, close_if 1]\<rparr>"

lemmas frontend_eval = compile_from_json_def json_compile_def make_seccomp_filter_def add_json_rule_def
  get_syscall_nr_def json_condition_try_from_def condition_new_def condition_validate_def rule_new_def
  rule_validate_def filter_new_def filter_validate_def sample_compiler_def sample_json_def close_if_def
  close_always_def


text \<open>
  A rule without \<^verbatim>\<open>args\<close> loses its effect when another rule of the same syscall has some.  The
  filter lists an unconditional rule for \<^verbatim>\<open>close\<close> and a conditional one; a call whose argument does
  not satisfy the condition gets the mismatch action.  Without the conditional rule it would match.
\<close>

theorem unconditional_rule_is_shadowed:
  "json_verdict sample_compiler sample_json (sample_call 3 2) = Trap \<and>
   json_verdict sample_compiler (sample_json\<lparr>j_rules := [close_always]\<rparr>) (sample_call 3 2) = Allow \<and>
   (\<exists>f. make_seccomp_filter sample_compiler sample_json = Ok f \<and>
     filter_verdict f (sample_call 3 2) = Trap)"
proof (intro conjI)
  show v: "json_verdict sample_compiler sample_json (sample_call 3 2) = Trap"
    by (simp add: json_verdict_def json_matches_def json_rules_for_def get_syscall_nr_def map_filter_simps
        sample_compiler_def sample_json_def close_if_def close_always_def sample_call_def j_cond_holds_def
        cond_holds_def compare_op_def)
  show "json_verdict sample_compiler (sample_json\<lparr>j_rules := [close_always]\<rparr>) (sample_call 3 2) = Allow"
    by (simp add: json_verdict_def json_matches_def json_rules_for_def get_syscall_nr_def map_filter_simps
        sample_compiler_def sample_json_def close_always_def sample_call_def)
  obtain f where f: "make_seccomp_filter sample_compiler sample_json = Ok f"
    by (simp add: frontend_eval bpf_limits)
  with make_seccomp_filter_Ok(2) [OF f] v
  show "\<exists>f. make_seccomp_filter sample_compiler sample_json = Ok f \<and>
     filter_verdict f (sample_call 3 2) = Trap" by auto
qed

end
