(* ===== verification/AcpiBytes.thy ===== *)
theory AcpiBytes
  imports Prelude
begin

text \<open>
  The byte level of acpi_tables (\<^verbatim>\<open>acpi_tables/src/lib.rs\<close>): little-endian encodings, the
  sink interface a serialiser writes to, the rolling checksum and the header shared by
  the tables.  What a serialiser emits is the list of its bytes; the locale \<open>aml_sink\<close>
  says why that is enough: a sink that treats \<^verbatim>\<open>vec\<close> as a sequence of \<^verbatim>\<open>byte\<close> calls ends in
  a state that depends only on the concatenation of what was written.
\<close>

section \<open>Little-endian encodings\<close>

definition le16 :: "u16 \<Rightarrow> u8 list" where
  "le16 w = [ucast w, ucast (drop_bit 8 w)]"

definition le32 :: "u32 \<Rightarrow> u8 list" where
  "le32 w = [ucast w, ucast (drop_bit 8 w), ucast (drop_bit 16 w), ucast (drop_bit 24 w)]"

definition le64 :: "u64 \<Rightarrow> u8 list" where
  "le64 w = [ucast w, ucast (drop_bit 8 w), ucast (drop_bit 16 w), ucast (drop_bit 24 w),
     ucast (drop_bit 32 w), ucast (drop_bit 40 w), ucast (drop_bit 48 w), ucast (drop_bit 56 w)]"

fun from_le :: "u8 list \<Rightarrow> nat" where
  "from_le [] = 0"
| "from_le (b # bs) = unat b + 256 * from_le bs"

section \<open>Sinks\<close>

locale aml_sink =
  fixes byte :: "'s \<Rightarrow> u8 \<Rightarrow> 's"
    and vec :: "'s \<Rightarrow> u8 list \<Rightarrow> 's"
  assumes vec_bytes: "vec s bs = foldl byte s bs"
begin

definition word :: "'s \<Rightarrow> u16 \<Rightarrow> 's" where "word s w = vec s (le16 w)"
definition dword :: "'s \<Rightarrow> u32 \<Rightarrow> 's" where "dword s w = vec s (le32 w)"
definition qword :: "'s \<Rightarrow> u64 \<Rightarrow> 's" where "qword s w = vec s (le64 w)"

lemma vec_append: "vec (vec s as) bs = vec s (as @ bs)"
  by (simp add: vec_bytes)

lemma byte_vec: "byte s b = vec s [b]"
  by (simp add: vec_bytes)

text \<open>Any sequence of calls writes the concatenation of its pieces.\<close>

lemma writes_concat: "foldl vec s chunks = vec s (concat chunks)"
  by (induction chunks arbitrary: s) (simp_all add: vec_bytes)

end

definition vec_byte :: "u8 list \<Rightarrow> u8 \<Rightarrow> u8 list" where "vec_byte s b = s @ [b]"
definition vec_vec :: "u8 list \<Rightarrow> u8 list \<Rightarrow> u8 list" where "vec_vec s v = s @ v"

interpretation vec_sink: aml_sink vec_byte vec_vec
proof
  have "foldl vec_byte s bs = s @ bs" for s bs
    by (induction bs arbitrary: s) (simp_all add: vec_byte_def)
  then show "vec_vec s bs = foldl vec_byte s bs" for s bs by (simp add: vec_vec_def)
qed

section \<open>Checksums\<close>

record checksum =
  cs_value :: u8

definition cs_default :: checksum where "cs_default = \<lparr>cs_value = 0\<rparr>"

definition cs_append :: "checksum \<Rightarrow> u8 list \<Rightarrow> checksum" where
  "cs_append c bs = c\<lparr>cs_value := foldl (\<lambda>v b. v + b) (cs_value c) bs\<rparr>"

definition cs_delete :: "checksum \<Rightarrow> u8 list \<Rightarrow> checksum" where
  "cs_delete c bs = c\<lparr>cs_value := foldl (\<lambda>v b. v - b) (cs_value c) bs\<rparr>"

definition cs_add :: "checksum \<Rightarrow> u8 \<Rightarrow> checksum" where
  "cs_add c b = c\<lparr>cs_value := cs_value c + b\<rparr>"

definition cs_sub :: "checksum \<Rightarrow> u8 \<Rightarrow> checksum" where
  "cs_sub c b = c\<lparr>cs_value := cs_value c - b\<rparr>"

definition cs_result :: "checksum \<Rightarrow> u8" where
  "cs_result c = (255 - cs_value c) + 1"

definition generate_checksum :: "u8 list \<Rightarrow> u8" where
  "generate_checksum bs = (255 - foldl (\<lambda>acc x. acc + x) 0 bs) + 1"

definition cs_vec :: "checksum \<Rightarrow> u8 list \<Rightarrow> checksum" where
  "cs_vec c v = foldl cs_add c v"

interpretation checksum_sink: aml_sink cs_add cs_vec
  by unfold_locales (simp add: cs_vec_def)

definition u8sum :: "u8 list \<Rightarrow> u8" where
  "u8sum bs = cs_value (cs_vec cs_default bs)"

section \<open>The table header\<close>

record table_header =
  signature :: "u8 list"
  th_length :: u32
  revision :: u8
  th_checksum :: u8
  oem_id :: "u8 list"
  oem_table_id :: "u8 list"
  oem_revision :: u32

definition str_bytes :: "string \<Rightarrow> u8 list" where
  "str_bytes s = map (\<lambda>c. of_nat (of_char c)) s"

definition CREATOR_ID :: "u8 list" where "CREATOR_ID = str_bytes ''RVAT''"
definition CREATOR_REVISION :: "u8 list" where "CREATOR_REVISION = [0, 0, 0, 1]"

definition header_bytes :: "table_header \<Rightarrow> u8 list" where
  "header_bytes h = signature h @ le32 (th_length h) @ [revision h, th_checksum h] @ oem_id h @
     oem_table_id h @ le32 (oem_revision h) @ CREATOR_ID @ CREATOR_REVISION"

definition TABLE_HEADER_LEN :: nat where "TABLE_HEADER_LEN = 36"

definition header_ok :: "table_header \<Rightarrow> bool" where
  "header_ok h \<longleftrightarrow> length (signature h) = 4 \<and> length (oem_id h) = 6 \<and> length (oem_table_id h) = 8"

section \<open>Facts\<close>

lemma length_le [simp]: "length (le16 w) = 2" "length (le32 x) = 4" "length (le64 y) = 8"
  by (simp_all add: le16_def le32_def le64_def)

lemma from_le_append: "from_le (as @ bs) = from_le as + 256 ^ length as * from_le bs"
  by (induction as) (simp_all add: algebra_simps)

lemma unat_ucast_byte: "unat (ucast w :: u8) = unat w mod 256"
  by (simp add: unsigned_ucast_eq take_bit_eq_mod)

lemma unat_drop_bit: "unat (drop_bit n w) = unat w div 2 ^ n" for w :: "'a::len word"
  by (rule trans [OF unat_drop_bit_eq]) (simp add: drop_bit_eq_div)

lemma from_le_Cons_eq: "unat b = n mod 256 \<Longrightarrow> from_le bs = n div 256 \<Longrightarrow> from_le (b # bs) = n"
  by simp

lemma le_roundtrip:
  "from_le (le16 w) = unat w" "from_le (le32 x) = unat x" "from_le (le64 y) = unat y"
proof -
  have "unat w < 2 ^ 16" "unat x < 2 ^ 32" "unat y < 2 ^ 64"
    using unsigned_less [of w, where 'a = nat] unsigned_less [of x, where 'a = nat]
      unsigned_less [of y, where 'a = nat] by simp_all
  then show "from_le (le16 w) = unat w" "from_le (le32 x) = unat x" "from_le (le64 y) = unat y"
    unfolding le16_def le32_def le64_def
    by (intro from_le_Cons_eq; simp add: unat_ucast_byte unat_drop_bit flip: div_mult2_eq)+
qed

lemma foldl_plus: "foldl (\<lambda>v b. v + b) v bs = v + sum_list bs" for v :: "'a::comm_monoid_add"
  by (induction bs arbitrary: v) (simp_all add: ac_simps)

lemma foldl_minus: "foldl (\<lambda>v b. v - b) v bs = v - sum_list bs" for v :: "'a::ab_group_add"
  by (induction bs arbitrary: v) (simp_all add: algebra_simps)

lemma cs_simps [simp]:
  "cs_value cs_default = 0"
  "cs_value (cs_append c bs) = cs_value c + sum_list bs"
  "cs_value (cs_delete c bs) = cs_value c - sum_list bs"
  "cs_value (cs_add c b) = cs_value c + b"
  "cs_value (cs_sub c b) = cs_value c - b"
  by (simp_all add: cs_default_def cs_append_def cs_delete_def cs_add_def cs_sub_def foldl_plus foldl_minus)

lemma minus_byte: "(255 - v) + 1 = - v" for v :: u8
proof -
  have "(255 :: u8) = - 1" by simp
  then show ?thesis by (simp only: diff_conv_add_uminus) simp
qed

lemma cs_result_eq: "cs_result c = - cs_value c"
  by (simp add: cs_result_def minus_byte)

lemma generate_checksum_eq: "generate_checksum bs = - sum_list bs"
  by (simp add: generate_checksum_def minus_byte foldl_plus)

lemma cs_vec_eq: "cs_value (cs_vec c bs) = cs_value c + sum_list bs"
  by (induction bs arbitrary: c) (simp_all add: cs_vec_def ac_simps)

lemma u8sum_eq: "u8sum bs = sum_list bs"
  by (simp add: u8sum_def cs_vec_eq)

lemma length_header_bytes [simp]: "header_ok h \<Longrightarrow> length (header_bytes h) = TABLE_HEADER_LEN"
  by (simp add: header_bytes_def header_ok_def CREATOR_ID_def CREATOR_REVISION_def str_bytes_def TABLE_HEADER_LEN_def)

lemma sum_header_checksum:
  "sum_list (header_bytes (h\<lparr>th_checksum := c\<rparr>)) = sum_list (header_bytes h) - th_checksum h + c"
  by (simp add: header_bytes_def)

lemma sum_header_length:
  "sum_list (header_bytes (h\<lparr>th_length := n\<rparr>)) =
     sum_list (header_bytes h) - sum_list (le32 (th_length h)) + sum_list (le32 n)"
  by (simp add: header_bytes_def)

text \<open>The length field is bytes 4 to 7.\<close>

lemma header_length_field:
  "header_ok h \<Longrightarrow> from_le (take 4 (drop 4 (header_bytes h @ rest))) = unat (th_length h)"
  by (simp add: header_bytes_def header_ok_def le_roundtrip)

end
