(* ===== verification/Aml.thy ===== *)
theory Aml
  imports AcpiBytes
begin

text \<open>
  AML terms, \<^verbatim>\<open>acpi_tables/src/aml.rs\<close>.  Every struct that implements the trait \<^verbatim>\<open>Aml\<close> is
  a constructor of \<open>aml\<close>, and the bytes its \<^verbatim>\<open>to_aml_bytes\<close> writes are given by one
  definition per struct over the bytes of its parts; \<open>aml_bytes\<close> puts them together.
  \<open>None\<close> is a panic (an assertion or an \<^verbatim>\<open>unwrap\<close>).  A \<^verbatim>\<open>&str\<close> is the list of its bytes.
  Lengths are naturals; the casts to narrower integers that the code makes are written out.
\<close>

section \<open>Opcodes\<close>

abbreviation (input) ZEROOP :: u8 where "ZEROOP \<equiv> 0x00"
abbreviation (input) ONEOP :: u8 where "ONEOP \<equiv> 0x01"
abbreviation (input) NAMEOP :: u8 where "NAMEOP \<equiv> 0x08"
abbreviation (input) BYTEPREFIX :: u8 where "BYTEPREFIX \<equiv> 0x0a"
abbreviation (input) WORDPREFIX :: u8 where "WORDPREFIX \<equiv> 0x0b"
abbreviation (input) DWORDPREFIX :: u8 where "DWORDPREFIX \<equiv> 0x0c"
abbreviation (input) STRINGOP :: u8 where "STRINGOP \<equiv> 0x0d"
abbreviation (input) QWORDPREFIX :: u8 where "QWORDPREFIX \<equiv> 0x0e"
abbreviation (input) SCOPEOP :: u8 where "SCOPEOP \<equiv> 0x10"
abbreviation (input) BUFFEROP :: u8 where "BUFFEROP \<equiv> 0x11"
abbreviation (input) PACKAGEOP :: u8 where "PACKAGEOP \<equiv> 0x12"
abbreviation (input) VARPACKAGEOP :: u8 where "VARPACKAGEOP \<equiv> 0x13"
abbreviation (input) METHODOP :: u8 where "METHODOP \<equiv> 0x14"
abbreviation (input) IRQNOFLAGSDESC :: u8 where "IRQNOFLAGSDESC \<equiv> 0x22"
abbreviation (input) IRQDESC :: u8 where "IRQDESC \<equiv> 0x23"
abbreviation (input) DUALNAMEPREFIX :: u8 where "DUALNAMEPREFIX \<equiv> 0x2e"
abbreviation (input) MULTINAMEPREFIX :: u8 where "MULTINAMEPREFIX \<equiv> 0x2f"
abbreviation (input) NAMECHARBASE :: u8 where "NAMECHARBASE \<equiv> 0x40"
abbreviation (input) EXTOPPREFIX :: u8 where "EXTOPPREFIX \<equiv> 0x5b"
abbreviation (input) MUTEXOP :: u8 where "MUTEXOP \<equiv> 0x01"
abbreviation (input) CREATEFIELDOP :: u8 where "CREATEFIELDOP \<equiv> 0x13"
abbreviation (input) ACQUIREOP :: u8 where "ACQUIREOP \<equiv> 0x23"
abbreviation (input) RELEASEOP :: u8 where "RELEASEOP \<equiv> 0x27"
abbreviation (input) OPREGIONOP :: u8 where "OPREGIONOP \<equiv> 0x80"
abbreviation (input) FIELDOP :: u8 where "FIELDOP \<equiv> 0x81"
abbreviation (input) DEVICEOP :: u8 where "DEVICEOP \<equiv> 0x82"
abbreviation (input) POWERRESOURCEOP :: u8 where "POWERRESOURCEOP \<equiv> 0x84"
abbreviation (input) LOCAL0OP :: u8 where "LOCAL0OP \<equiv> 0x60"
abbreviation (input) ARG0OP :: u8 where "ARG0OP \<equiv> 0x68"
abbreviation (input) STOREOP :: u8 where "STOREOP \<equiv> 0x70"
abbreviation (input) NOTIFYOP :: u8 where "NOTIFYOP \<equiv> 0x86"
abbreviation (input) LNOTOP :: u8 where "LNOTOP \<equiv> 0x92"
abbreviation (input) MIDOP :: u8 where "MIDOP \<equiv> 0x9e"
abbreviation (input) IFOP :: u8 where "IFOP \<equiv> 0xa0"
abbreviation (input) ELSEOP :: u8 where "ELSEOP \<equiv> 0xa1"
abbreviation (input) WHILEOP :: u8 where "WHILEOP \<equiv> 0xa2"
abbreviation (input) ONESOP :: u8 where "ONESOP \<equiv> 0xff"
abbreviation (input) IOPORTDESC :: u8 where "IOPORTDESC \<equiv> 0x47"
abbreviation (input) ENDTAG :: u8 where "ENDTAG \<equiv> 0x79"
abbreviation (input) REGDESC :: u8 where "REGDESC \<equiv> 0x82"
abbreviation (input) MEMORY32FIXEDDESC :: u8 where "MEMORY32FIXEDDESC \<equiv> 0x86"
abbreviation (input) DWORDADDRSPACEDESC :: u8 where "DWORDADDRSPACEDESC \<equiv> 0x87"
abbreviation (input) WORDADDRSPACEDESC :: u8 where "WORDADDRSPACEDESC \<equiv> 0x88"
abbreviation (input) EXTIRQDESC :: u8 where "EXTIRQDESC \<equiv> 0x89"
abbreviation (input) QWORDADDRSPACEDESC :: u8 where "QWORDADDRSPACEDESC \<equiv> 0x8A"

type_synonym bytes = "u8 list"

definition of_bool8 :: "bool \<Rightarrow> u8" where "of_bool8 b = (if b then 1 else 0)"

section \<open>Names\<close>

record path =
  p_root :: bool
  p_parent :: bool
  name_parts :: "bytes list"

definition path_bytes :: "path \<Rightarrow> bytes option" where
  "path_bytes p =
     (if name_parts p = [] then None
      else Some (
        (if p_root p then str_bytes [CHR 0x5c] else if p_parent p then str_bytes ''^'' else []) @
        (let n = length (name_parts p) in
         if n = 1 then [] else if n = 2 then [DUALNAMEPREFIX] else [MULTINAMEPREFIX, of_nat n]) @
        concat (name_parts p)))"

fun split_dot :: "string \<Rightarrow> string list" where
  "split_dot [] = [[]]"
| "split_dot (c # cs) =
     (if c = CHR ''.'' then [] # split_dot cs
      else (case split_dot cs of part # parts \<Rightarrow> (c # part) # parts | [] \<Rightarrow> [[c]]))"

definition path_new :: "string \<Rightarrow> path option" where
  "path_new name =
     (let root = (name \<noteq> [] \<and> hd name = CHR 0x5c);
          parent = (name \<noteq> [] \<and> hd name = CHR ''^'');
          offset = (if root \<or> parent then 1 else 0);
          parts = split_dot (drop offset name) in
      if list_all (\<lambda>part. length part = 4) parts
      then Some \<lparr>p_root = root, p_parent = parent, name_parts = map str_bytes parts\<rparr>
      else None)"

section \<open>Integers and strings\<close>

definition byte_aml :: "u8 \<Rightarrow> bytes" where
  "byte_aml b = (if b = 0 then [ZEROOP] else if b = 1 then [ONEOP] else [BYTEPREFIX, b])"

definition word_aml :: "u16 \<Rightarrow> bytes" where
  "word_aml w = (if w \<le> 0xff then byte_aml (ucast w) else WORDPREFIX # le16 w)"

definition dword_aml :: "u32 \<Rightarrow> bytes" where
  "dword_aml w = (if w \<le> 0xffff then word_aml (ucast w) else DWORDPREFIX # le32 w)"

definition qword_aml :: "u64 \<Rightarrow> bytes" where
  "qword_aml w = (if w \<le> 0xffffffff then dword_aml (ucast w) else QWORDPREFIX # le64 w)"

definition usize_aml :: "nat \<Rightarrow> bytes" where
  "usize_aml n = qword_aml (of_nat n)"

definition create_aml_string :: "bytes \<Rightarrow> bytes" where
  "create_aml_string v = [STRINGOP] @ v @ [0]"

definition to_digit16 :: "char \<Rightarrow> nat option" where
  "to_digit16 c =
     (let n = of_char c :: nat in
      if 48 \<le> n \<and> n \<le> 57 then Some (n - 48)
      else if 97 \<le> n \<and> n \<le> 102 then Some (n - 87)
      else if 65 \<le> n \<and> n \<le> 70 then Some (n - 55)
      else None)"

definition swap_bytes32 :: "u32 \<Rightarrow> u32" where
  "swap_bytes32 w = of_nat (from_le (rev (le32 w)))"

text \<open>
  \<open>name.chars().nth(6)\<close> exists only if none of the 7 bytes is part of a longer character.
\<close>

definition eisa_name_new :: "string \<Rightarrow> u32 option" where
  "eisa_name_new name =
     (if length name \<noteq> 7 \<or> \<not> list_all (\<lambda>c. (of_char c :: nat) < 128) name then None
      else
        Option.bind (those (map (\<lambda>b. checked_sub b NAMECHARBASE) (str_bytes (take 3 name)))) (\<lambda>u.
        Option.bind (those (map to_digit16 (drop 3 name))) (\<lambda>d.
          Some (swap_bytes32
            (push_bit 26 (ucast (u ! 0)) OR push_bit 21 (ucast (u ! 1)) OR push_bit 16 (ucast (u ! 2)) OR
             push_bit 12 (of_nat (d ! 0)) OR push_bit 8 (of_nat (d ! 1)) OR push_bit 4 (of_nat (d ! 2)) OR
             of_nat (d ! 3))))))"

definition hex2byte :: "char \<Rightarrow> char \<Rightarrow> u8 option" where
  "hex2byte v1 v2 =
     Option.bind (to_digit16 v1) (\<lambda>hi. Option.bind (to_digit16 v2) (\<lambda>lo.
       if hi \<le> 15 \<and> lo \<le> 15 then Some (push_bit 4 (of_nat hi) OR of_nat lo) else None))"

definition uuid_new :: "string \<Rightarrow> bytes option" where
  "uuid_new name =
     (if length name = 36 \<and> name ! 8 = CHR ''-'' \<and> name ! 13 = CHR ''-'' \<and> name ! 18 = CHR ''-'' \<and>
         name ! 23 = CHR ''-''
      then those [hex2byte (name ! 6) (name ! 7), hex2byte (name ! 4) (name ! 5),
                  hex2byte (name ! 2) (name ! 3), hex2byte (name ! 0) (name ! 1),
                  hex2byte (name ! 11) (name ! 12), hex2byte (name ! 9) (name ! 10),
                  hex2byte (name ! 16) (name ! 17), hex2byte (name ! 14) (name ! 15),
                  hex2byte (name ! 19) (name ! 20), hex2byte (name ! 21) (name ! 22),
                  hex2byte (name ! 24) (name ! 25), hex2byte (name ! 26) (name ! 27),
                  hex2byte (name ! 28) (name ! 29), hex2byte (name ! 30) (name ! 31),
                  hex2byte (name ! 32) (name ! 33), hex2byte (name ! 34) (name ! 35)]
      else None)"

section \<open>Package lengths\<close>

definition create_pkg_length :: "nat \<Rightarrow> bool \<Rightarrow> bytes" where
  "create_pkg_length len include_self =
     (let length_length =
            (if len < 2 ^ 6 - 1 then 1 else if len < 2 ^ 12 - 2 then 2
             else if len < 2 ^ 20 - 3 then 3 else 4);
          total = len + (if include_self then length_length else 0) in
      if length_length = 1 then [of_nat total]
      else if length_length = 2 then
        [push_bit 6 1 OR of_nat (total mod 16), of_nat (total div 2 ^ 4)]
      else if length_length = 3 then
        [push_bit 6 2 OR of_nat (total mod 16), of_nat (total div 2 ^ 4), of_nat (total div 2 ^ 12)]
      else
        [push_bit 6 3 OR of_nat (total mod 16), of_nat (total div 2 ^ 4), of_nat (total div 2 ^ 12),
         of_nat (total div 2 ^ 20)])"

section \<open>Containers\<close>

definition name_new :: "bytes \<Rightarrow> bytes \<Rightarrow> bytes" where
  "name_new pth inner = [NAMEOP] @ pth @ inner"

definition new_field_name :: "string \<Rightarrow> bytes" where
  "new_field_name s = str_bytes s"

definition package_aml :: "bytes list \<Rightarrow> bytes" where
  "package_aml children =
     (let bytes = [of_nat (length children)] @ concat children in
      [PACKAGEOP] @ create_pkg_length (length bytes) True @ bytes)"

record package_builder =
  pb_data :: bytes
  pb_elements :: nat

definition pb_new :: package_builder where
  "pb_new = \<lparr>pb_data = [], pb_elements = 0\<rparr>"

definition pb_byte :: "package_builder \<Rightarrow> u8 \<Rightarrow> package_builder" where
  "pb_byte pb b = pb\<lparr>pb_data := pb_data pb @ [b]\<rparr>"

definition pb_vec :: "package_builder \<Rightarrow> bytes \<Rightarrow> package_builder" where
  "pb_vec pb v = pb\<lparr>pb_data := pb_data pb @ v\<rparr>"

definition pb_add_element :: "bytes \<Rightarrow> package_builder \<Rightarrow> package_builder" where
  "pb_add_element element pb = (pb_vec pb element)\<lparr>pb_elements := pb_elements pb + 1\<rparr>"

definition package_builder_aml :: "package_builder \<Rightarrow> bytes" where
  "package_builder_aml pb =
     [PACKAGEOP] @ create_pkg_length (length (pb_data pb) + 1) True @ [of_nat (pb_elements pb)] @ pb_data pb"

definition var_package_aml :: "bytes \<Rightarrow> bytes" where
  "var_package_aml bytes = [VARPACKAGEOP] @ create_pkg_length (length bytes) True @ bytes"

definition resource_template_aml :: "bytes list \<Rightarrow> bytes" where
  "resource_template_aml children =
     (let bytes = concat children @ [ENDTAG, 0];
          buffer_length = usize_aml (length bytes) in
      [BUFFEROP] @ create_pkg_length (length bytes + length buffer_length) True @ buffer_length @ bytes)"

definition buffer_term_aml :: "bytes \<Rightarrow> bytes" where
  "buffer_term_aml bytes = [BUFFEROP] @ create_pkg_length (length bytes) True @ bytes"

definition buffer_data_aml :: "bytes \<Rightarrow> bytes" where
  "buffer_data_aml dat =
     (let bytes = usize_aml (length dat) @ dat in
      [BUFFEROP] @ create_pkg_length (length bytes) True @ bytes)"

definition device_aml :: "bytes \<Rightarrow> bytes list \<Rightarrow> bytes" where
  "device_aml pth children =
     (let bytes = pth @ concat children in
      [EXTOPPREFIX, DEVICEOP] @ create_pkg_length (length bytes) True @ bytes)"

definition scope_aml :: "bytes \<Rightarrow> bytes list \<Rightarrow> bytes" where
  "scope_aml pth children =
     (let bytes = pth @ concat children in
      [SCOPEOP] @ create_pkg_length (length bytes) True @ bytes)"

text \<open>\<open>copy_within(a..b, d)\<close> and \<open>copy_from_slice\<close> on a vector.\<close>

definition copy_within :: "'a list \<Rightarrow> nat \<Rightarrow> nat \<Rightarrow> nat \<Rightarrow> 'a list" where
  "copy_within xs a b d = take d xs @ take (b - a) (drop a xs) @ drop (d + (b - a)) xs"

definition overwrite :: "'a list \<Rightarrow> nat \<Rightarrow> 'a list \<Rightarrow> 'a list" where
  "overwrite xs i ys = take i xs @ ys @ drop (i + length ys) xs"

definition scope_raw :: "bytes \<Rightarrow> bytes \<Rightarrow> bytes" where
  "scope_raw pth children =
     (let bytes = [SCOPEOP] @ pth @ children;
          n = length bytes;
          pkg_length = create_pkg_length (n - 1) True;
          m = length pkg_length;
          bytes = bytes @ replicate m 0xFF;
          bytes = copy_within bytes 1 n (m + 1) in
      overwrite bytes 1 pkg_length)"

definition method_aml :: "bytes \<Rightarrow> u8 \<Rightarrow> bool \<Rightarrow> bytes list \<Rightarrow> bytes" where
  "method_aml pth args serialized children =
     (let flags = (args AND 0x7) OR push_bit 3 (of_bool8 serialized);
          bytes = pth @ [flags] @ concat children in
      [METHODOP] @ create_pkg_length (length bytes) True @ bytes)"

definition power_resource_aml :: "bytes \<Rightarrow> u8 \<Rightarrow> u16 \<Rightarrow> bytes list \<Rightarrow> bytes" where
  "power_resource_aml pth level order children =
     (let bytes = pth @ [level] @ le16 order @ concat children in
      [POWERRESOURCEOP, EXTOPPREFIX] @ create_pkg_length (length bytes) True @ bytes)"

definition if_aml :: "bytes \<Rightarrow> bytes list \<Rightarrow> bytes" where
  "if_aml predicate children =
     (let bytes = predicate @ concat children in
      [IFOP] @ create_pkg_length (length bytes) True @ bytes)"

definition else_aml :: "bytes list \<Rightarrow> bytes" where
  "else_aml body =
     (let bytes = concat body in [ELSEOP] @ create_pkg_length (length bytes) True @ bytes)"

definition while_aml :: "bytes \<Rightarrow> bytes list \<Rightarrow> bytes" where
  "while_aml predicate children =
     (let bytes = predicate @ concat children in
      [WHILEOP] @ create_pkg_length (length bytes) True @ bytes)"

section \<open>Resource descriptors\<close>

definition memory32_fixed_aml :: "bool \<Rightarrow> u32 \<Rightarrow> u32 \<Rightarrow> bytes" where
  "memory32_fixed_aml read_write base len =
     [MEMORY32FIXEDDESC] @ le16 9 @ [of_bool8 read_write] @ le32 base @ le32 len"

datatype address_space_type = Memory | IO | BusNumber

fun address_space_type_code :: "address_space_type \<Rightarrow> u8" where
  "address_space_type_code Memory = 0"
| "address_space_type_code IO = 1"
| "address_space_type_code BusNumber = 2"

datatype address_space_cacheable = NotCacheable | Cacheable | WriteCombining | PreFetchable

fun cacheable_code :: "address_space_cacheable \<Rightarrow> u8" where
  "cacheable_code NotCacheable = 0"
| "cacheable_code Cacheable = 1"
| "cacheable_code WriteCombining = 2"
| "cacheable_code PreFetchable = 3"

record 'a address_space =
  as_type :: address_space_type
  as_min :: 'a
  as_max :: 'a
  type_flags :: u8
  as_translation :: "'a option"

definition as_new_memory :: "address_space_cacheable \<Rightarrow> bool \<Rightarrow> 'a \<Rightarrow> 'a \<Rightarrow> 'a option \<Rightarrow> 'a address_space" where
  "as_new_memory cacheable read_write mi ma tr =
     \<lparr>as_type = Memory, as_min = mi, as_max = ma,
      type_flags = push_bit 1 (cacheable_code cacheable) OR of_bool8 read_write, as_translation = tr\<rparr>"

definition as_new_io :: "'a \<Rightarrow> 'a \<Rightarrow> 'a option \<Rightarrow> 'a address_space" where
  "as_new_io mi ma tr = \<lparr>as_type = IO, as_min = mi, as_max = ma, type_flags = 3, as_translation = tr\<rparr>"

definition as_new_bus_number :: "'a \<Rightarrow> 'a \<Rightarrow> 'a address_space" where
  "as_new_bus_number mi ma =
     \<lparr>as_type = BusNumber, as_min = mi, as_max = ma, type_flags = 0, as_translation = None\<rparr>"

definition push_header :: "'a address_space \<Rightarrow> u8 \<Rightarrow> nat \<Rightarrow> bytes" where
  "push_header a descriptor len =
     [descriptor] @ le16 (of_nat len) @ [address_space_type_code (as_type a), push_bit 2 1 OR push_bit 3 1, type_flags a]"

text \<open>
  The length field is \<^verbatim>\<open>max - min + 1\<close> in the width of the descriptor; the subtraction and the
  addition are the wrapping ones.
\<close>

definition address_space16_aml :: "u16 address_space \<Rightarrow> bytes" where
  "address_space16_aml a =
     push_header a WORDADDRSPACEDESC (3 + 5 * 2) @ le16 0 @ le16 (as_min a) @ le16 (as_max a) @
     le16 (case as_translation a of Some t \<Rightarrow> t | None \<Rightarrow> 0) @ le16 (as_max a - as_min a + 1)"

definition address_space32_aml :: "u32 address_space \<Rightarrow> bytes" where
  "address_space32_aml a =
     push_header a DWORDADDRSPACEDESC (3 + 5 * 4) @ le32 0 @ le32 (as_min a) @ le32 (as_max a) @
     le32 (case as_translation a of Some t \<Rightarrow> t | None \<Rightarrow> 0) @ le32 (as_max a - as_min a + 1)"

definition address_space64_aml :: "u64 address_space \<Rightarrow> bytes" where
  "address_space64_aml a =
     push_header a QWORDADDRSPACEDESC (3 + 5 * 8) @ le64 0 @ le64 (as_min a) @ le64 (as_max a) @
     le64 (case as_translation a of Some t \<Rightarrow> t | None \<Rightarrow> 0) @ le64 (as_max a - as_min a + 1)"

definition io_aml :: "u16 \<Rightarrow> u16 \<Rightarrow> u8 \<Rightarrow> u8 \<Rightarrow> bytes" where
  "io_aml mi ma alignment len = [IOPORTDESC, 1] @ le16 mi @ le16 ma @ [alignment, len]"

record interrupt =
  consumer :: bool
  edge_triggered :: bool
  active_low :: bool
  shared :: bool
  numbers :: "u32 list"

definition interrupt_new_multiple :: "bool \<Rightarrow> bool \<Rightarrow> bool \<Rightarrow> bool \<Rightarrow> u32 list \<Rightarrow> interrupt" where
  "interrupt_new_multiple c e l s ns =
     \<lparr>consumer = c, edge_triggered = e, active_low = l, shared = s, numbers = ns\<rparr>"

definition interrupt_new :: "bool \<Rightarrow> bool \<Rightarrow> bool \<Rightarrow> bool \<Rightarrow> u32 \<Rightarrow> interrupt" where
  "interrupt_new c e l s n = interrupt_new_multiple c e l s [n]"

definition interrupt_aml :: "interrupt \<Rightarrow> bytes" where
  "interrupt_aml i =
     (let flags = push_bit 3 (of_bool8 (shared i)) OR push_bit 2 (of_bool8 (active_low i)) OR
                  push_bit 1 (of_bool8 (edge_triggered i)) OR of_bool8 (consumer i) in
      [EXTIRQDESC] @ le16 (2 + 4 * of_nat (length (numbers i))) @ [flags, of_nat (length (numbers i))] @
      concat (map le32 (numbers i)))"

definition write_irq_mask_bytes :: "u8 \<Rightarrow> bytes option" where
  "write_irq_mask_bytes number =
     (if number \<le> 15 then
        Some (if number < 8 then [push_bit (unat number) 1, 0] else [0, push_bit (unat (number - 8)) 1])
      else None)"

definition irq_aml :: "bool \<Rightarrow> bool \<Rightarrow> bool \<Rightarrow> u8 \<Rightarrow> bytes option" where
  "irq_aml e l s number =
     map_option (\<lambda>m. [IRQDESC] @ m @
         [push_bit 4 (of_bool8 s) OR push_bit 3 (of_bool8 l) OR of_bool8 e])
       (write_irq_mask_bytes number)"

definition irq_no_flags_aml :: "u8 \<Rightarrow> bytes option" where
  "irq_no_flags_aml number = map_option (\<lambda>m. [IRQNOFLAGSDESC] @ m) (write_irq_mask_bytes number)"

subsection \<open>Generic addresses (\<^verbatim>\<open>gas.rs\<close>)\<close>

datatype gas_address_space = SystemMemory | SystemIo | PciConfigSpace | EmbeddedController | Smbus
  | SystemCmos | PciBarTarget | Ipmi | GeneralPursposeIo | GenericSerialBus
  | PlatformCommunicationsChannel | PlatformRuntimeMechanism | FunctionalFixedHardware

fun gas_address_space_code :: "gas_address_space \<Rightarrow> u8" where
  "gas_address_space_code SystemMemory = 0"
| "gas_address_space_code SystemIo = 1"
| "gas_address_space_code PciConfigSpace = 2"
| "gas_address_space_code EmbeddedController = 3"
| "gas_address_space_code Smbus = 4"
| "gas_address_space_code SystemCmos = 5"
| "gas_address_space_code PciBarTarget = 6"
| "gas_address_space_code Ipmi = 7"
| "gas_address_space_code GeneralPursposeIo = 8"
| "gas_address_space_code GenericSerialBus = 9"
| "gas_address_space_code PlatformCommunicationsChannel = 0xa"
| "gas_address_space_code PlatformRuntimeMechanism = 0xb"
| "gas_address_space_code FunctionalFixedHardware = 0x7f"

datatype gas_access_size = Undefined | ByteAccess | WordAccess | DwordAccess | QwordAccess

fun gas_access_size_code :: "gas_access_size \<Rightarrow> u8" where
  "gas_access_size_code Undefined = 0"
| "gas_access_size_code ByteAccess = 1"
| "gas_access_size_code WordAccess = 2"
| "gas_access_size_code DwordAccess = 3"
| "gas_access_size_code QwordAccess = 4"

record gas =
  g_address_space_id :: gas_address_space
  g_register_bit_width :: u8
  g_register_bit_offset :: u8
  g_access_size :: gas_access_size
  g_address :: u64

definition gas_new :: "gas_address_space \<Rightarrow> u8 \<Rightarrow> u8 \<Rightarrow> gas_access_size \<Rightarrow> u64 \<Rightarrow> gas" where
  "gas_new sp width off acc addr =
     \<lparr>g_address_space_id = sp, g_register_bit_width = width, g_register_bit_offset = off,
      g_access_size = acc, g_address = addr\<rparr>"

definition gas_new_pci_config :: "u8 \<Rightarrow> gas_access_size \<Rightarrow> u8 \<Rightarrow> u8 \<Rightarrow> u16 \<Rightarrow> gas" where
  "gas_new_pci_config width acc device fn reg =
     \<lparr>g_address_space_id = PciConfigSpace, g_register_bit_width = width, g_register_bit_offset = 0,
      g_access_size = acc,
      g_address = push_bit 32 (ucast device) OR push_bit 16 (ucast fn) OR ucast reg\<rparr>"

definition gas_bytes :: "gas \<Rightarrow> bytes" where
  "gas_bytes g = [gas_address_space_code (g_address_space_id g), g_register_bit_width g,
     g_register_bit_offset g, gas_access_size_code (g_access_size g)] @ le64 (g_address g)"

definition register_aml :: "gas \<Rightarrow> bytes" where
  "register_aml reg = [REGDESC] @ le16 0x12 @ gas_bytes reg"

section \<open>Fields and regions\<close>

datatype field_access_type = AnyAcc | ByteAcc | WordAcc | DWordAcc | QWordAcc | BufferAcc
datatype field_lock_rule = NoLock | Lock
datatype field_update_rule = Preserve | WriteAsOnes | WriteAsZeroes
datatype field_entry = Named bytes nat | Reserved nat

fun field_access_code :: "field_access_type \<Rightarrow> u8" where
  "field_access_code AnyAcc = 0"
| "field_access_code ByteAcc = 1"
| "field_access_code WordAcc = 2"
| "field_access_code DWordAcc = 3"
| "field_access_code QWordAcc = 4"
| "field_access_code BufferAcc = 5"

fun field_lock_code :: "field_lock_rule \<Rightarrow> u8" where
  "field_lock_code NoLock = 0"
| "field_lock_code Lock = 1"

fun field_update_code :: "field_update_rule \<Rightarrow> u8" where
  "field_update_code Preserve = 0"
| "field_update_code WriteAsOnes = 1"
| "field_update_code WriteAsZeroes = 2"

fun field_entry_bytes :: "field_entry \<Rightarrow> bytes" where
  "field_entry_bytes (Named name len) = name @ create_pkg_length len False"
| "field_entry_bytes (Reserved len) = [0] @ create_pkg_length len False"

definition field_aml :: "bytes \<Rightarrow> field_access_type \<Rightarrow> field_lock_rule \<Rightarrow> field_update_rule
    \<Rightarrow> field_entry list \<Rightarrow> bytes" where
  "field_aml pth acc lock upd entries =
     (let flags = field_access_code acc OR push_bit 4 (field_lock_code lock) OR
                  push_bit 5 (field_update_code upd);
          bytes = pth @ [flags] @ concat (map field_entry_bytes entries) in
      [EXTOPPREFIX, FIELDOP] @ create_pkg_length (length bytes) True @ bytes)"

datatype op_region_space = RSystemMemory | RSystemIO | RPCIConfig | REmbeddedControl | RSMBus
  | RSystemCMOS | RPciBarTarget | RIPMI | RGeneralPurposeIO | RGenericSerialBus

fun op_region_space_code :: "op_region_space \<Rightarrow> u8" where
  "op_region_space_code RSystemMemory = 0"
| "op_region_space_code RSystemIO = 1"
| "op_region_space_code RPCIConfig = 2"
| "op_region_space_code REmbeddedControl = 3"
| "op_region_space_code RSMBus = 4"
| "op_region_space_code RSystemCMOS = 5"
| "op_region_space_code RPciBarTarget = 6"
| "op_region_space_code RIPMI = 7"
| "op_region_space_code RGeneralPurposeIO = 8"
| "op_region_space_code RGenericSerialBus = 9"

definition op_region_aml :: "bytes \<Rightarrow> op_region_space \<Rightarrow> bytes \<Rightarrow> bytes \<Rightarrow> bytes" where
  "op_region_aml pth sp off len = [EXTOPPREFIX, OPREGIONOP] @ pth @ [op_region_space_code sp] @ off @ len"

section \<open>Operations\<close>

datatype compare_name = LogicalAnd | LogicalOr | Equal | LessThan | GreaterThan
  | LogicalNand | LogicalNor | NotEqual | GreaterEqual | LessEqual

fun compare_opcode :: "compare_name \<Rightarrow> u8 \<times> bool" where
  "compare_opcode LogicalAnd = (0x90, False)"
| "compare_opcode LogicalOr = (0x91, False)"
| "compare_opcode Equal = (0x93, False)"
| "compare_opcode LessThan = (0x95, False)"
| "compare_opcode GreaterThan = (0x94, False)"
| "compare_opcode LogicalNand = (0x90, True)"
| "compare_opcode LogicalNor = (0x91, True)"
| "compare_opcode NotEqual = (0x93, True)"
| "compare_opcode GreaterEqual = (0x95, True)"
| "compare_opcode LessEqual = (0x94, True)"

definition compare_aml :: "compare_name \<Rightarrow> bytes \<Rightarrow> bytes \<Rightarrow> bytes" where
  "compare_aml op l r =
     (case compare_opcode op of (opcode, invert) \<Rightarrow> (if invert then [LNOTOP] else []) @ [opcode] @ l @ r)"

definition arg_aml :: "u8 \<Rightarrow> bytes option" where
  "arg_aml n = (if n \<le> 6 then Some [ARG0OP + n] else None)"

definition local_aml :: "u8 \<Rightarrow> bytes option" where
  "local_aml n = (if n \<le> 7 then Some [LOCAL0OP + n] else None)"

definition store_aml :: "bytes \<Rightarrow> bytes \<Rightarrow> bytes" where
  "store_aml name val = [STOREOP] @ val @ name"

definition mutex_aml :: "bytes \<Rightarrow> u8 \<Rightarrow> bytes" where
  "mutex_aml pth sync_level = [EXTOPPREFIX, MUTEXOP] @ pth @ [sync_level]"

definition acquire_aml :: "bytes \<Rightarrow> u16 \<Rightarrow> bytes" where
  "acquire_aml mutex timeout = [EXTOPPREFIX, ACQUIREOP] @ mutex @ le16 timeout"

definition release_aml :: "bytes \<Rightarrow> bytes" where
  "release_aml mutex = [EXTOPPREFIX, RELEASEOP] @ mutex"

definition notify_aml :: "bytes \<Rightarrow> bytes \<Rightarrow> bytes" where
  "notify_aml object val = [NOTIFYOP] @ object @ val"

datatype object_name = ObjectType | SizeOf | Return | DeRefOf | LogicalNot

fun object_opcode :: "object_name \<Rightarrow> u8" where
  "object_opcode ObjectType = 0x8e"
| "object_opcode SizeOf = 0x87"
| "object_opcode Return = 0xa4"
| "object_opcode DeRefOf = 0x83"
| "object_opcode LogicalNot = 0x92"

definition object_aml :: "object_name \<Rightarrow> bytes \<Rightarrow> bytes" where
  "object_aml op a = [object_opcode op] @ a"

datatype binary_name = Add | Concat | Subtract | Multiply | ShiftLeft | ShiftRight | And | Nand | Or
  | Nor | Xor | ConcatRes | Mod | Index | ToString | CreateDWordField | CreateQWordField

fun binary_opcode :: "binary_name \<Rightarrow> u8" where
  "binary_opcode Add = 0x72"
| "binary_opcode Concat = 0x73"
| "binary_opcode Subtract = 0x74"
| "binary_opcode Multiply = 0x77"
| "binary_opcode ShiftLeft = 0x79"
| "binary_opcode ShiftRight = 0x7a"
| "binary_opcode And = 0x7b"
| "binary_opcode Nand = 0x7c"
| "binary_opcode Or = 0x7d"
| "binary_opcode Nor = 0x7e"
| "binary_opcode Xor = 0x7f"
| "binary_opcode ConcatRes = 0x84"
| "binary_opcode Mod = 0x85"
| "binary_opcode Index = 0x88"
| "binary_opcode ToString = 0x9c"
| "binary_opcode CreateDWordField = 0x8a"
| "binary_opcode CreateQWordField = 0x8f"

definition binary_aml :: "binary_name \<Rightarrow> bytes \<Rightarrow> bytes \<Rightarrow> bytes \<Rightarrow> bytes" where
  "binary_aml op tgt a b = [binary_opcode op] @ a @ b @ tgt"

datatype convert_name = ToBuffer | ToInteger

fun convert_opcode :: "convert_name \<Rightarrow> u8" where
  "convert_opcode ToBuffer = 0x96"
| "convert_opcode ToInteger = 0x99"

definition convert_aml :: "convert_name \<Rightarrow> bytes \<Rightarrow> bytes \<Rightarrow> bytes" where
  "convert_aml op tgt a = [convert_opcode op] @ a @ tgt"

definition create_field_aml :: "bytes \<Rightarrow> bytes \<Rightarrow> bytes \<Rightarrow> bytes \<Rightarrow> bytes" where
  "create_field_aml name source bit_index bit_num =
     [EXTOPPREFIX, CREATEFIELDOP] @ source @ bit_index @ bit_num @ name"

definition mid_aml :: "bytes \<Rightarrow> bytes \<Rightarrow> bytes \<Rightarrow> bytes \<Rightarrow> bytes" where
  "mid_aml source idx len res = [MIDOP] @ source @ idx @ len @ res"

definition method_call_aml :: "bytes \<Rightarrow> bytes list \<Rightarrow> bytes" where
  "method_call_aml name args = name @ concat args"

section \<open>Terms\<close>

text \<open>Terms without sub-terms, and the rest.\<close>

datatype aml_leaf =
    ZeroT | OneT | OnesT
  | PathT path
  | ByteT u8 | WordT u16 | DWordT u32 | QWordT u64 | UsizeT nat
  | FieldNameT string
  | EISANameT string
  | StrT string
  | Memory32FixedT bool u32 u32
  | AddressSpace16T "u16 address_space"
  | AddressSpace32T "u32 address_space"
  | AddressSpace64T "u64 address_space"
  | IOT u16 u16 u8 u8
  | InterruptT interrupt
  | IrqT bool bool bool u8
  | IrqNoFlagsT u8
  | RegisterT gas
  | FieldT path field_access_type field_lock_rule field_update_rule "field_entry list"
  | ArgT u8
  | LocalT u8
  | MutexT path u8
  | AcquireT path u16
  | ReleaseT path
  | BufferDataT bytes
  | UuidT string

datatype aml =
    LeafT aml_leaf
  | NameT path aml
  | PackageT "aml list"
  | PackageBuilderT "aml list"
  | VarPackageT aml
  | ResourceTemplateT "aml list"
  | DeviceT path "aml list"
  | ScopeT path "aml list"
  | MethodT path u8 bool "aml list"
  | OpRegionT path op_region_space aml aml
  | IfT aml "aml list"
  | ElseT "aml list"
  | CompareT compare_name aml aml
  | StoreT aml aml
  | NotifyT aml aml
  | WhileT aml "aml list"
  | ObjectT object_name aml
  | BinaryT binary_name aml aml aml
  | ConvertT convert_name aml aml
  | CreateFieldT aml aml aml aml
  | MidT aml aml aml aml
  | MethodCallT path "aml list"
  | BufferTermT aml
  | PowerResourceT path u8 u16 "aml list"

definition map2o :: "('a \<Rightarrow> 'b \<Rightarrow> 'c) \<Rightarrow> 'a option \<Rightarrow> 'b option \<Rightarrow> 'c option" where
  "map2o f x y = Option.bind x (\<lambda>a. map_option (f a) y)"

primrec leaf_bytes :: "aml_leaf \<Rightarrow> bytes option" where
  "leaf_bytes ZeroT = Some [ZEROOP]"
| "leaf_bytes OneT = Some [ONEOP]"
| "leaf_bytes OnesT = Some [ONESOP]"
| "leaf_bytes (PathT p) = path_bytes p"
| "leaf_bytes (ByteT b) = Some (byte_aml b)"
| "leaf_bytes (WordT w) = Some (word_aml w)"
| "leaf_bytes (DWordT w) = Some (dword_aml w)"
| "leaf_bytes (QWordT w) = Some (qword_aml w)"
| "leaf_bytes (UsizeT n) = Some (usize_aml n)"
| "leaf_bytes (FieldNameT s) = Some (new_field_name s)"
| "leaf_bytes (EISANameT s) = map_option dword_aml (eisa_name_new s)"
| "leaf_bytes (StrT s) = Some (create_aml_string (str_bytes s))"
| "leaf_bytes (Memory32FixedT rw b l) = Some (memory32_fixed_aml rw b l)"
| "leaf_bytes (AddressSpace16T a) = Some (address_space16_aml a)"
| "leaf_bytes (AddressSpace32T a) = Some (address_space32_aml a)"
| "leaf_bytes (AddressSpace64T a) = Some (address_space64_aml a)"
| "leaf_bytes (IOT mi ma al l) = Some (io_aml mi ma al l)"
| "leaf_bytes (InterruptT i) = Some (interrupt_aml i)"
| "leaf_bytes (IrqT e l s n) = irq_aml e l s n"
| "leaf_bytes (IrqNoFlagsT n) = irq_no_flags_aml n"
| "leaf_bytes (RegisterT g) = Some (register_aml g)"
| "leaf_bytes (FieldT p acc lock upd fs) = map_option (\<lambda>pb. field_aml pb acc lock upd fs) (path_bytes p)"
| "leaf_bytes (ArgT n) = arg_aml n"
| "leaf_bytes (LocalT n) = local_aml n"
| "leaf_bytes (MutexT p l) = map_option (\<lambda>pb. mutex_aml pb l) (path_bytes p)"
| "leaf_bytes (AcquireT p t) = map_option (\<lambda>pb. acquire_aml pb t) (path_bytes p)"
| "leaf_bytes (ReleaseT p) = map_option release_aml (path_bytes p)"
| "leaf_bytes (BufferDataT d) = Some (buffer_data_aml d)"
| "leaf_bytes (UuidT s) = map_option buffer_data_aml (uuid_new s)"

primrec aml_bytes :: "aml \<Rightarrow> bytes option" where
  "aml_bytes (LeafT l) = leaf_bytes l"
| "aml_bytes (NameT p t) = map2o name_new (path_bytes p) (aml_bytes t)"
| "aml_bytes (PackageT ts) = map_option package_aml (those (map aml_bytes ts))"
| "aml_bytes (PackageBuilderT ts) =
     map_option (\<lambda>bs. package_builder_aml (fold pb_add_element bs pb_new)) (those (map aml_bytes ts))"
| "aml_bytes (VarPackageT t) = map_option var_package_aml (aml_bytes t)"
| "aml_bytes (ResourceTemplateT ts) = map_option resource_template_aml (those (map aml_bytes ts))"
| "aml_bytes (DeviceT p ts) = map2o device_aml (path_bytes p) (those (map aml_bytes ts))"
| "aml_bytes (ScopeT p ts) = map2o scope_aml (path_bytes p) (those (map aml_bytes ts))"
| "aml_bytes (MethodT p n ser ts) =
     map2o (\<lambda>pb. method_aml pb n ser) (path_bytes p) (those (map aml_bytes ts))"
| "aml_bytes (OpRegionT p sp off len) =
     Option.bind (path_bytes p) (\<lambda>pb. map2o (op_region_aml pb sp) (aml_bytes off) (aml_bytes len))"
| "aml_bytes (IfT c ts) = map2o if_aml (aml_bytes c) (those (map aml_bytes ts))"
| "aml_bytes (ElseT ts) = map_option else_aml (those (map aml_bytes ts))"
| "aml_bytes (CompareT op l r) = map2o (compare_aml op) (aml_bytes l) (aml_bytes r)"
| "aml_bytes (StoreT nm v) = map2o store_aml (aml_bytes nm) (aml_bytes v)"
| "aml_bytes (NotifyT ob v) = map2o notify_aml (aml_bytes ob) (aml_bytes v)"
| "aml_bytes (WhileT c ts) = map2o while_aml (aml_bytes c) (those (map aml_bytes ts))"
| "aml_bytes (ObjectT op a) = map_option (object_aml op) (aml_bytes a)"
| "aml_bytes (BinaryT op tgt a b) =
     Option.bind (aml_bytes tgt) (\<lambda>tb. map2o (binary_aml op tb) (aml_bytes a) (aml_bytes b))"
| "aml_bytes (ConvertT op tgt a) = map2o (convert_aml op) (aml_bytes tgt) (aml_bytes a)"
| "aml_bytes (CreateFieldT nm src i n) =
     Option.bind (aml_bytes nm) (\<lambda>nb. Option.bind (aml_bytes src) (\<lambda>sb.
       map2o (create_field_aml nb sb) (aml_bytes i) (aml_bytes n)))"
| "aml_bytes (MidT src i n res) =
     Option.bind (aml_bytes src) (\<lambda>sb. Option.bind (aml_bytes i) (\<lambda>ib.
       map2o (mid_aml sb ib) (aml_bytes n) (aml_bytes res)))"
| "aml_bytes (MethodCallT p ts) = map2o method_call_aml (path_bytes p) (those (map aml_bytes ts))"
| "aml_bytes (BufferTermT t) = map_option buffer_term_aml (aml_bytes t)"
| "aml_bytes (PowerResourceT p l ord ts) =
     map2o (\<lambda>pb. power_resource_aml pb l ord) (path_bytes p) (those (map aml_bytes ts))"

end
