(* ===== verification/AmlCodec.thy ===== *)
theory AmlCodec
  imports Aml
begin

text \<open>
  Decoders for what \<open>Aml\<close> encodes, and the facts that connect them: package lengths, the
  integers, packaged terms, and the routines that build the same bytes another way.
  A decoder takes the bytes it needs off the front and returns the rest.
\<close>

section \<open>Package lengths\<close>

text \<open>The decoder of the ACPI rule quoted in the source: the two high bits of the lead byte count the
  bytes that follow.\<close>

fun decode_pkg_length :: "bytes \<Rightarrow> (nat \<times> bytes) option" where
  "decode_pkg_length [] = None"
| "decode_pkg_length (b # bs) =
     (let n = unat b div 64 in
      if n = 0 then Some (unat b, bs)
      else if length bs < n then None
      else Some (unat b mod 16 + 16 * from_le (take n bs), drop n bs))"

definition pkg_length_length :: "nat \<Rightarrow> nat" where
  "pkg_length_length len =
     (if len < 2 ^ 6 - 1 then 1 else if len < 2 ^ 12 - 2 then 2 else if len < 2 ^ 20 - 3 then 3 else 4)"

lemma length_create_pkg_length [simp]: "length (create_pkg_length len s) = pkg_length_length len"
  by (simp add: create_pkg_length_def pkg_length_length_def Let_def)

lemma lead_byte:
  assumes "n < 4" and "x < (16 :: nat)"
  shows "unat (push_bit 6 (of_nat n) OR of_nat x :: u8) = 64 * n + x"
proof -
  have n: "n = 0 \<or> n = 1 \<or> n = 2 \<or> n = 3" using assms(1) by arith
  have x: "x = 0 \<or> x = 1 \<or> x = 2 \<or> x = 3 \<or> x = 4 \<or> x = 5 \<or> x = 6 \<or> x = 7 \<or> x = 8 \<or> x = 9 \<or>
      x = 10 \<or> x = 11 \<or> x = 12 \<or> x = 13 \<or> x = 14 \<or> x = 15"
    using assms(2) by arith
  show ?thesis using n x by (elim disjE) simp_all
qed

lemma unat_of_nat8: "unat (of_nat n :: u8) = n mod 256"
  by (simp add: unat_of_nat)

lemma decode_create_pkg_length:
  assumes "len + 4 < 2 ^ 28"
  shows "decode_pkg_length (create_pkg_length len self @ rest) =
    Some (len + (if self then pkg_length_length len else 0), rest)"
proof -
  define total where "total = len + (if self then pkg_length_length len else 0)"
  have lead: "unat (push_bit 6 1 OR of_nat (total mod 16) :: u8) = 64 + total mod 16"
      "unat (push_bit 6 2 OR of_nat (total mod 16) :: u8) = 128 + total mod 16"
      "unat (push_bit 6 3 OR of_nat (total mod 16) :: u8) = 192 + total mod 16"
    using lead_byte [of 1 "total mod 16"] lead_byte [of 2 "total mod 16"] lead_byte [of 3 "total mod 16"]
    by simp_all
  have split: "total mod 16 + 16 * (total div 16) = total" by simp
  have y: "total mod 16 < 16" by simp
  have "(64 * q + total mod 16) div 64 = q" for q
    by (rule div_nat_eqI) (use y in simp_all)
  from this [of 1] this [of 2] this [of 3]
  have quot: "(64 + total mod 16) div 64 = 1" "(128 + total mod 16) div 64 = 2" "(192 + total mod 16) div 64 = 3"
    by simp_all
  have "(16 * q + y) mod 16 = y mod 16" for q y :: nat by simp
  from this [of 4 "total mod 16"] this [of 8 "total mod 16"] this [of 12 "total mod 16"]
  have rem: "(64 + total mod 16) mod 16 = total mod 16" "(128 + total mod 16) mod 16 = total mod 16"
      "(192 + total mod 16) mod 16 = total mod 16"
    by (simp_all only: mod_mod_trivial) simp_all
  consider "len < 63" | "63 \<le> len" "len < 4094" | "4094 \<le> len" "len < 1048573" | "1048573 \<le> len"
    by linarith
  then show ?thesis
  proof cases
    case 1
    then have c: "create_pkg_length len self = [of_nat total]" "total < 64"
      by (simp_all add: create_pkg_length_def total_def pkg_length_length_def)
    then show ?thesis unfolding c(1) total_def [symmetric] by (simp add: unat_of_nat8)
  next
    case 2
    then have c: "create_pkg_length len self =
        [push_bit 6 1 OR of_nat (total mod 16), of_nat (total div 2 ^ 4)]" "total < 4096"
      by (simp_all add: create_pkg_length_def total_def pkg_length_length_def Let_def)
    then have "total div 16 < 256" by (simp add: less_mult_imp_div_less)
    then show ?thesis unfolding c(1) total_def [symmetric]
      using lead split by (simp add: unat_of_nat8 quot rem)
  next
    case 3
    then have c: "create_pkg_length len self =
        [push_bit 6 2 OR of_nat (total mod 16), of_nat (total div 2 ^ 4), of_nat (total div 2 ^ 12)]"
        "total < 1048576"
      by (simp_all add: create_pkg_length_def total_def pkg_length_length_def Let_def)
    then have "total div 4096 < 256" by (simp add: less_mult_imp_div_less)
    moreover have "total div 16 mod 256 + 256 * (total div 4096) = total div 16"
      using mod_mult_div_eq [of "total div 16" 256] by (simp flip: div_mult2_eq)
    ultimately show ?thesis unfolding c(1) total_def [symmetric]
      using lead split by (simp add: unat_of_nat8 quot rem)
  next
    case 4
    then have c: "create_pkg_length len self =
        [push_bit 6 3 OR of_nat (total mod 16), of_nat (total div 2 ^ 4), of_nat (total div 2 ^ 12),
         of_nat (total div 2 ^ 20)]" "total < 268435456"
      using assms by (simp_all add: create_pkg_length_def total_def pkg_length_length_def Let_def)
    then have "total div 1048576 < 256" by (simp add: less_mult_imp_div_less)
    moreover have "total div 16 mod 256 + 256 * (total div 4096 mod 256 + 256 * (total div 1048576)) = total div 16"
      using mod_mult_div_eq [of "total div 16" 256] mod_mult_div_eq [of "total div 4096" 256]
      by (simp flip: div_mult2_eq)
    ultimately show ?thesis unfolding c(1) total_def [symmetric]
      using lead split by (simp add: unat_of_nat8 quot rem)
  qed
qed

section \<open>Packages\<close>

text \<open>A packaged term: an opcode, the length of what follows, and a body of that length.\<close>

definition packaged :: "bytes \<Rightarrow> bytes \<Rightarrow> bytes" where
  "packaged op body = op @ create_pkg_length (length body) True @ body"

definition read_package :: "bytes \<Rightarrow> bytes \<Rightarrow> (bytes \<times> bytes) option" where
  "read_package op bs =
     (if take (length op) bs \<noteq> op then None
      else Option.bind (decode_pkg_length (drop (length op) bs)) (\<lambda>(total, rest).
        let n = total - (length bs - length op - length rest) in
        if length rest < n then None else Some (take n rest, drop n rest)))"

lemma read_packaged:
  assumes "length body + 4 < 2 ^ 28"
  shows "read_package op (packaged op body @ rest) = Some (body, rest)"
proof -
  note d = decode_create_pkg_length [OF assms, of True "body @ rest"]
  then show ?thesis by (simp add: read_package_def packaged_def)
qed

lemma packaged_terms:
  "package_aml children = packaged [PACKAGEOP] ([of_nat (length children)] @ concat children)"
  "var_package_aml b = packaged [VARPACKAGEOP] b"
  "buffer_term_aml b = packaged [BUFFEROP] b"
  "buffer_data_aml d = packaged [BUFFEROP] (usize_aml (length d) @ d)"
  "device_aml p children = packaged [EXTOPPREFIX, DEVICEOP] (p @ concat children)"
  "scope_aml p children = packaged [SCOPEOP] (p @ concat children)"
  "method_aml p n ser children =
     packaged [METHODOP] (p @ [(n AND 0x7) OR push_bit 3 (of_bool8 ser)] @ concat children)"
  "if_aml c children = packaged [IFOP] (c @ concat children)"
  "else_aml children = packaged [ELSEOP] (concat children)"
  "while_aml c children = packaged [WHILEOP] (c @ concat children)"
  by (simp_all add: package_aml_def var_package_aml_def buffer_term_aml_def buffer_data_aml_def device_aml_def
      scope_aml_def method_aml_def if_aml_def else_aml_def while_aml_def packaged_def Let_def)

lemma resource_template_packaged:
  "resource_template_aml children =
     packaged [BUFFEROP] (usize_aml (length (concat children) + 2) @ concat children @ [ENDTAG, 0])"
proof -
  have "length (concat children @ [ENDTAG, 0]) = length (concat children) + 2" by simp
  then show ?thesis unfolding resource_template_aml_def packaged_def Let_def by (simp add: add.commute)
qed

lemma fold_pb_add_element:
  "fold pb_add_element bs pb =
     \<lparr>pb_data = pb_data pb @ concat bs, pb_elements = pb_elements pb + length bs\<rparr>"
  by (induction bs arbitrary: pb) (simp_all add: pb_add_element_def pb_vec_def)

interpretation package_builder_sink: aml_sink pb_byte pb_vec
proof
  have "foldl pb_byte s bs = pb_vec s bs" for s bs
    by (induction bs arbitrary: s) (simp_all add: pb_vec_def pb_byte_def)
  then show "pb_vec s bs = foldl pb_byte s bs" for s bs by simp
qed

lemma package_builder_eq: "package_builder_aml (fold pb_add_element bs pb_new) = package_aml bs"
  by (simp add: fold_pb_add_element package_builder_aml_def package_aml_def pb_new_def)

lemma scope_raw_eq: "scope_raw p children = scope_aml p [children]"
  by (simp add: scope_raw_def scope_aml_def Let_def copy_within_def overwrite_def)

section \<open>Integers\<close>

fun decode_int :: "bytes \<Rightarrow> (nat \<times> bytes) option" where
  "decode_int [] = None"
| "decode_int (b # bs) =
     (let field = (\<lambda>n. if length bs < n then None else Some (from_le (take n bs), drop n bs)) in
      if b = ZEROOP then Some (0, bs) else if b = ONEOP then Some (1, bs)
      else if b = BYTEPREFIX then field 1 else if b = WORDPREFIX then field 2
      else if b = DWORDPREFIX then field 4 else if b = QWORDPREFIX then field 8 else None)"

lemma decode_byte: "decode_int (byte_aml b @ rest) = Some (unat b, rest)"
  by (simp add: byte_aml_def)

lemma unat_narrow:
  "(w :: u16) \<le> 0xff \<Longrightarrow> unat (ucast w :: u8) = unat w"
  "(x :: u32) \<le> 0xffff \<Longrightarrow> unat (ucast x :: u16) = unat x"
  "(y :: u64) \<le> 0xffffffff \<Longrightarrow> unat (ucast y :: u32) = unat y"
  by (simp_all add: unsigned_ucast_eq take_bit_eq_mod word_le_nat_alt)

lemma decode_word: "decode_int (word_aml w @ rest) = Some (unat w, rest)"
  by (simp add: word_aml_def decode_byte unat_narrow le_roundtrip)

lemma decode_dword: "decode_int (dword_aml w @ rest) = Some (unat w, rest)"
  by (simp add: dword_aml_def decode_word unat_narrow le_roundtrip)

lemma decode_qword: "decode_int (qword_aml w @ rest) = Some (unat w, rest)"
  by (simp add: qword_aml_def decode_dword unat_narrow le_roundtrip)

lemma from_le_less: "from_le bs < 256 ^ length bs"
proof (induction bs)
  case (Cons b bs)
  have "unat b < 256" using unsigned_less [of b, where 'a = nat] by simp
  then have "unat b + 256 * from_le bs < 256 * (from_le bs + 1)" by simp
  also have "\<dots> \<le> 256 * 256 ^ length bs" using Cons by (intro mult_le_mono2) simp
  finally show ?case by simp
qed simp

lemma decode_int_shorter:
  assumes "decode_int bs = Some (n, [])"
  shows "(length bs = 1 \<and> n < 2) \<or> (length bs = 2 \<and> n < 2 ^ 8) \<or> (length bs = 3 \<and> n < 2 ^ 16) \<or>
    (length bs = 5 \<and> n < 2 ^ 32) \<or> (length bs = 9 \<and> n < 2 ^ 64)"
proof (cases bs)
  case (Cons b cs)
  have "cs \<noteq> [] \<Longrightarrow> length cs \<le> Suc 0 \<Longrightarrow> length cs = Suc 0" by (cases cs) auto
  with Cons show ?thesis
    using assms from_le_less [of cs] by (auto simp: Let_def split: if_splits)
qed (use assms in simp)

lemma length_qword_aml:
  "length (qword_aml w) =
    (if unat w < 2 then 1 else if unat w < 2 ^ 8 then 2 else if unat w < 2 ^ 16 then 3
     else if unat w < 2 ^ 32 then 5 else 9)"
proof -
  have small: "(b = 0 \<or> b = 1) = (unat b < 2)" for b :: u8
    by (auto simp: word_unat_eq_iff)
  have "length (byte_aml b) = (if unat b < 2 then 1 else 2)" for b
    using small [of b] by (auto simp: byte_aml_def)
  then show ?thesis
    by (auto simp: qword_aml_def dword_aml_def word_aml_def unat_narrow word_le_nat_alt)
qed

section \<open>Containers\<close>

text \<open>The opcode of a term that carries a package length, as the ACPI specification gives it.\<close>

primrec container_op :: "aml \<Rightarrow> bytes option" where
  "container_op (LeafT l) = (case l of BufferDataT d \<Rightarrow> Some [BUFFEROP] | _ \<Rightarrow> None)"
| "container_op (NameT p t) = None"
| "container_op (PackageT ts) = Some [PACKAGEOP]"
| "container_op (PackageBuilderT ts) = Some [PACKAGEOP]"
| "container_op (VarPackageT t) = Some [VARPACKAGEOP]"
| "container_op (ResourceTemplateT ts) = Some [BUFFEROP]"
| "container_op (DeviceT p ts) = Some [EXTOPPREFIX, DEVICEOP]"
| "container_op (ScopeT p ts) = Some [SCOPEOP]"
| "container_op (MethodT p n ser ts) = Some [METHODOP]"
| "container_op (OpRegionT p sp x y) = None"
| "container_op (IfT c ts) = Some [IFOP]"
| "container_op (ElseT ts) = Some [ELSEOP]"
| "container_op (CompareT op x y) = None"
| "container_op (StoreT x y) = None"
| "container_op (NotifyT x y) = None"
| "container_op (WhileT c ts) = Some [WHILEOP]"
| "container_op (ObjectT op x) = None"
| "container_op (BinaryT op x y z) = None"
| "container_op (ConvertT op x y) = None"
| "container_op (CreateFieldT x y z w) = None"
| "container_op (MidT x y z w) = None"
| "container_op (MethodCallT p ts) = None"
| "container_op (BufferTermT t) = Some [BUFFEROP]"
| "container_op (PowerResourceT p l n ts) = None"

lemma container_packaged:
  assumes "container_op t = Some op" and "aml_bytes t = Some b"
  shows "\<exists>body. b = packaged op body"
  using assms
  by (cases t)
    (auto simp: packaged_terms resource_template_packaged package_builder_eq map2o_def bind_eq_Some_conv
      split: aml_leaf.splits)

section \<open>Properties\<close>



text \<open>
  Integers round trip and are shortest.  Decoding the encoding of a 64-bit integer gives the
  integer back, and no byte string that decodes to the same integer is shorter.
\<close>

theorem integer_roundtrip_minimal:
  "decode_int (qword_aml w @ rest) = Some (unat w, rest) \<and>
   (\<forall>bs. decode_int bs = Some (unat w, []) \<longrightarrow> length (qword_aml w) \<le> length bs)"
  using decode_qword decode_int_shorter [of _ "unat w"] by (fastforce simp: length_qword_aml)

theorem integer_roundtrip_minimal_witness:
  "decode_int [DWORDPREFIX, 0x34, 0x12, 0, 0] = Some (unat (0x1234 :: u64), []) \<and>
   length (qword_aml 0x1234) \<le> 5"
proof -
  have d: "decode_int [DWORDPREFIX, 0x34, 0x12, 0, 0] = Some (unat (0x1234 :: u64), [])" by simp
  show ?thesis using integer_roundtrip_minimal [of "0x1234" "[]"] d by fastforce
qed


definition sample_path :: path where
  "sample_path = \<lparr>p_root = False, p_parent = False, name_parts = [str_bytes ''PCI0'']\<rparr>"


text \<open>
  Two ways to build the same bytes.  A package built element by element with \<open>PackageBuilder\<close>
  equals the package of the same terms, and \<open>Scope::raw\<close>, which moves the children inside one vector to
  make room for the length, equals the scope of those children.
\<close>

theorem builders_agree:
  "aml_bytes (PackageBuilderT ts) = aml_bytes (PackageT ts) \<and>
   (those (map aml_bytes ts) = Some bs \<longrightarrow>
      aml_bytes (ScopeT p ts) = map_option (\<lambda>pb. scope_raw pb (concat bs)) (path_bytes p))"
  by (cases "path_bytes p") (auto simp: package_builder_eq scope_raw_eq scope_aml_def map2o_def)

theorem builders_agree_witness:
  "aml_bytes (ScopeT sample_path [LeafT ZeroT, LeafT OneT]) =
     map_option (\<lambda>pb. scope_raw pb [0, 1]) (path_bytes sample_path)"
  using builders_agree [of "[LeafT ZeroT, LeafT OneT]" "[[0], [1]]" sample_path] by simp

text \<open>
  \<open>PowerResource\<close> writes its two opcode bytes in the wrong order: 0x84 0x5b.  The extended opcode
  of a power resource is the prefix 0x5b followed by 0x84, so a reader does not find it; and 0x84 on
  its own is the opcode of \<open>ConcatRes\<close>.
\<close>

theorem power_resource_prefix_swapped:
  assumes "aml_bytes (PowerResourceT p level order ts) = Some b"
  shows "take 2 b = [POWERRESOURCEOP, EXTOPPREFIX] \<and>
    read_package [EXTOPPREFIX, POWERRESOURCEOP] b = None \<and> hd b = binary_opcode ConcatRes"
  using assms
  by (auto simp: map2o_def bind_eq_Some_conv power_resource_aml_def Let_def read_package_def)

theorem power_resource_prefix_swapped_witness:
  "\<exists>b. aml_bytes (PowerResourceT sample_path 1 0 []) = Some b \<and>
     read_package [EXTOPPREFIX, POWERRESOURCEOP] b = None"
proof -
  obtain b where b: "aml_bytes (PowerResourceT sample_path 1 0 []) = Some b"
    by (simp add: map2o_def path_bytes_def sample_path_def)
  from power_resource_prefix_swapped [OF b] b show ?thesis by blast
qed

end
