(* ===== verification/AcpiTables.thy ===== *)
theory AcpiTables
  imports AcpiBytes
begin

text \<open>
  ACPI tables of \<^verbatim>\<open>acpi_tables/src\<close>: \<^verbatim>\<open>sdt.rs\<close>, \<^verbatim>\<open>rsdp.rs\<close>, \<^verbatim>\<open>xsdt.rs\<close>, \<^verbatim>\<open>mcfg.rs\<close>, \<^verbatim>\<open>slit.rs\<close>,
  \<^verbatim>\<open>bert.rs\<close> and \<^verbatim>\<open>facs.rs\<close>.  A table is valid when its bytes sum to zero and its length field is
  its length; every way the code builds or changes a table is shown to keep it valid.  The
  tables that keep a running checksum share the locale \<open>running_table\<close>.  \<open>None\<close> is a panic.  Length
  fields are 32-bit words and their arithmetic wraps, as in a release build; the theorems bound the
  lengths so that it does not.
\<close>

section \<open>Validity\<close>

definition valid_table :: "u8 list \<Rightarrow> bool" where
  "valid_table bs \<longleftrightarrow> TABLE_HEADER_LEN \<le> length bs \<and> sum_list bs = 0 \<and>
     from_le (take 4 (drop 4 bs)) = length bs"

section \<open>The generic table (sdt.rs)\<close>

record generic_address =
  ga_address_space_id :: u8
  ga_register_bit_width :: u8
  ga_register_bit_offset :: u8
  ga_access_size :: u8
  ga_address :: u64

definition access_size_of :: "nat \<Rightarrow> u8 option" where
  "access_size_of n =
     (if n = 1 then Some 1 else if n = 2 then Some 2 else if n = 4 then Some 3
      else if n = 8 then Some 4 else None)"

definition io_port_address :: "nat \<Rightarrow> u16 \<Rightarrow> generic_address option" where
  "io_port_address sz addr =
     map_option (\<lambda>acc. \<lparr>ga_address_space_id = 1, ga_register_bit_width = 8 * of_nat sz,
       ga_register_bit_offset = 0, ga_access_size = acc, ga_address = ucast addr\<rparr>) (access_size_of sz)"

definition mmio_address :: "nat \<Rightarrow> u64 \<Rightarrow> generic_address option" where
  "mmio_address sz addr =
     map_option (\<lambda>acc. \<lparr>ga_address_space_id = 0, ga_register_bit_width = 8 * of_nat sz,
       ga_register_bit_offset = 0, ga_access_size = acc, ga_address = addr\<rparr>) (access_size_of sz)"

type_synonym sdt = "u8 list"

definition update_checksum :: "sdt \<Rightarrow> sdt option" where
  "update_checksum dat =
     (if length dat \<le> 9 then None
      else let dat = dat[9 := 0]; ck = generate_checksum dat in Some (dat[9 := ck]))"

definition sdt_new :: "u8 list \<Rightarrow> u32 \<Rightarrow> u8 \<Rightarrow> u8 list \<Rightarrow> u8 list \<Rightarrow> u32 \<Rightarrow> sdt option" where
  "sdt_new sig len rv oem oem_table oem_rev =
     (if len < 36 then None
      else let dat = sig @ le32 len @ [rv, 0] @ oem @ oem_table @ le32 oem_rev @ CREATOR_ID @ CREATOR_REVISION in
        if length dat \<noteq> 36 then None
        else update_checksum (dat @ replicate (unat len - 36) 0))"

definition write_bytes :: "nat \<Rightarrow> u8 list \<Rightarrow> sdt \<Rightarrow> sdt option" where
  "write_bytes off v dat =
     (if off + length v \<le> length dat
      then update_checksum (take off dat @ v @ drop (off + length v) dat) else None)"

definition write_u8 :: "nat \<Rightarrow> u8 \<Rightarrow> sdt \<Rightarrow> sdt option" where
  "write_u8 off v = write_bytes off [v]"

definition write_u16 :: "nat \<Rightarrow> u16 \<Rightarrow> sdt \<Rightarrow> sdt option" where
  "write_u16 off v = write_bytes off (le16 v)"

definition write_u32 :: "nat \<Rightarrow> u32 \<Rightarrow> sdt \<Rightarrow> sdt option" where
  "write_u32 off v = write_bytes off (le32 v)"

definition write_u64 :: "nat \<Rightarrow> u64 \<Rightarrow> sdt \<Rightarrow> sdt option" where
  "write_u64 off v = write_bytes off (le64 v)"

definition sdt_append :: "u8 list \<Rightarrow> sdt \<Rightarrow> sdt option" where
  "sdt_append v dat =
     (let orig_length = length dat; new_length = orig_length + length v;
          dat = dat @ replicate (length v) 0 in
      Option.bind (write_u32 4 (of_nat new_length) dat) (write_bytes orig_length v))"

definition append_slice :: "u8 list \<Rightarrow> sdt \<Rightarrow> sdt option" where
  "append_slice v dat =
     (let new_length = length dat + length v in
      Option.bind (write_u32 4 (of_nat new_length) dat) (\<lambda>dat. update_checksum (dat @ v)))"

section \<open>The root pointer (rsdp.rs)\<close>

record rsdp =
  rsdp_signature :: "u8 list"
  rsdp_checksum :: u8
  rsdp_oem_id :: "u8 list"
  rsdp_revision :: u8
  rsdt_addr :: u32
  rsdp_length :: u32
  xsdt_addr :: u64
  extended_checksum :: u8
  rsdp_reserved :: "u8 list"

definition rsdp_bytes :: "rsdp \<Rightarrow> u8 list" where
  "rsdp_bytes r = rsdp_signature r @ [rsdp_checksum r] @ rsdp_oem_id r @ [rsdp_revision r] @ le32 (rsdt_addr r) @
     le32 (rsdp_length r) @ le64 (xsdt_addr r) @ [extended_checksum r] @ rsdp_reserved r"

definition rsdp_new :: "u8 list \<Rightarrow> u64 \<Rightarrow> rsdp" where
  "rsdp_new oem addr =
     (let r = \<lparr>rsdp_signature = str_bytes ''RSD PTR '', rsdp_checksum = 0, rsdp_oem_id = oem,
            rsdp_revision = 2, rsdt_addr = 0, rsdp_length = 36, xsdt_addr = addr,
            extended_checksum = 0, rsdp_reserved = [0, 0, 0]\<rparr>;
          r = r\<lparr>rsdp_checksum := generate_checksum (take 20 (rsdp_bytes r))\<rparr> in
      r\<lparr>extended_checksum := generate_checksum (rsdp_bytes r)\<rparr>)"

section \<open>Tables with a running checksum\<close>

definition new_header :: "string \<Rightarrow> u32 \<Rightarrow> u8 list \<Rightarrow> u8 list \<Rightarrow> u32 \<Rightarrow> table_header" where
  "new_header sig len oem oem_table oem_rev =
     \<lparr>signature = str_bytes sig, th_length = len, revision = 1, th_checksum = 0, oem_id = oem,
      oem_table_id = oem_table, oem_revision = oem_rev\<rparr>"

subsection \<open>xsdt.rs\<close>

record xsdt =
  xsdt_header :: table_header
  xsdt_checksum :: checksum
  xsdt_entries :: "u64 list"

definition xsdt_new :: "u8 list \<Rightarrow> u8 list \<Rightarrow> u32 \<Rightarrow> xsdt" where
  "xsdt_new oem oem_table oem_rev =
     (let header = new_header ''XSDT'' (of_nat TABLE_HEADER_LEN) oem oem_table oem_rev;
          cksum = cs_append cs_default (header_bytes header) in
      \<lparr>xsdt_header = header\<lparr>th_checksum := cs_result cksum\<rparr>, xsdt_checksum = cksum, xsdt_entries = []\<rparr>)"

definition xsdt_add_entry :: "u64 \<Rightarrow> xsdt \<Rightarrow> xsdt" where
  "xsdt_add_entry entry x =
     (let old_len = th_length (xsdt_header x); new_len = old_len + 8;
          header = (xsdt_header x)\<lparr>th_length := new_len\<rparr>;
          cksum = cs_append (cs_append (cs_delete (xsdt_checksum x) (le32 old_len)) (le32 new_len)) (le64 entry) in
      \<lparr>xsdt_header = header\<lparr>th_checksum := cs_result cksum\<rparr>, xsdt_checksum = cksum,
       xsdt_entries = xsdt_entries x @ [entry]\<rparr>)"

definition xsdt_bytes :: "xsdt \<Rightarrow> u8 list" where
  "xsdt_bytes x = header_bytes (xsdt_header x) @ concat (map le64 (xsdt_entries x))"

subsection \<open>mcfg.rs\<close>

record ecam_entry =
  ecam_base_addr :: u64
  ecam_segment :: u16
  ecam_start_bus :: u8
  ecam_end_bus :: u8

definition ecam_bytes :: "ecam_entry \<Rightarrow> u8 list" where
  "ecam_bytes e = le64 (ecam_base_addr e) @ le16 (ecam_segment e) @ [ecam_start_bus e, ecam_end_bus e] @ [0, 0, 0, 0]"

record mcfg =
  mcfg_header :: table_header
  mcfg_checksum :: checksum
  mcfg_entries :: "ecam_entry list"

definition mcfg_new :: "u8 list \<Rightarrow> u8 list \<Rightarrow> u32 \<Rightarrow> mcfg" where
  "mcfg_new oem oem_table oem_rev =
     (let header = new_header ''MCFG'' (of_nat (TABLE_HEADER_LEN + 8)) oem oem_table oem_rev;
          cksum = cs_append cs_default (header_bytes header) in
      \<lparr>mcfg_header = header\<lparr>th_checksum := cs_result cksum\<rparr>, mcfg_checksum = cksum, mcfg_entries = []\<rparr>)"

definition update_header :: "u8 list \<Rightarrow> table_header \<Rightarrow> checksum \<Rightarrow> table_header \<times> checksum" where
  "update_header dat header cksum =
     (let len = of_nat (length dat); old_len = th_length header; new_len = len + old_len;
          header = header\<lparr>th_length := new_len\<rparr>;
          cksum = cs_append (cs_append (cs_delete cksum (le32 old_len)) (le32 new_len)) dat in
      (header\<lparr>th_checksum := cs_result cksum\<rparr>, cksum))"

definition add_ecam :: "u64 \<Rightarrow> u16 \<Rightarrow> u8 \<Rightarrow> u8 \<Rightarrow> mcfg \<Rightarrow> mcfg" where
  "add_ecam base_addr segment start_bus end_bus m =
     (let entry = \<lparr>ecam_base_addr = base_addr, ecam_segment = segment, ecam_start_bus = start_bus,
            ecam_end_bus = end_bus\<rparr>;
          (header, cksum) = update_header (ecam_bytes entry) (mcfg_header m) (mcfg_checksum m) in
      \<lparr>mcfg_header = header, mcfg_checksum = cksum, mcfg_entries = mcfg_entries m @ [entry]\<rparr>)"

definition mcfg_bytes :: "mcfg \<Rightarrow> u8 list" where
  "mcfg_bytes m = header_bytes (mcfg_header m) @ le64 0 @ concat (map ecam_bytes (mcfg_entries m))"

subsection \<open>slit.rs\<close>

record slit =
  slit_header :: table_header
  slit_checksum :: checksum
  slit_entries :: "u8 list"
  localities :: u32

definition slit_new :: "u8 list \<Rightarrow> u8 list \<Rightarrow> u32 \<Rightarrow> u32 \<Rightarrow> slit" where
  "slit_new oem oem_table oem_rev locs =
     (let entry_count = locs * locs;
          header = new_header ''SLIT'' (of_nat TABLE_HEADER_LEN + entry_count + 8) oem oem_table oem_rev;
          cksum = cs_append (cs_append cs_default (header_bytes header)) (le64 (ucast locs));
          entries = replicate (unat entry_count) 10;
          cksum = (if 0 < entry_count then cs_append cksum entries else cksum) in
      \<lparr>slit_header = header\<lparr>th_checksum := cs_result cksum\<rparr>, slit_checksum = cksum,
       slit_entries = entries, localities = locs\<rparr>)"

definition slit_update_header :: "u8 list \<Rightarrow> u8 \<Rightarrow> slit \<Rightarrow> slit" where
  "slit_update_header old_values new_value s =
     (let cksum = cs_append (cs_delete (slit_checksum s) old_values) [new_value, new_value] in
      s\<lparr>slit_checksum := cksum, slit_header := (slit_header s)\<lparr>th_checksum := cs_result cksum\<rparr>\<rparr>)"

definition set_distance :: "nat \<Rightarrow> nat \<Rightarrow> u8 \<Rightarrow> slit \<Rightarrow> slit option" where
  "set_distance domain_a domain_b locality_value s =
     (let i = domain_a + unat (localities s) * domain_b;
          j = domain_b + unat (localities s) * domain_a in
      if length (slit_entries s) \<le> i \<or> length (slit_entries s) \<le> j then None
      else
        let old_values = [slit_entries s ! i, slit_entries s ! j];
            entries = (slit_entries s)[i := locality_value, j := locality_value] in
        Some (slit_update_header old_values locality_value (s\<lparr>slit_entries := entries\<rparr>)))"

definition slit_bytes :: "slit \<Rightarrow> u8 list" where
  "slit_bytes s = header_bytes (slit_header s) @ le64 (ucast (localities s)) @ slit_entries s"

subsection \<open>bert.rs and facs.rs\<close>

record bert =
  bert_header :: table_header
  error_region_length :: u32
  error_region_base :: u64

definition bert_bytes :: "bert \<Rightarrow> u8 list" where
  "bert_bytes b = header_bytes (bert_header b) @ le32 (error_region_length b) @ le64 (error_region_base b)"

definition bert_new :: "u8 list \<Rightarrow> u8 list \<Rightarrow> u32 \<Rightarrow> u32 \<Rightarrow> u64 \<Rightarrow> bert" where
  "bert_new oem oem_table oem_rev region_length region_base =
     (let b = \<lparr>bert_header = new_header ''BERT'' (of_nat TABLE_HEADER_LEN + 12) oem oem_table oem_rev,
            error_region_length = region_length, error_region_base = region_base\<rparr>;
          cksum = cs_append cs_default (bert_bytes b) in
      b\<lparr>bert_header := (bert_header b)\<lparr>th_checksum := cs_result cksum\<rparr>\<rparr>)"

record facs =
  facs_signature :: "u8 list"
  facs_length :: u32
  hardware_signature :: u32
  waking :: u32
  facs_lock :: u32
  facs_flags :: u32
  x_waking :: u64
  facs_version :: u8
  ospm_flags :: u32

definition facs_new :: facs where
  "facs_new = \<lparr>facs_signature = str_bytes ''FACS'', facs_length = 64, hardware_signature = 0, waking = 0,
     facs_lock = 0, facs_flags = 0, x_waking = 0, facs_version = 1, ospm_flags = 0\<rparr>"

definition facs_bytes :: "facs \<Rightarrow> u8 list" where
  "facs_bytes f = facs_signature f @ le32 (facs_length f) @ le32 (hardware_signature f) @ le32 (waking f) @
     le32 (facs_lock f) @ le32 (facs_flags f) @ le64 (x_waking f) @ [facs_version f] @ [0, 0, 0] @
     le32 (ospm_flags f) @ replicate 24 0"

section \<open>Facts about running checksums\<close>

definition running :: "table_header \<Rightarrow> checksum \<Rightarrow> u8 list \<Rightarrow> bool" where
  "running h c body \<longleftrightarrow> header_ok h \<and> th_checksum h = cs_result c \<and>
     sum_list (header_bytes h) - th_checksum h + sum_list body = cs_value c \<and>
     unat (th_length h) = TABLE_HEADER_LEN + length body"

lemma running_valid:
  assumes "running h c body"
  shows "valid_table (header_bytes h @ body)"
proof -
  have "sum_list (header_bytes h) + sum_list body = cs_value c + th_checksum h"
    using assms by (simp add: running_def algebra_simps)
  then have "sum_list (header_bytes h @ body) = 0"
    using assms by (simp add: running_def cs_result_eq)
  moreover have "from_le (take 4 (drop 4 (header_bytes h @ body))) = length (header_bytes h @ body)"
    using assms header_length_field [of h body] by (simp add: running_def)
  ultimately show ?thesis using assms by (simp add: valid_table_def running_def)
qed

lemma running_start:
  assumes "header_ok h" "th_checksum h = 0" "cs_value c = sum_list (header_bytes h) + sum_list body"
    and "unat (th_length h) = TABLE_HEADER_LEN + length body"
  shows "running (h\<lparr>th_checksum := cs_result c\<rparr>) c body"
  using assms by (simp add: running_def header_ok_def sum_header_checksum)

lemma running_update:
  assumes "running h c body" and "TABLE_HEADER_LEN + length body + length dat < 2 ^ 32"
    and "update_header dat h c = (h', c')"
  shows "running h' c' (body @ dat)"
proof -
  have len: "unat (of_nat (length dat) + th_length h) = TABLE_HEADER_LEN + length (body @ dat)"
    using assms(1,2) by (simp add: running_def unat_word_ariths unat_of_nat)
  have "c' = cs_append (cs_append (cs_delete c (le32 (th_length h))) (le32 (of_nat (length dat) + th_length h))) dat"
    and "h' = h\<lparr>th_length := of_nat (length dat) + th_length h, th_checksum := cs_result c'\<rparr>"
    using assms(3) by (auto simp: update_header_def Let_def)
  with assms(1) len show ?thesis
    by (auto simp: running_def header_ok_def sum_header_checksum sum_header_length algebra_simps)
qed

text \<open>
  The interface of a table that grows by appending entries: its bytes are the header and a body,
  and adding an entry appends the bytes of the entry and updates header and checksum.
\<close>

locale running_table =
  fixes hdr :: "'t \<Rightarrow> table_header"
    and cks :: "'t \<Rightarrow> checksum"
    and body :: "'t \<Rightarrow> u8 list"
    and bytes :: "'t \<Rightarrow> u8 list"
    and enc :: "'e \<Rightarrow> u8 list"
    and add :: "'e \<Rightarrow> 't \<Rightarrow> 't"
  assumes bytes_eq: "bytes t = header_bytes (hdr t) @ body t"
    and add_update: "(hdr (add e t), cks (add e t)) = update_header (enc e) (hdr t) (cks t)"
    and add_body: "body (add e t) = body t @ enc e"
begin

definition good :: "'t \<Rightarrow> bool" where
  "good t \<longleftrightarrow> running (hdr t) (cks t) (body t)"

lemma good_valid: "good t \<Longrightarrow> valid_table (bytes t)"
  by (simp add: good_def bytes_eq running_valid)

lemma good_add:
  assumes "good t" and "length (bytes t) + length (enc e) < 2 ^ 32"
  shows "good (add e t)"
proof -
  have "TABLE_HEADER_LEN + length (body t) + length (enc e) < 2 ^ 32"
    using assms by (simp add: bytes_eq good_def running_def)
  from running_update [OF assms(1) [unfolded good_def] this add_update [symmetric]]
  show ?thesis by (simp add: good_def add_body)
qed

lemma length_add: "good t \<Longrightarrow> good (add e t) \<Longrightarrow> length (bytes (add e t)) = length (bytes t) + length (enc e)"
  by (simp add: bytes_eq good_def running_def add_body)

lemma good_fold:
  assumes "good t" and "length (bytes t) + length (concat (map enc es)) < 2 ^ 32"
  shows "good (fold add es t)"
  using assms
proof (induction es arbitrary: t)
  case (Cons e es)
  have step: "good (add e t)" using Cons.prems by (intro good_add) simp_all
  show ?case using Cons.prems length_add [OF Cons.prems(1) step] Cons.IH [OF step] by simp
qed simp

lemma body_fold: "body (fold add es t) = body t @ concat (map enc es)"
  by (induction es arbitrary: t) (simp_all add: add_body)

end

lemma new_header_ok:
  "length sig = 4 \<Longrightarrow> length oem = 6 \<Longrightarrow> length oem_table = 8 \<Longrightarrow> header_ok (new_header sig n oem oem_table r)"
  "th_checksum (new_header sig n oem oem_table r) = 0" "th_length (new_header sig n oem oem_table r) = n"
  by (simp_all add: new_header_def header_ok_def str_bytes_def)

interpretation xsdt_table: running_table xsdt_header xsdt_checksum
    "\<lambda>x. concat (map le64 (xsdt_entries x))" xsdt_bytes le64 xsdt_add_entry
  by unfold_locales
    (simp_all add: xsdt_bytes_def xsdt_add_entry_def update_header_def Let_def add.commute)

interpretation mcfg_table: running_table mcfg_header mcfg_checksum
    "\<lambda>m. le64 0 @ concat (map ecam_bytes (mcfg_entries m))" mcfg_bytes ecam_bytes
    "\<lambda>e. add_ecam (ecam_base_addr e) (ecam_segment e) (ecam_start_bus e) (ecam_end_bus e)"
  by unfold_locales (auto simp: mcfg_bytes_def add_ecam_def ecam_bytes_def Let_def split_beta)

lemma xsdt_new_good:
  assumes "length oem = 6" "length oem_table = 8"
  shows "xsdt_table.good (xsdt_new oem oem_table r)"
  unfolding xsdt_table.good_def xsdt_new_def Let_def
  using assms by (simp add: running_start new_header_ok TABLE_HEADER_LEN_def)

lemma mcfg_new_good:
  assumes "length oem = 6" "length oem_table = 8"
  shows "mcfg_table.good (mcfg_new oem oem_table r)"
proof -
  have "sum_list (le64 0) = 0" by (simp add: le64_def)
  then show ?thesis
    unfolding mcfg_table.good_def mcfg_new_def Let_def
    using assms by (simp add: running_start new_header_ok TABLE_HEADER_LEN_def)
qed

section \<open>Facts about the generic table\<close>

lemma sum_list_upd: "k < length xs \<Longrightarrow> sum_list (xs[k := x]) = sum_list xs - xs ! k + x"
  for x :: "'a::ab_group_add"
  by (induction xs arbitrary: k) (auto simp: nth_Cons algebra_simps split: nat.splits)

lemma update_checksum_Some:
  assumes "update_checksum d = Some d'"
  shows "sum_list d' = 0" and "\<exists>c. d' = d[9 := c]" and "length d' = length d"
proof -
  have len: "9 < length d" and d': "d' = d[9 := generate_checksum (d[9 := 0])]"
    using assms by (auto simp: update_checksum_def Let_def split: if_splits)
  show "sum_list d' = 0" using len by (simp add: d' sum_list_upd generate_checksum_eq)
  show "\<exists>c. d' = d[9 := c]" "length d' = length d" by (auto simp: d')
qed

lemma update_checksum_upd: "update_checksum (d[9 := x]) = update_checksum d"
  by (simp add: update_checksum_def Let_def)

lemma update_checksum_total: "9 < length d \<Longrightarrow> \<exists>d'. update_checksum d = Some d'"
  by (simp add: update_checksum_def Let_def)

lemma length_field_upd: "take 4 (drop 4 (d[9 := c])) = take 4 (drop 4 d)"
  by (simp add: drop_update_swap)

definition with_length :: "sdt \<Rightarrow> u8 list \<Rightarrow> sdt" where
  "with_length d v = take 4 d @ le32 (of_nat (length d + length v)) @ drop 8 d @ v"

lemma length_with_length: "8 \<le> length d \<Longrightarrow> length (with_length d v) = length d + length v"
  by (simp add: with_length_def)

lemma append_slice_eq:
  assumes "10 \<le> length d"
  shows "append_slice v d = update_checksum (with_length d v)"
proof -
  let ?x = "take 4 d @ le32 (of_nat (length d + length v)) @ drop 8 d"
  have room: "10 \<le> length d" "Suc 0 < length d - 8" using assms by simp_all
  obtain c where "update_checksum ?x = Some (?x[9 := c])"
    using update_checksum_total [of ?x] update_checksum_Some(2) [of ?x] assms by fastforce
  then have "append_slice v d = update_checksum (?x[9 := c] @ v)"
    using assms by (simp add: append_slice_def write_u32_def write_bytes_def)
  also have "?x[9 := c] @ v = (?x @ v)[9 := c]"
    using room by (simp add: list_update_append)
  finally show ?thesis by (simp add: update_checksum_upd with_length_def)
qed

lemma sdt_append_eq:
  assumes "10 \<le> length d"
  shows "sdt_append v d = append_slice v d"
proof -
  let ?z = "replicate (length v) 0"
  let ?x = "take 4 d @ le32 (of_nat (length d + length v)) @ drop 8 d"
  have room: "10 \<le> length d" "Suc 0 < length d - 8" using assms by simp_all
  obtain c where c: "update_checksum (?x @ ?z) = Some ((?x @ ?z)[9 := c])"
    using update_checksum_total [of "?x @ ?z"] update_checksum_Some(2) [of "?x @ ?z"] assms by fastforce
  have take: "take (length d) ((?x @ ?z)[9 := c]) = ?x[9 := c]"
    using room by (simp add: list_update_append take_update_swap)
  have "sdt_append v d = Option.bind (update_checksum (?x @ ?z)) (write_bytes (length d) v)"
    using assms by (simp add: sdt_append_def write_u32_def write_bytes_def Let_def)
  also have "\<dots> = update_checksum (take (length d) ((?x @ ?z)[9 := c]) @ v)"
    unfolding c using assms by (simp add: write_bytes_def)
  also have "\<dots> = update_checksum (?x[9 := c] @ v)" unfolding take ..
  also have "?x[9 := c] @ v = (?x @ v)[9 := c]"
    using room by (simp add: list_update_append)
  finally show ?thesis using append_slice_eq [OF assms] by (simp add: update_checksum_upd with_length_def)
qed

lemma append_slice_append_slice:
  assumes "10 \<le> length d"
  shows "Option.bind (append_slice a d) (append_slice b) = append_slice (a @ b) d"
proof -
  have room: "10 \<le> length d" "Suc 0 < length d - 8" using assms by simp_all
  obtain c where d1: "append_slice a d = Some ((with_length d a)[9 := c])"
    using update_checksum_total [of "with_length d a"] update_checksum_Some(2) [of "with_length d a"] assms
    by (fastforce simp: append_slice_eq length_with_length)
  have "append_slice b ((with_length d a)[9 := c]) = update_checksum (with_length ((with_length d a)[9 := c]) b)"
    using assms by (intro append_slice_eq) (simp add: length_with_length)
  also have "with_length ((with_length d a)[9 := c]) b = (with_length d (a @ b))[9 := c]"
    using room by (simp add: with_length_def list_update_append drop_update_swap add.assoc)
  finally show ?thesis using d1 append_slice_eq [OF assms] by (simp add: update_checksum_upd)
qed

lemma append_slice_valid:
  assumes "valid_table d" and "length d + length v < 2 ^ 32"
  obtains d' where "append_slice v d = Some d'" and "valid_table d'" and "drop 10 d' = drop 10 d @ v"
proof -
  have len: "36 \<le> length d" using assms(1) by (simp add: valid_table_def TABLE_HEADER_LEN_def)
  obtain d' where d': "update_checksum (with_length d v) = Some d'"
    using update_checksum_total [of "with_length d v"] len by (auto simp: length_with_length)
  obtain c where c: "d' = (with_length d v)[9 := c]" using update_checksum_Some(2) [OF d'] by blast
  have "from_le (take 4 (drop 4 d')) = unat (of_nat (length d + length v) :: u32)"
    using len unfolding c length_field_upd by (simp add: with_length_def le_roundtrip)
  then have "valid_table d'"
    using update_checksum_Some(1,3) [OF d'] assms(2) len
    by (simp add: valid_table_def length_with_length TABLE_HEADER_LEN_def unat_of_nat unat_word_ariths)
  moreover have "drop 10 d' = drop 10 d @ v"
    using len by (simp add: c with_length_def drop_update_cancel)
  ultimately show thesis using that d' append_slice_eq [of d v] len by simp
qed

lemma write_bytes_valid:
  assumes "valid_table d" and "off + length v \<le> length d" and "off + length v \<le> 4 \<or> 8 \<le> off"
  shows "\<exists>d'. write_bytes off v d = Some d' \<and> valid_table d'"
proof -
  let ?x = "take off d @ v @ drop (off + length v) d"
  have len: "36 \<le> length d" using assms(1) by (simp add: valid_table_def TABLE_HEADER_LEN_def)
  obtain d' where d': "update_checksum ?x = Some d'"
    using update_checksum_total [of ?x] len assms(2) by auto
  obtain c where c: "d' = ?x[9 := c]" using update_checksum_Some(2) [OF d'] by blast
  have "take 4 (drop 4 ?x) = take 4 (drop 4 d)"
    using assms(2,3) len by (auto simp: take_drop)
  then have "from_le (take 4 (drop 4 d')) = length d"
    using assms(1) unfolding c length_field_upd by (simp add: valid_table_def)
  then show ?thesis
    using update_checksum_Some(1,3) [OF d'] assms(2) d' len
    by (simp add: valid_table_def write_bytes_def TABLE_HEADER_LEN_def)
qed

lemma sdt_new_valid:
  assumes "sdt_new sig len rv oem oem_table oem_rev = Some d" and "length sig = 4"
  shows "valid_table d" and "length d = unat len"
proof -
  let ?x = "sig @ le32 len @ [rv, 0] @ oem @ oem_table @ le32 oem_rev @ CREATOR_ID @ CREATOR_REVISION"
  have len: "36 \<le> unat len" and x: "length ?x = 36"
    and d: "update_checksum (?x @ replicate (unat len - 36) 0) = Some d"
    using assms(1) by (auto simp: sdt_new_def Let_def word_less_nat_alt split: if_splits)
  obtain c where c: "d = (?x @ replicate (unat len - 36) 0)[9 := c]"
    using update_checksum_Some(2) [OF d] by blast
  show l: "length d = unat len" using update_checksum_Some(3) [OF d] len x by simp
  have "from_le (take 4 (drop 4 d)) = unat len"
    unfolding c length_field_upd using assms(2) by (simp add: le_roundtrip)
  then show "valid_table d"
    using update_checksum_Some(1) [OF d] l len by (simp add: valid_table_def TABLE_HEADER_LEN_def)
qed

interpretation sdt_sink: aml_sink "\<lambda>s b. Option.bind s (sdt_append [b])"
    "foldl (\<lambda>s b. Option.bind s (sdt_append [b]))"
  by unfold_locales simp

lemma sdt_sink_vec:
  assumes "10 \<le> length d"
  shows "foldl (\<lambda>s b. Option.bind s (sdt_append [b])) (append_slice a d) bs = append_slice (a @ bs) d"
proof (induction bs arbitrary: a)
  case (Cons b bs)
  obtain d1 where d1: "append_slice a d = Some d1" "length d1 = length d + length a"
    using update_checksum_total [of "with_length d a"] update_checksum_Some(3) [of "with_length d a"] assms
    by (fastforce simp: append_slice_eq length_with_length)
  have "Option.bind (append_slice a d) (sdt_append [b]) = append_slice (a @ [b]) d"
    using append_slice_append_slice [OF assms, of a "[b]"] d1 sdt_append_eq [of d1] assms by simp
  then show ?case using Cons by simp
qed simp

lemma sdt_sink_append_slice:
  assumes "10 \<le> length d" and "bs \<noteq> []"
  shows "foldl (\<lambda>s b. Option.bind s (sdt_append [b])) (Some d) bs = append_slice bs d"
proof (cases bs)
  case (Cons b cs)
  then show ?thesis using sdt_sink_vec [OF assms(1), of "[b]" cs] sdt_append_eq [OF assms(1)] by simp
qed (use assms in simp)

section \<open>Facts about the other tables\<close>

lemma rsdp_new_sums:
  assumes "length oem = 6"
  shows "sum_list (take 20 (rsdp_bytes (rsdp_new oem addr))) = 0"
    and "sum_list (rsdp_bytes (rsdp_new oem addr)) = 0"
    and "length (rsdp_bytes (rsdp_new oem addr)) = 36"
  using assms
  by (simp_all add: rsdp_new_def rsdp_bytes_def Let_def generate_checksum_eq str_bytes_def algebra_simps)

lemma bert_new_valid:
  assumes "length oem = 6" "length oem_table = 8"
  shows "valid_table (bert_bytes (bert_new oem oem_table oem_rev region_length region_base))"
proof -
  let ?h = "new_header ''BERT'' (of_nat TABLE_HEADER_LEN + 12) oem oem_table oem_rev"
  let ?body = "le32 region_length @ le64 region_base"
  have "running (?h\<lparr>th_checksum := cs_result (cs_append cs_default (header_bytes ?h @ ?body))\<rparr>)
      (cs_append cs_default (header_bytes ?h @ ?body)) ?body"
    using assms by (intro running_start) (simp_all add: new_header_ok TABLE_HEADER_LEN_def)
  from running_valid [OF this] show ?thesis
    by (simp add: bert_new_def bert_bytes_def Let_def)
qed

lemma facs_new_length: "length (facs_bytes facs_new) = unat (facs_length facs_new)"
  by (simp add: facs_bytes_def facs_new_def str_bytes_def)

definition slit_good :: "slit \<Rightarrow> bool" where
  "slit_good s \<longleftrightarrow>
     running (slit_header s) (slit_checksum s) (le64 (ucast (localities s)) @ slit_entries s) \<and>
     length (slit_entries s) = unat (localities s) * unat (localities s)"

lemma slit_good_valid: "slit_good s \<Longrightarrow> valid_table (slit_bytes s)"
  using running_valid by (auto simp: slit_good_def slit_bytes_def)

lemma slit_new_good:
  assumes "length oem = 6" "length oem_table = 8" "unat locs < 2 ^ 16"
  shows "slit_good (slit_new oem oem_table oem_rev locs)"
proof -
  have "unat locs * unat locs \<le> 65535 * 65535" using assms(3) by (intro mult_le_mono) auto
  then have sq: "unat (locs * locs) = unat locs * unat locs" 
    and len: "unat (of_nat TABLE_HEADER_LEN + locs * locs + 8) = TABLE_HEADER_LEN + 8 + unat locs * unat locs"
    by (simp_all add: unat_word_ariths TABLE_HEADER_LEN_def)
  let ?h = "new_header ''SLIT'' (of_nat TABLE_HEADER_LEN + locs * locs + 8) oem oem_table oem_rev"
  let ?e = "replicate (unat (locs * locs)) (10 :: u8)"
  let ?c = "cs_append (cs_append cs_default (header_bytes ?h)) (le64 (ucast locs))"
  have c: "cs_value (if 0 < locs * locs then cs_append ?c ?e else ?c) =
      sum_list (header_bytes ?h) + sum_list (le64 (ucast locs) @ ?e)"
    by (cases "0 < locs * locs") (auto simp: word_gt_0)
  have "running (?h\<lparr>th_checksum := cs_result (if 0 < locs * locs then cs_append ?c ?e else ?c)\<rparr>)
      (if 0 < locs * locs then cs_append ?c ?e else ?c) (le64 (ucast locs) @ ?e)"
    by (rule running_start [OF _ _ c]) (use assms len sq in \<open>simp_all add: new_header_ok\<close>)
  then show ?thesis
    unfolding slit_good_def slit_new_def Let_def by (simp add: sq)
qed

lemma set_distance_good:
  assumes "slit_good s" and "a < unat (localities s)" "b < unat (localities s)" "a \<noteq> b"
  shows "\<exists>s'. set_distance a b v s = Some s' \<and> slit_good s'"
proof -
  let ?n = "unat (localities s)" and ?e = "slit_entries s"
  let ?i = "a + ?n * b" and ?j = "b + ?n * a"
  have bound: "x + ?n * y < ?n * ?n" if "x < ?n" "y < ?n" for x y
  proof -
    have "x + ?n * y < ?n * Suc y" using that(1) by simp
    also have "\<dots> \<le> ?n * ?n" using that(2) by (intro mult_le_mono2) simp
    finally show ?thesis .
  qed
  have len: "length ?e = ?n * ?n" using assms(1) by (simp add: slit_good_def)
  have i: "?i < length ?e" and j: "?j < length ?e" using bound assms(2,3) len by auto
  have ij: "?i \<noteq> ?j"
  proof
    assume "?i = ?j"
    then have "?i mod ?n = ?j mod ?n" by simp
    then show False using assms(2,3,4) by simp
  qed
  have sum: "sum_list (?e[?i := v, ?j := v]) = sum_list ?e - ?e ! ?i - ?e ! ?j + v + v"
    using i j ij by (simp add: sum_list_upd algebra_simps)
  show ?thesis
    using assms(1) i j sum len
    by (auto simp: set_distance_def slit_update_header_def Let_def slit_good_def running_def header_ok_def sum_header_checksum
        algebra_simps)
qed

section \<open>Properties\<close>

text \<open>The calls that change a table after it is built; \<open>write_u8\<close> to \<open>write_u64\<close> are instances of \<open>Write\<close>.\<close>

datatype sdt_op = Write nat "u8 list" | Append "u8 list" | AppendSlice "u8 list" | SinkByte u8

fun sdt_step :: "sdt_op \<Rightarrow> sdt \<Rightarrow> sdt option" where
  "sdt_step (Write off v) d = write_bytes off v d"
| "sdt_step (Append v) d = sdt_append v d"
| "sdt_step (AppendSlice v) d = append_slice v d"
| "sdt_step (SinkByte b) d = sdt_append [b] d"

fun sdt_run :: "sdt_op list \<Rightarrow> sdt \<Rightarrow> sdt option" where
  "sdt_run [] d = Some d"
| "sdt_run (x # xs) d = Option.bind (sdt_step x d) (sdt_run xs)"

fun op_growth :: "sdt_op \<Rightarrow> nat" where
  "op_growth (Write _ _) = 0"
| "op_growth (Append v) = length v"
| "op_growth (AppendSlice v) = length v"
| "op_growth (SinkByte _) = 1"

text \<open>Writes stay inside the original table and off its length field.\<close>

fun op_ok :: "nat \<Rightarrow> sdt_op \<Rightarrow> bool" where
  "op_ok n (Write off v) \<longleftrightarrow> off + length v \<le> n \<and> (off + length v \<le> 4 \<or> 8 \<le> off)"
| "op_ok n _ \<longleftrightarrow> True"

lemma update_length: "update_checksum d = Some d' \<Longrightarrow> length d' = length d"
  by (rule update_checksum_Some(3))

lemma sdt_step_valid:
  assumes "valid_table d" "op_ok n x" "n \<le> length d" "length d + op_growth x < 2 ^ 32"
  shows "\<exists>d'. sdt_step x d = Some d' \<and> valid_table d' \<and> length d' = length d + op_growth x"
proof -
  have len: "10 \<le> length d" using assms(1) by (simp add: valid_table_def TABLE_HEADER_LEN_def)
  have app: "\<exists>d'. append_slice v d = Some d' \<and> valid_table d' \<and> length d' = length d + length v"
    if room: "length d + length v < 2 ^ 32" for v
  proof -
    obtain d' where d': "append_slice v d = Some d'" "valid_table d'"
      by (rule append_slice_valid [OF assms(1) room])
    then show ?thesis
      using update_length [of "with_length d v" d'] append_slice_eq [OF len, of v] length_with_length [of d v] len
      by simp
  qed
  show ?thesis
  proof (cases x)
    case (Write off v)
    then have "off + length v \<le> length d" "off + length v \<le> 4 \<or> 8 \<le> off" using assms(2,3) by auto
    then obtain d' where d': "write_bytes off v d = Some d'" "valid_table d'"
      using write_bytes_valid [OF assms(1)] by blast
    have "length d' = length d"
      using update_length [of "take off d @ v @ drop (off + length v) d" d'] d'(1)
      by (simp add: write_bytes_def split: if_splits)
    then show ?thesis using d' Write by simp
  next
    case (SinkByte b)
    then show ?thesis using app [of "[b]"] assms(4) sdt_append_eq [OF len] by simp
  qed (use app assms(4) sdt_append_eq [OF len] in auto)
qed

lemma sdt_run_valid:
  assumes "valid_table d" "list_all (op_ok n) xs" "n \<le> length d" "length d + sum_list (map op_growth xs) < 2 ^ 32"
  shows "\<exists>d'. sdt_run xs d = Some d' \<and> valid_table d' \<and> length d' = length d + sum_list (map op_growth xs)"
  using assms
proof (induction xs arbitrary: d)
  case (Cons x xs)
  obtain d1 where d1: "sdt_step x d = Some d1" "valid_table d1" "length d1 = length d + op_growth x"
    using sdt_step_valid [of d n x] Cons.prems by auto
  show ?case using Cons.IH [OF d1(2)] d1 Cons.prems by (simp add: add.assoc)
qed simp



text \<open>
  The generic table as a sink.  Feeding a non-empty byte string to an \<open>Sdt\<close> byte by byte, the way
  every \<open>to_aml_bytes\<close> does, gives exactly the table that \<open>append_slice\<close> gives in one call, although each
  byte rewrites the length field and the checksum.
\<close>

theorem sdt_sink_equals_append_slice:
  assumes "10 \<le> length d" and "bs \<noteq> []"
  shows "foldl (\<lambda>s b. Option.bind s (sdt_append [b])) (Some d) bs = append_slice bs d"
  using assms by (rule sdt_sink_append_slice)

theorem sdt_sink_equals_append_slice_witness:
  "foldl (\<lambda>s b. Option.bind s (sdt_append [b])) (Some (replicate 36 0)) [1, 2, 3] =
     append_slice [1, 2, 3] (replicate 36 0)"
  by (rule sdt_sink_equals_append_slice) simp_all

text \<open>
  Root tables.  The root pointer has both its checksums right (the first 20 bytes and all 36 bytes
  sum to zero); an XSDT and an MCFG stay valid under any sequence of added entries below 4 GiB; and the
  body of an XSDT is the entries in the order they were added.
\<close>

theorem root_tables_valid:
  assumes "length oem = 6" "length oem_table = 8"
  shows "sum_list (take 20 (rsdp_bytes (rsdp_new oem addr))) = 0 \<and>
    sum_list (rsdp_bytes (rsdp_new oem addr)) = 0 \<and> length (rsdp_bytes (rsdp_new oem addr)) = 36 \<and>
    (36 + 8 * length es < 2 ^ 32 \<longrightarrow>
      valid_table (xsdt_bytes (fold xsdt_add_entry es (xsdt_new oem oem_table r))) \<and>
      drop 36 (xsdt_bytes (fold xsdt_add_entry es (xsdt_new oem oem_table r))) = concat (map le64 es)) \<and>
    (44 + 16 * length cs < 2 ^ 32 \<longrightarrow>
      valid_table (mcfg_bytes (fold (\<lambda>(b, s, lo, hi). add_ecam b s lo hi) cs (mcfg_new oem oem_table r))))"
proof -
  let ?x = "xsdt_new oem oem_table r" and ?m = "mcfg_new oem oem_table r"
  let ?E = "\<lambda>(b, s, lo, hi). \<lparr>ecam_base_addr = b, ecam_segment = s, ecam_start_bus = lo, ecam_end_bus = hi\<rparr>"
  have x: "length (xsdt_bytes ?x) = 36" and m: "length (mcfg_bytes ?m) = 44"
    using xsdt_new_good [OF assms] mcfg_new_good [OF assms]
    by (simp_all add: xsdt_table.good_def mcfg_table.good_def running_def xsdt_bytes_def mcfg_bytes_def
        TABLE_HEADER_LEN_def xsdt_new_def mcfg_new_def Let_def)
  have lx: "length (concat (map le64 es)) = 8 * length es" by (induction es) simp_all
  have lm: "length (concat (map ecam_bytes (map ?E cs))) = 16 * length cs"
    by (induction cs) (auto simp: ecam_bytes_def)
  have fold_m: "fold (\<lambda>(b, s, lo, hi). add_ecam b s lo hi) cs ?m =
      fold (\<lambda>e. add_ecam (ecam_base_addr e) (ecam_segment e) (ecam_start_bus e) (ecam_end_bus e)) (map ?E cs) ?m"
    by (simp add: fold_map comp_def split_def)
  have X: "xsdt_table.good (fold xsdt_add_entry es ?x)" if "36 + 8 * length es < 2 ^ 32"
    using that x lx by (intro xsdt_table.good_fold [OF xsdt_new_good [OF assms]]) simp
  have M: "valid_table (mcfg_bytes (fold (\<lambda>(b, s, lo, hi). add_ecam b s lo hi) cs ?m))"
    if "44 + 16 * length cs < 2 ^ 32"
    unfolding fold_m
    using that m lm by (intro mcfg_table.good_valid mcfg_table.good_fold [OF mcfg_new_good [OF assms]]) simp
  have B: "drop 36 (xsdt_bytes (fold xsdt_add_entry es ?x)) = concat (map le64 es)"
    if "36 + 8 * length es < 2 ^ 32"
    using X [OF that] xsdt_table.body_fold [of es ?x]
    by (simp add: xsdt_bytes_def xsdt_table.good_def running_def TABLE_HEADER_LEN_def xsdt_new_def Let_def)
  show ?thesis using rsdp_new_sums [OF assms(1), of addr] X M B xsdt_table.good_valid by blast
qed

theorem root_tables_valid_witness:
  "valid_table (xsdt_bytes (fold xsdt_add_entry [0x1000, 0x2000]
     (xsdt_new (replicate 6 65) (replicate 8 66) 1))) \<and>
   valid_table (mcfg_bytes (add_ecam 0xe0000000 0 0 255 (mcfg_new (replicate 6 65) (replicate 8 66) 1)))"
  using root_tables_valid [of "replicate 6 65" "replicate 8 66" 0 "[0x1000, 0x2000]" 1 "[(0xe0000000, 0, 0, 255)]"]
  by simp

text \<open>
  Distances.  Setting the distance between two different localities of a SLIT of fewer than 65536
  localities never panics, keeps the table valid and keeps the matrix symmetric there: both entries
  hold the new value and no other entry changes.
\<close>

theorem slit_distance_between_domains:
  assumes "slit_good s" and "a < unat (localities s)" "b < unat (localities s)" "a \<noteq> b"
  shows "\<exists>s'. set_distance a b v s = Some s' \<and> slit_good s' \<and> valid_table (slit_bytes s') \<and>
    slit_entries s' = (slit_entries s)[a + unat (localities s) * b := v, b + unat (localities s) * a := v]"
proof -
  obtain s' where s': "set_distance a b v s = Some s'" "slit_good s'"
    using set_distance_good [OF assms] by blast
  then show ?thesis using slit_good_valid [OF s'(2)]
    by (auto simp: set_distance_def slit_update_header_def Let_def split: if_splits)
qed

lemma replicate_4: "replicate 4 x = [x, x, x, x]"
  by (simp add: numeral_eq_Suc)

theorem slit_distance_between_domains_witness:
  "\<exists>s'. set_distance 0 1 20 (slit_new (replicate 6 65) (replicate 8 66) 1 2) = Some s' \<and>
     valid_table (slit_bytes s') \<and> slit_entries s' = [10, 20, 20, 10]"
proof -
  have good: "slit_good (slit_new (replicate 6 65) (replicate 8 66) 1 2)" by (rule slit_new_good) simp_all
  have "localities (slit_new (replicate 6 65) (replicate 8 66) 1 2) = 2"
    "slit_entries (slit_new (replicate 6 65) (replicate 8 66) 1 2) = [10, 10, 10, 10]"
    by (simp_all add: slit_new_def Let_def replicate_4)
  then show ?thesis using slit_distance_between_domains [OF good, of 0 1 20] by auto
qed

text \<open>
  A distance from a locality to itself breaks the SLIT: \<open>set_distance\<close> with equal domains changes
  one byte but accounts for two, so whenever the new value differs from the old one by anything other
  than a multiple of 256 the bytes of the table no longer sum to zero.
\<close>

theorem slit_self_distance_breaks_checksum:
  assumes "slit_good s" and "a < unat (localities s)"
    and "set_distance a a v s = Some s'"
  shows "sum_list (slit_bytes s') = slit_entries s ! (a + unat (localities s) * a) - v"
proof -
  let ?i = "a + unat (localities s) * a"
  have i: "?i < length (slit_entries s)"
    using assms(3) by (auto simp: set_distance_def Let_def split: if_splits)
  have s': "s' = slit_update_header [slit_entries s ! ?i, slit_entries s ! ?i] v
      (s\<lparr>slit_entries := (slit_entries s)[?i := v]\<rparr>)"
    using assms(3) i by (simp add: set_distance_def Let_def)
  show ?thesis
    using assms(1) i unfolding s'
    by (simp add: slit_update_header_def Let_def slit_bytes_def slit_good_def running_def cs_result_eq
        sum_header_checksum sum_list_upd algebra_simps)
qed

theorem slit_self_distance_breaks_checksum_witness:
  "\<exists>s'. set_distance 0 0 20 (slit_new (replicate 6 65) (replicate 8 66) 1 1) = Some s' \<and>
     sum_list (slit_bytes s') \<noteq> 0"
proof -
  let ?s = "slit_new (replicate 6 65) (replicate 8 66) 1 1"
  have good: "slit_good ?s" by (rule slit_new_good) simp_all
  have l: "localities ?s = 1" "slit_entries ?s = [10]" by (simp_all add: slit_new_def Let_def)
  then obtain s' where s': "set_distance 0 0 20 ?s = Some s'"
    by (simp add: set_distance_def Let_def)
  from slit_self_distance_breaks_checksum [OF good _ s'] l s' show ?thesis by simp
qed

end
