(* ===== verification/Madt.thy ===== *)
theory Madt
  imports AcpiTables
begin

text \<open>
  The multiple APIC description table, \<^verbatim>\<open>acpi_tables/src/madt.rs\<close>: the table, its flags and its
  thirteen interrupt controller structures, with the builder methods of each.  A structure opens
  with its type and its length; the theory shows that the builders keep both right, so that a
  reader that skips from structure to structure by the length byte recovers exactly the structures
  that were added, and that the table stays valid.  Reserved fields, which the code always sets
  to zero, appear as zero bytes.
\<close>

section \<open>The structures\<close>

datatype madt_structure_type =
  TProcessorLocalApic | TIoApic | TInterruptSourceOverride | TProcessorLocalApicNmi | TGicCpuInterface
| TGicDistributor | TGicMsiFrame | TGicRedistributor | TGicTranslationService | TRiscvIntc
| TRiscvImsic | TRiscvAplic | TRiscvPlic

primrec structure_type_code :: "madt_structure_type \<Rightarrow> u8" where
  "structure_type_code TProcessorLocalApic = 0x0"
| "structure_type_code TIoApic = 0x1"
| "structure_type_code TInterruptSourceOverride = 0x2"
| "structure_type_code TProcessorLocalApicNmi = 0x4"
| "structure_type_code TGicCpuInterface = 0xb"
| "structure_type_code TGicDistributor = 0xc"
| "structure_type_code TGicMsiFrame = 0xd"
| "structure_type_code TGicRedistributor = 0xe"
| "structure_type_code TGicTranslationService = 0xf"
| "structure_type_code TRiscvIntc = 0x18"
| "structure_type_code TRiscvImsic = 0x19"
| "structure_type_code TRiscvAplic = 0x1a"
| "structure_type_code TRiscvPlic = 0x1b"

subsection \<open>Interrupt flags\<close>

datatype mps_polarity = ActiveHigh | ActiveLow

datatype mps_trigger = EdgeTriggered | LevelTriggered

primrec polarity_code :: "mps_polarity \<Rightarrow> u16" where
  "polarity_code ActiveHigh = 1"
| "polarity_code ActiveLow = 3"

primrec trigger_code :: "mps_trigger \<Rightarrow> u16" where
  "trigger_code EdgeTriggered = 1"
| "trigger_code LevelTriggered = 3"

definition set_polarity_flag :: "mps_polarity \<Rightarrow> u16 \<Rightarrow> u16" where
  "set_polarity_flag flag flgs = or (and flgs (not 0b0011)) (polarity_code flag)"

definition set_trigger_mode_flag :: "mps_trigger \<Rightarrow> u16 \<Rightarrow> u16" where
  "set_trigger_mode_flag flag flgs = or (and flgs (not 0b1100)) (push_bit 2 (trigger_code flag))"

datatype inti_call = Polarity mps_polarity | TriggerMode mps_trigger

primrec inti_apply :: "inti_call \<Rightarrow> u16 \<Rightarrow> u16" where
  "inti_apply (Polarity p) flgs = set_polarity_flag p flgs"
| "inti_apply (TriggerMode t) flgs = set_trigger_mode_flag t flgs"

subsection \<open>x86\<close>

datatype enabled_status = Disabled | Enabled | DisabledOnlineCapable

primrec enabled_status_code :: "enabled_status \<Rightarrow> u32" where
  "enabled_status_code Disabled = 0"
| "enabled_status_code Enabled = 1"
| "enabled_status_code DisabledOnlineCapable = 2"

record processor_local_apic =
  pla_type :: u8
  pla_length :: u8
  pla_processor_uid :: u8
  pla_apic_id :: u8
  pla_flags :: u32

definition processor_local_apic_new :: "u8 \<Rightarrow> u8 \<Rightarrow> enabled_status \<Rightarrow> processor_local_apic" where
  "processor_local_apic_new uid apic_id enabled =
     \<lparr>pla_type = structure_type_code TProcessorLocalApic, pla_length = 8, pla_processor_uid = uid,
      pla_apic_id = apic_id, pla_flags = enabled_status_code enabled\<rparr>"

definition processor_local_apic_bytes :: "processor_local_apic \<Rightarrow> u8 list" where
  "processor_local_apic_bytes s =
     [pla_type s, pla_length s, pla_processor_uid s, pla_apic_id s] @ le32 (pla_flags s)"

record io_apic =
  ioa_type :: u8
  ioa_length :: u8
  ioa_id :: u8
  ioa_addr :: u32
  ioa_gsi_base :: u32

definition io_apic_new :: "u8 \<Rightarrow> u32 \<Rightarrow> u32 \<Rightarrow> io_apic" where
  "io_apic_new io_apic_id io_apic_addr gsi_base =
     \<lparr>ioa_type = structure_type_code TIoApic, ioa_length = 12, ioa_id = io_apic_id,
      ioa_addr = io_apic_addr, ioa_gsi_base = gsi_base\<rparr>"

definition io_apic_bytes :: "io_apic \<Rightarrow> u8 list" where
  "io_apic_bytes s = [ioa_type s, ioa_length s, ioa_id s, 0] @ le32 (ioa_addr s) @ le32 (ioa_gsi_base s)"

record interrupt_source_override =
  iso_type :: u8
  iso_length :: u8
  iso_bus :: u8
  iso_source :: u8
  iso_gsi :: u32
  iso_flags :: u16

definition interrupt_source_override_new :: "u8 \<Rightarrow> u32 \<Rightarrow> interrupt_source_override" where
  "interrupt_source_override_new source gsi =
     \<lparr>iso_type = structure_type_code TInterruptSourceOverride, iso_length = 10, iso_bus = 0,
      iso_source = source, iso_gsi = gsi, iso_flags = 0\<rparr>"

definition iso_call :: "inti_call \<Rightarrow> interrupt_source_override \<Rightarrow> interrupt_source_override" where
  "iso_call c s = s\<lparr>iso_flags := inti_apply c (iso_flags s)\<rparr>"

definition interrupt_source_override_bytes :: "interrupt_source_override \<Rightarrow> u8 list" where
  "interrupt_source_override_bytes s =
     [iso_type s, iso_length s, iso_bus s, iso_source s] @ le32 (iso_gsi s) @ le16 (iso_flags s)"

record processor_local_apic_nmi =
  nmi_type :: u8
  nmi_length :: u8
  nmi_acpi_processor_uid :: u8
  nmi_flags :: u16
  nmi_local_apic_lint_num :: u8

definition processor_local_apic_nmi_new :: "u8 \<Rightarrow> u8 \<Rightarrow> processor_local_apic_nmi" where
  "processor_local_apic_nmi_new acpi_processor_uid local_apic_lint_num =
     \<lparr>nmi_type = structure_type_code TProcessorLocalApicNmi, nmi_length = 6,
      nmi_acpi_processor_uid = acpi_processor_uid, nmi_flags = 0,
      nmi_local_apic_lint_num = local_apic_lint_num\<rparr>"

definition nmi_call :: "inti_call \<Rightarrow> processor_local_apic_nmi \<Rightarrow> processor_local_apic_nmi" where
  "nmi_call c s = s\<lparr>nmi_flags := inti_apply c (nmi_flags s)\<rparr>"

definition processor_local_apic_nmi_bytes :: "processor_local_apic_nmi \<Rightarrow> u8 list" where
  "processor_local_apic_nmi_bytes s =
     [nmi_type s, nmi_length s, nmi_acpi_processor_uid s] @ le16 (nmi_flags s) @ [nmi_local_apic_lint_num s]"

subsection \<open>Arm\<close>

record gicc =
  gicc_type :: u8
  gicc_length :: u8
  cpu_interface_number :: u32
  acpi_processor_uid :: u32
  gicc_flags :: u32
  parking_protocol_version :: u32
  performance_interrupt :: u32
  parked_address :: u64
  gicc_base_address :: u64
  virtual_registers :: u64
  control_block_registers :: u64
  maintenance_interrupt :: u32
  redistributor_base :: u64
  mpidr :: u64
  power_efficiency_class :: u8
  overflow_interrupt :: u16
  trbe_interrupt :: u16

datatype gicc_flag =
  GiccEnabled | PerformanceInterruptEdgeTriggered | MaintenanceInterruptEdgeTriggered | OnlineCapable

primrec gicc_flag_code :: "gicc_flag \<Rightarrow> u32" where
  "gicc_flag_code GiccEnabled = 1"
| "gicc_flag_code PerformanceInterruptEdgeTriggered = 2"
| "gicc_flag_code MaintenanceInterruptEdgeTriggered = 4"
| "gicc_flag_code OnlineCapable = 8"

datatype trigger = Edge | Level

definition gicc_new :: "enabled_status \<Rightarrow> gicc" where
  "gicc_new status =
     \<lparr>gicc_type = structure_type_code TGicCpuInterface, gicc_length = 82, cpu_interface_number = 0,
      acpi_processor_uid = 0,
      gicc_flags = (case status of Enabled \<Rightarrow> gicc_flag_code GiccEnabled | Disabled \<Rightarrow> 0
        | DisabledOnlineCapable \<Rightarrow> gicc_flag_code OnlineCapable),
      parking_protocol_version = 0, performance_interrupt = 0, parked_address = 0,
      gicc_base_address = 0, virtual_registers = 0, control_block_registers = 0,
      maintenance_interrupt = 0, redistributor_base = 0, mpidr = 0, power_efficiency_class = 0,
      overflow_interrupt = 0, trbe_interrupt = 0\<rparr>"

definition gicc_performance_interrupt :: "u32 \<Rightarrow> trigger \<Rightarrow> gicc \<Rightarrow> gicc" where
  "gicc_performance_interrupt gsi trig s =
     (let s = (if trig = Edge
               then s\<lparr>gicc_flags := or (gicc_flags s) (gicc_flag_code PerformanceInterruptEdgeTriggered)\<rparr>
               else s) in
      s\<lparr>performance_interrupt := gsi\<rparr>)"

definition gicc_maintenance_interrupt :: "u32 \<Rightarrow> trigger \<Rightarrow> gicc \<Rightarrow> gicc" where
  "gicc_maintenance_interrupt gsi trig s =
     (let s = (if trig = Edge
               then s\<lparr>gicc_flags := or (gicc_flags s) (gicc_flag_code MaintenanceInterruptEdgeTriggered)\<rparr>
               else s) in
      s\<lparr>maintenance_interrupt := gsi\<rparr>)"

datatype gicc_call =
  PerformanceInterrupt u32 trigger | MaintenanceInterrupt u32 trigger | CpuInterfaceNumber u32
| AcpiProcessorUid u32 | ParkingProtocolVersion u32 | ParkedAddress u64 | BaseAddress u64
| VirtualRegisters u64 | ControlBlockRegisters u64 | RedistributorBase u64 | Mpidr u64
| PowerEfficiencyClass u8 | OverflowInterrupt u16 | TrbeInterrupt u16

primrec gicc_apply :: "gicc_call \<Rightarrow> gicc \<Rightarrow> gicc" where
  "gicc_apply (PerformanceInterrupt gsi t) s = gicc_performance_interrupt gsi t s"
| "gicc_apply (MaintenanceInterrupt gsi t) s = gicc_maintenance_interrupt gsi t s"
| "gicc_apply (CpuInterfaceNumber v) s = s\<lparr>cpu_interface_number := v\<rparr>"
| "gicc_apply (AcpiProcessorUid v) s = s\<lparr>acpi_processor_uid := v\<rparr>"
| "gicc_apply (ParkingProtocolVersion v) s = s\<lparr>parking_protocol_version := v\<rparr>"
| "gicc_apply (ParkedAddress v) s = s\<lparr>parked_address := v\<rparr>"
| "gicc_apply (BaseAddress v) s = s\<lparr>gicc_base_address := v\<rparr>"
| "gicc_apply (VirtualRegisters v) s = s\<lparr>virtual_registers := v\<rparr>"
| "gicc_apply (ControlBlockRegisters v) s = s\<lparr>control_block_registers := v\<rparr>"
| "gicc_apply (RedistributorBase v) s = s\<lparr>redistributor_base := v\<rparr>"
| "gicc_apply (Mpidr v) s = s\<lparr>mpidr := v\<rparr>"
| "gicc_apply (PowerEfficiencyClass v) s = s\<lparr>power_efficiency_class := v\<rparr>"
| "gicc_apply (OverflowInterrupt v) s = s\<lparr>overflow_interrupt := v\<rparr>"
| "gicc_apply (TrbeInterrupt v) s = s\<lparr>trbe_interrupt := v\<rparr>"

definition gicc_bytes :: "gicc \<Rightarrow> u8 list" where
  "gicc_bytes s = [gicc_type s, gicc_length s] @ le16 0 @ le32 (cpu_interface_number s) @
     le32 (acpi_processor_uid s) @ le32 (gicc_flags s) @ le32 (parking_protocol_version s) @
     le32 (performance_interrupt s) @ le64 (parked_address s) @ le64 (gicc_base_address s) @
     le64 (virtual_registers s) @ le64 (control_block_registers s) @ le32 (maintenance_interrupt s) @
     le64 (redistributor_base s) @ le64 (mpidr s) @ [power_efficiency_class s, 0] @
     le16 (overflow_interrupt s) @ le16 (trbe_interrupt s)"

datatype gic_version = Unspecified | GICv1 | GICv2 | GICv3 | GICv4

primrec gic_version_code :: "gic_version \<Rightarrow> u8" where
  "gic_version_code Unspecified = 0"
| "gic_version_code GICv1 = 1"
| "gic_version_code GICv2 = 2"
| "gic_version_code GICv3 = 3"
| "gic_version_code GICv4 = 4"

record gicd =
  gicd_type :: u8
  gicd_length :: u8
  gicd_gic_id :: u32
  gicd_base_addr :: u64
  gicd_vector_base :: u32
  gicd_gic_version :: u8

definition gicd_new :: "u32 \<Rightarrow> u64 \<Rightarrow> gic_version \<Rightarrow> gicd" where
  "gicd_new gic_id base_addr version =
     \<lparr>gicd_type = structure_type_code TGicDistributor, gicd_length = 24, gicd_gic_id = gic_id,
      gicd_base_addr = base_addr, gicd_vector_base = 0, gicd_gic_version = gic_version_code version\<rparr>"

definition gicd_bytes :: "gicd \<Rightarrow> u8 list" where
  "gicd_bytes s = [gicd_type s, gicd_length s] @ le16 0 @ le32 (gicd_gic_id s) @ le64 (gicd_base_addr s) @
     le32 (gicd_vector_base s) @ [gicd_gic_version s] @ [0, 0, 0]"

record gic_msi =
  msi_type :: u8
  msi_length :: u8
  gic_msi_frame_id :: u32
  msi_base_addr :: u64
  msi_flags :: u32
  spi_count :: u16
  spi_base :: u16

definition gic_msi_new :: gic_msi where
  "gic_msi_new =
     \<lparr>msi_type = structure_type_code TGicMsiFrame, msi_length = 24, gic_msi_frame_id = 0,
      msi_base_addr = 0, msi_flags = 1, spi_count = 0, spi_base = 0\<rparr>"

definition spi_count_and_base :: "u16 \<Rightarrow> u16 \<Rightarrow> gic_msi \<Rightarrow> gic_msi" where
  "spi_count_and_base cnt base s = s\<lparr>spi_count := cnt, spi_base := base, msi_flags := 0\<rparr>"

datatype gic_msi_call = GicMsiFrameId u32 | MsiBaseAddr u64 | SpiCountAndBase u16 u16

primrec gic_msi_apply :: "gic_msi_call \<Rightarrow> gic_msi \<Rightarrow> gic_msi" where
  "gic_msi_apply (GicMsiFrameId v) s = s\<lparr>gic_msi_frame_id := v\<rparr>"
| "gic_msi_apply (MsiBaseAddr v) s = s\<lparr>msi_base_addr := v\<rparr>"
| "gic_msi_apply (SpiCountAndBase n b) s = spi_count_and_base n b s"

definition gic_msi_bytes :: "gic_msi \<Rightarrow> u8 list" where
  "gic_msi_bytes s = [msi_type s, msi_length s] @ le16 0 @ le32 (gic_msi_frame_id s) @
     le64 (msi_base_addr s) @ le32 (msi_flags s) @ le16 (spi_count s) @ le16 (spi_base s)"

record gicr =
  gicr_type :: u8
  gicr_length :: u8
  discovery_range_base :: u64
  discovery_range_length :: u32

definition gicr_new :: "u64 \<Rightarrow> u32 \<Rightarrow> gicr" where
  "gicr_new base len =
     \<lparr>gicr_type = structure_type_code TGicRedistributor, gicr_length = 16,
      discovery_range_base = base, discovery_range_length = len\<rparr>"

definition gicr_bytes :: "gicr \<Rightarrow> u8 list" where
  "gicr_bytes s = [gicr_type s, gicr_length s] @ le16 0 @ le64 (discovery_range_base s) @
     le32 (discovery_range_length s)"

record gic_its =
  its_type :: u8
  its_length :: u8
  gic_its_id :: u32
  its_base_addr :: u64

definition gic_its_new :: "u32 \<Rightarrow> u64 \<Rightarrow> gic_its" where
  "gic_its_new its_id base_addr =
     \<lparr>its_type = structure_type_code TGicTranslationService, its_length = 20, gic_its_id = its_id,
      its_base_addr = base_addr\<rparr>"

definition gic_its_bytes :: "gic_its \<Rightarrow> u8 list" where
  "gic_its_bytes s = [its_type s, its_length s] @ le16 0 @ le32 (gic_its_id s) @ le64 (its_base_addr s) @ le32 0"

subsection \<open>RISC-V\<close>

datatype hart_status = HartDisabled | HartEnabled | HartOnlineCapable

primrec hart_status_code :: "hart_status \<Rightarrow> u32" where
  "hart_status_code HartDisabled = 0"
| "hart_status_code HartEnabled = 1"
| "hart_status_code HartOnlineCapable = 2"

record rintc =
  rintc_type :: u8
  rintc_length :: u8
  rintc_version :: u8
  rintc_flags :: u32
  hart_id :: u64
  rintc_acpi_processor_uid :: u32
  ext_int_ctrl_id :: u32
  imsic_base_addr :: u64
  imsic_size :: u32

definition rintc_new :: "hart_status \<Rightarrow> u64 \<Rightarrow> u32 \<Rightarrow> u32 \<Rightarrow> u64 \<Rightarrow> u32 \<Rightarrow> rintc" where
  "rintc_new status mhartid uid ctrl base sz =
     \<lparr>rintc_type = structure_type_code TRiscvIntc, rintc_length = 36, rintc_version = 1,
      rintc_flags = hart_status_code status, hart_id = mhartid, rintc_acpi_processor_uid = uid,
      ext_int_ctrl_id = ctrl, imsic_base_addr = base, imsic_size = sz\<rparr>"

definition rintc_bytes :: "rintc \<Rightarrow> u8 list" where
  "rintc_bytes s = [rintc_type s, rintc_length s, rintc_version s, 0] @ le32 (rintc_flags s) @
     le64 (hart_id s) @ le32 (rintc_acpi_processor_uid s) @ le32 (ext_int_ctrl_id s) @
     le64 (imsic_base_addr s) @ le32 (imsic_size s)"

record imsic =
  imsic_type :: u8
  imsic_length :: u8
  imsic_version :: u8
  num_supervisor_interrupt_identities :: u16
  num_guest_interrupt_identities :: u16
  guest_index_bits :: u8
  hart_index_bits :: u8
  group_index_bits :: u8
  group_index_shift :: u8

definition imsic_new :: "u16 \<Rightarrow> u16 \<Rightarrow> u8 \<Rightarrow> u8 \<Rightarrow> u8 \<Rightarrow> u8 \<Rightarrow> imsic" where
  "imsic_new supervisor guest guest_bits hart_bits group_bits group_shift =
     \<lparr>imsic_type = structure_type_code TRiscvImsic, imsic_length = 16, imsic_version = 1,
      num_supervisor_interrupt_identities = supervisor, num_guest_interrupt_identities = guest,
      guest_index_bits = guest_bits, hart_index_bits = hart_bits, group_index_bits = group_bits,
      group_index_shift = group_shift\<rparr>"

definition imsic_bytes :: "imsic \<Rightarrow> u8 list" where
  "imsic_bytes s = [imsic_type s, imsic_length s, imsic_version s] @ [0, 0, 0, 0, 0] @
     le16 (num_supervisor_interrupt_identities s) @ le16 (num_guest_interrupt_identities s) @
     [guest_index_bits s, hart_index_bits s, group_index_bits s, group_index_shift s]"

record aplic =
  aplic_type :: u8
  aplic_length :: u8
  aplic_version :: u8
  aplic_id :: u8
  aplic_flags :: u32
  aplic_hardware_id :: "u8 list"
  number_of_idcs :: u16
  aplic_total_external_interrupt_sources :: u16
  aplic_global_system_interrupt_base :: u32
  aplic_address :: u64
  aplic_size :: u32

definition aplic_new :: "u8 \<Rightarrow> u8 list \<Rightarrow> u16 \<Rightarrow> u32 \<Rightarrow> u64 \<Rightarrow> u32 \<Rightarrow> u16 \<Rightarrow> aplic" where
  "aplic_new aid hardware idcs gsi_base addr sz sources =
     \<lparr>aplic_type = structure_type_code TRiscvAplic, aplic_length = 36, aplic_version = 1,
      aplic_id = aid, aplic_flags = 0, aplic_hardware_id = hardware, number_of_idcs = idcs,
      aplic_total_external_interrupt_sources = sources,
      aplic_global_system_interrupt_base = gsi_base, aplic_address = addr, aplic_size = sz\<rparr>"

definition aplic_bytes :: "aplic \<Rightarrow> u8 list" where
  "aplic_bytes s = [aplic_type s, aplic_length s, aplic_version s, aplic_id s] @ le32 (aplic_flags s) @
     aplic_hardware_id s @ le16 (number_of_idcs s) @ le16 (aplic_total_external_interrupt_sources s) @
     le32 (aplic_global_system_interrupt_base s) @ le64 (aplic_address s) @ le32 (aplic_size s)"

record plic =
  plic_type :: u8
  plic_length :: u8
  plic_version :: u8
  plic_id :: u8
  plic_hardware_id :: "u8 list"
  plic_total_external_interrupt_sources :: u16
  max_priority :: u16
  plic_flags :: u32
  plic_size :: u32
  plic_address :: u64
  plic_global_system_interrupt_base :: u32

definition plic_new :: "u8 \<Rightarrow> u8 list \<Rightarrow> u16 \<Rightarrow> u16 \<Rightarrow> u32 \<Rightarrow> u64 \<Rightarrow> u32 \<Rightarrow> plic" where
  "plic_new pid hardware sources priority sz addr gsi_base =
     \<lparr>plic_type = structure_type_code TRiscvPlic, plic_length = 36, plic_version = 1, plic_id = pid,
      plic_hardware_id = hardware, plic_total_external_interrupt_sources = sources,
      max_priority = priority, plic_flags = 0, plic_size = sz, plic_address = addr,
      plic_global_system_interrupt_base = gsi_base\<rparr>"

definition plic_bytes :: "plic \<Rightarrow> u8 list" where
  "plic_bytes s = [plic_type s, plic_length s, plic_version s, plic_id s] @ plic_hardware_id s @
     le16 (plic_total_external_interrupt_sources s) @ le16 (max_priority s) @ le32 (plic_flags s) @
     le32 (plic_size s) @ le64 (plic_address s) @ le32 (plic_global_system_interrupt_base s)"

section \<open>The table\<close>

text \<open>The structures \<open>add_structure\<close> takes, and their bytes.\<close>

datatype madt_entry =
  ProcessorLocalApic processor_local_apic | IoApic io_apic
| InterruptSourceOverride interrupt_source_override | ProcessorLocalApicNmi processor_local_apic_nmi
| Gicc gicc | Gicd gicd | GicMsi gic_msi | Gicr gicr | GicIts gic_its
| RINTC rintc | IMSIC imsic | APLIC aplic | PLIC plic

primrec entry_bytes :: "madt_entry \<Rightarrow> u8 list" where
  "entry_bytes (ProcessorLocalApic s) = processor_local_apic_bytes s"
| "entry_bytes (IoApic s) = io_apic_bytes s"
| "entry_bytes (InterruptSourceOverride s) = interrupt_source_override_bytes s"
| "entry_bytes (ProcessorLocalApicNmi s) = processor_local_apic_nmi_bytes s"
| "entry_bytes (Gicc s) = gicc_bytes s"
| "entry_bytes (Gicd s) = gicd_bytes s"
| "entry_bytes (GicMsi s) = gic_msi_bytes s"
| "entry_bytes (Gicr s) = gicr_bytes s"
| "entry_bytes (GicIts s) = gic_its_bytes s"
| "entry_bytes (RINTC s) = rintc_bytes s"
| "entry_bytes (IMSIC s) = imsic_bytes s"
| "entry_bytes (APLIC s) = aplic_bytes s"
| "entry_bytes (PLIC s) = plic_bytes s"

datatype local_interrupt_controller = Riscv | Address u32

record madt =
  madt_header :: table_header
  local_interrupt_controller_address :: u32
  madt_flags :: u32
  madt_checksum :: checksum
  madt_structures :: "madt_entry list"
  has_imsic :: bool

abbreviation (input) MADT_HEADER_LEN :: nat where
  "MADT_HEADER_LEN \<equiv> TABLE_HEADER_LEN + 8"

definition madt_header_bytes :: "madt \<Rightarrow> u8 list" where
  "madt_header_bytes m = header_bytes (madt_header m) @ le32 (local_interrupt_controller_address m) @
     le32 (madt_flags m)"

definition madt_new :: "u8 list \<Rightarrow> u8 list \<Rightarrow> u32 \<Rightarrow> local_interrupt_controller \<Rightarrow> madt" where
  "madt_new oem oem_table oem_rev ctrl =
     (let m = \<lparr>madt_header = new_header ''APIC'' (of_nat MADT_HEADER_LEN) oem oem_table oem_rev,
            local_interrupt_controller_address = (case ctrl of Riscv \<Rightarrow> 0 | Address addr \<Rightarrow> addr),
            madt_flags = 0, madt_checksum = cs_default, madt_structures = [], has_imsic = False\<rparr>;
          cksum = cs_append cs_default (madt_header_bytes m) in
      m\<lparr>madt_header := (madt_header m)\<lparr>th_checksum := cs_result cksum\<rparr>, madt_checksum := cksum\<rparr>)"

definition madt_set_flag :: "u32 \<Rightarrow> madt \<Rightarrow> madt" where
  "madt_set_flag flag m =
     (let old_flags = madt_flags m; new_flags = or old_flags flag;
          cksum = cs_append (cs_delete (madt_checksum m) (le32 old_flags)) (le32 new_flags) in
      m\<lparr>madt_flags := new_flags, madt_checksum := cksum,
        madt_header := (madt_header m)\<lparr>th_checksum := cs_result cksum\<rparr>\<rparr>)"

definition pc_at_compat :: "madt \<Rightarrow> madt" where
  "pc_at_compat = madt_set_flag 1"

definition madt_update_header :: "u8 list \<Rightarrow> madt \<Rightarrow> madt" where
  "madt_update_header dat m =
     (let len = of_nat (length dat); old_len = th_length (madt_header m); new_len = len + old_len;
          header = (madt_header m)\<lparr>th_length := new_len\<rparr>;
          cksum = cs_append (cs_append (cs_delete (madt_checksum m) (le32 old_len)) (le32 new_len)) dat in
      m\<lparr>madt_header := header\<lparr>th_checksum := cs_result cksum\<rparr>, madt_checksum := cksum\<rparr>)"

definition add_structure :: "madt_entry \<Rightarrow> madt \<Rightarrow> madt" where
  "add_structure t m =
     (let m = madt_update_header (entry_bytes t) m in m\<lparr>madt_structures := madt_structures m @ [t]\<rparr>)"

definition add_imsic :: "imsic \<Rightarrow> madt \<Rightarrow> madt option" where
  "add_imsic i m = (if has_imsic m then None else Some ((add_structure (IMSIC i) m)\<lparr>has_imsic := True\<rparr>))"

definition madt_bytes :: "madt \<Rightarrow> u8 list" where
  "madt_bytes m = madt_header_bytes m @ concat (map entry_bytes (madt_structures m))"

section \<open>Facts about the structures\<close>

lemma le_inject [simp]: "le16 a = le16 b \<longleftrightarrow> a = b" "le32 c = le32 d \<longleftrightarrow> c = d" "le64 e = le64 f \<longleftrightarrow> e = f"
  by (metis le_roundtrip unsigned_word_eqI)+

lemmas structure_bytes_defs =
  processor_local_apic_bytes_def io_apic_bytes_def interrupt_source_override_bytes_def
  processor_local_apic_nmi_bytes_def gicc_bytes_def gicd_bytes_def gic_msi_bytes_def gicr_bytes_def
  gic_its_bytes_def rintc_bytes_def imsic_bytes_def aplic_bytes_def plic_bytes_def

text \<open>The type and length bytes are those of the structure.\<close>

primrec entry_ok :: "madt_entry \<Rightarrow> bool" where
  "entry_ok (ProcessorLocalApic s) \<longleftrightarrow> pla_type s = structure_type_code TProcessorLocalApic \<and> pla_length s = 8"
| "entry_ok (IoApic s) \<longleftrightarrow> ioa_type s = structure_type_code TIoApic \<and> ioa_length s = 12"
| "entry_ok (InterruptSourceOverride s) \<longleftrightarrow>
     iso_type s = structure_type_code TInterruptSourceOverride \<and> iso_length s = 10"
| "entry_ok (ProcessorLocalApicNmi s) \<longleftrightarrow>
     nmi_type s = structure_type_code TProcessorLocalApicNmi \<and> nmi_length s = 6"
| "entry_ok (Gicc s) \<longleftrightarrow> gicc_type s = structure_type_code TGicCpuInterface \<and> gicc_length s = 82"
| "entry_ok (Gicd s) \<longleftrightarrow> gicd_type s = structure_type_code TGicDistributor \<and> gicd_length s = 24"
| "entry_ok (GicMsi s) \<longleftrightarrow> msi_type s = structure_type_code TGicMsiFrame \<and> msi_length s = 24"
| "entry_ok (Gicr s) \<longleftrightarrow> gicr_type s = structure_type_code TGicRedistributor \<and> gicr_length s = 16"
| "entry_ok (GicIts s) \<longleftrightarrow> its_type s = structure_type_code TGicTranslationService \<and> its_length s = 20"
| "entry_ok (RINTC s) \<longleftrightarrow> rintc_type s = structure_type_code TRiscvIntc \<and> rintc_length s = 36"
| "entry_ok (IMSIC s) \<longleftrightarrow> imsic_type s = structure_type_code TRiscvImsic \<and> imsic_length s = 16"
| "entry_ok (APLIC s) \<longleftrightarrow> aplic_type s = structure_type_code TRiscvAplic \<and> aplic_length s = 36 \<and>
     length (aplic_hardware_id s) = 8"
| "entry_ok (PLIC s) \<longleftrightarrow> plic_type s = structure_type_code TRiscvPlic \<and> plic_length s = 36 \<and>
     length (plic_hardware_id s) = 8"

lemma entry_length:
  assumes "entry_ok e"
  shows "unat (entry_bytes e ! 1) = length (entry_bytes e)" and "2 \<le> length (entry_bytes e)"
  using assms by (cases e; simp add: structure_bytes_defs)+

lemma entry_bytes_inject:
  assumes "entry_ok e" "entry_ok e'" "entry_bytes e = entry_bytes e'"
  shows "e = e'"
  using assms by (cases e; cases e') (auto simp: structure_bytes_defs)

text \<open>The structures a program can make: a constructor followed by any of its builder calls.\<close>

inductive built :: "madt_entry \<Rightarrow> bool" where
  "built (ProcessorLocalApic (processor_local_apic_new u a e))"
| "built (IoApic (io_apic_new i a g))"
| "built (InterruptSourceOverride (fold iso_call cs (interrupt_source_override_new s g)))"
| "built (ProcessorLocalApicNmi (fold nmi_call cs (processor_local_apic_nmi_new u l)))"
| "built (Gicc (fold gicc_apply gs (gicc_new st)))"
| "built (Gicd (gicd_new gi b v))"
| "built (GicMsi (fold gic_msi_apply ms gic_msi_new))"
| "built (Gicr (gicr_new rb rl))"
| "built (GicIts (gic_its_new ii ib))"
| "built (RINTC (rintc_new hs mh pu ec ba sz))"
| "built (IMSIC (imsic_new n1 n2 b1 b2 b3 b4))"
| "length hw = 8 \<Longrightarrow> built (APLIC (aplic_new ai hw ni gb ad az ts))"
| "length hw = 8 \<Longrightarrow> built (PLIC (plic_new pl hw ts mp az ad gb))"

lemma iso_fold [simp]:
  "iso_type (fold iso_call cs s) = iso_type s" "iso_length (fold iso_call cs s) = iso_length s"
  "iso_flags (fold iso_call cs s) = fold inti_apply cs (iso_flags s)"
  by (induction cs arbitrary: s) (simp_all add: iso_call_def)

lemma nmi_fold [simp]:
  "nmi_type (fold nmi_call cs s) = nmi_type s" "nmi_length (fold nmi_call cs s) = nmi_length s"
  "nmi_flags (fold nmi_call cs s) = fold inti_apply cs (nmi_flags s)"
  by (induction cs arbitrary: s) (simp_all add: nmi_call_def)

lemma gicc_apply_keeps: "gicc_type (gicc_apply c s) = gicc_type s \<and> gicc_length (gicc_apply c s) = gicc_length s"
  by (cases c) (simp_all add: gicc_performance_interrupt_def gicc_maintenance_interrupt_def Let_def)

lemma gicc_fold [simp]:
  "gicc_type (fold gicc_apply cs s) = gicc_type s" "gicc_length (fold gicc_apply cs s) = gicc_length s"
  by (induction cs arbitrary: s) (simp_all add: gicc_apply_keeps)

lemma gic_msi_apply_keeps:
  "msi_type (gic_msi_apply c s) = msi_type s \<and> msi_length (gic_msi_apply c s) = msi_length s"
  by (cases c) (simp_all add: spi_count_and_base_def)

lemma gic_msi_fold [simp]:
  "msi_type (fold gic_msi_apply cs s) = msi_type s" "msi_length (fold gic_msi_apply cs s) = msi_length s"
  by (induction cs arbitrary: s) (simp_all add: gic_msi_apply_keeps)

lemma built_ok: "built e \<Longrightarrow> entry_ok e"
  by (induction rule: built.induct)
    (simp_all add: processor_local_apic_new_def io_apic_new_def interrupt_source_override_new_def
      processor_local_apic_nmi_new_def gicc_new_def gicd_new_def gic_msi_new_def gicr_new_def
      gic_its_new_def rintc_new_def imsic_new_def aplic_new_def plic_new_def)

text \<open>The reader of the table body: skip from structure to structure by the length byte.\<close>

function walk :: "u8 list \<Rightarrow> u8 list list option" where
  "walk bs =
     (if bs = [] then Some []
      else if length bs < 2 \<or> unat (bs ! 1) < 2 \<or> length bs < unat (bs ! 1) then None
      else map_option (Cons (take (unat (bs ! 1)) bs)) (walk (drop (unat (bs ! 1)) bs)))"
  by auto
termination by (relation "measure length") auto

declare walk.simps [simp del]

lemma walk_concat: "list_all entry_ok es \<Longrightarrow> walk (concat (map entry_bytes es)) = Some (map entry_bytes es)"
proof (induction es)
  case (Cons e es)
  let ?rest = "concat (map entry_bytes es)"
  have "(entry_bytes e @ ?rest) ! 1 = entry_bytes e ! 1" "entry_bytes e \<noteq> []"
    using entry_length [of e] Cons.prems by (auto simp: nth_append)
  then show ?case
    using entry_length [of e] Cons by (subst walk.simps) simp
qed (simp add: walk.simps)

section \<open>Facts about the flags and the table\<close>

text \<open>The last polarity and the last trigger mode asked for; zero when none was.\<close>

definition last_polarity :: "inti_call list \<Rightarrow> u16" where
  "last_polarity cs = foldl (\<lambda>v c. case c of Polarity p \<Rightarrow> polarity_code p | TriggerMode _ \<Rightarrow> v) 0 cs"

definition last_trigger :: "inti_call list \<Rightarrow> u16" where
  "last_trigger cs = foldl (\<lambda>v c. case c of TriggerMode t \<Rightarrow> trigger_code t | Polarity _ \<Rightarrow> v) 0 cs"

lemma inti_step:
  assumes "p \<in> {0, 1, 3}" "t \<in> {0, 1, 3}"
  shows "inti_apply c (p + 4 * t) =
    (case c of Polarity x \<Rightarrow> polarity_code x + 4 * t | TriggerMode x \<Rightarrow> p + 4 * trigger_code x)"
proof (cases c)
  case (Polarity x)
  then show ?thesis using assms by (cases x) (auto simp: set_polarity_flag_def)
next
  case (TriggerMode x)
  then show ?thesis using assms by (cases x) (auto simp: set_trigger_mode_flag_def)
qed

lemma codes_in: "polarity_code p \<in> {0, 1, 3}" "trigger_code t \<in> {0, 1, 3}"
  by (cases p, simp_all) (cases t, simp_all)

lemma inti_fold: "fold inti_apply cs 0 = last_polarity cs + 4 * last_trigger cs \<and>
    last_polarity cs \<in> {0, 1, 3} \<and> last_trigger cs \<in> {0, 1, 3}"
proof (induction cs rule: rev_induct)
  case (snoc c cs)
  then have "fold inti_apply (cs @ [c]) 0 = inti_apply c (last_polarity cs + 4 * last_trigger cs)" by simp
  also have "\<dots> = last_polarity (cs @ [c]) + 4 * last_trigger (cs @ [c])"
    using snoc inti_step [of "last_polarity cs" "last_trigger cs" c]
    by (simp add: last_polarity_def last_trigger_def split: inti_call.split)
  finally show ?case
    using snoc codes_in by (auto simp: last_polarity_def last_trigger_def split: inti_call.split)
qed (simp add: last_polarity_def last_trigger_def)

interpretation madt_table: running_table madt_header madt_checksum
    "\<lambda>m. le32 (local_interrupt_controller_address m) @ le32 (madt_flags m) @
       concat (map entry_bytes (madt_structures m))"
    madt_bytes entry_bytes add_structure
  by unfold_locales
    (simp_all add: madt_bytes_def madt_header_bytes_def add_structure_def madt_update_header_def
      update_header_def Let_def)

lemma madt_new_good:
  assumes "length oem = 6" "length oem_table = 8"
  shows "madt_table.good (madt_new oem oem_table r ctrl)"
  unfolding madt_table.good_def madt_new_def Let_def madt_header_bytes_def
  using assms by (simp add: running_start new_header_ok TABLE_HEADER_LEN_def)

lemma set_flag_good: "madt_table.good m \<Longrightarrow> madt_table.good (madt_set_flag f m)"
  by (simp add: madt_table.good_def running_def madt_set_flag_def Let_def header_ok_def
      sum_header_checksum algebra_simps)

lemma has_imsic_good [simp]: "madt_table.good (m\<lparr>has_imsic := b\<rparr>) = madt_table.good m"
  by (simp add: madt_table.good_def)

datatype madt_call = PcAtCompat | AddStructure madt_entry | AddImsic imsic

primrec madt_step :: "madt_call \<Rightarrow> madt \<Rightarrow> madt option" where
  "madt_step PcAtCompat m = Some (pc_at_compat m)"
| "madt_step (AddStructure e) m = Some (add_structure e m)"
| "madt_step (AddImsic i) m = add_imsic i m"

primrec madt_run :: "madt_call list \<Rightarrow> madt \<Rightarrow> madt option" where
  "madt_run [] m = Some m"
| "madt_run (c # cs) m = Option.bind (madt_step c m) (madt_run cs)"

primrec call_entries :: "madt_call \<Rightarrow> madt_entry list" where
  "call_entries PcAtCompat = []"
| "call_entries (AddStructure e) = [e]"
| "call_entries (AddImsic i) = [IMSIC i]"

definition entries_of :: "madt_call list \<Rightarrow> madt_entry list" where
  "entries_of cs = concat (map call_entries cs)"

definition is_add_imsic :: "madt_call \<Rightarrow> bool" where
  "is_add_imsic c \<longleftrightarrow> (case c of AddImsic _ \<Rightarrow> True | _ \<Rightarrow> False)"

lemma madt_run_None_iff:
  "madt_run cs m = None \<longleftrightarrow> (if has_imsic m then 0 else 1) < length (filter is_add_imsic cs)"
proof (induction cs arbitrary: m)
  case (Cons c cs)
  then show ?case
    by (cases c) (auto simp: is_add_imsic_def pc_at_compat_def madt_set_flag_def add_structure_def
      madt_update_header_def add_imsic_def Let_def)
qed simp

lemma madt_step_facts:
  assumes "madt_step c m = Some m'" "madt_table.good m"
    and "length (madt_bytes m) + length (concat (map entry_bytes (call_entries c))) < 2 ^ 32"
  shows "madt_table.good m'" and "madt_structures m' = madt_structures m @ call_entries c"
    and "length (madt_bytes m') = length (madt_bytes m) + length (concat (map entry_bytes (call_entries c)))"
proof -
  have add: "madt_table.good (add_structure e m)"
    if "length (madt_bytes m) + length (entry_bytes e) < 2 ^ 32" for e
    by (rule madt_table.good_add [OF assms(2) that])
  show good: "madt_table.good m'"
    using assms add by (cases c) (auto simp: pc_at_compat_def set_flag_good add_imsic_def split: if_splits)
  show st: "madt_structures m' = madt_structures m @ call_entries c"
    using assms(1) by (cases c) (auto simp: pc_at_compat_def madt_set_flag_def add_imsic_def
      add_structure_def madt_update_header_def Let_def split: if_splits)
  show "length (madt_bytes m') = length (madt_bytes m) + length (concat (map entry_bytes (call_entries c)))"
    using good assms(2) st
    by (simp add: madt_table.good_def running_def madt_bytes_def madt_header_bytes_def)
qed

lemma madt_run_facts:
  assumes "madt_run cs m = Some m'" "madt_table.good m"
    and "length (madt_bytes m) + length (concat (map entry_bytes (entries_of cs))) < 2 ^ 32"
  shows "madt_table.good m' \<and> madt_structures m' = madt_structures m @ entries_of cs"
  using assms
proof (induction cs arbitrary: m)
  case (Cons c cs)
  obtain m1 where m1: "madt_step c m = Some m1" "madt_run cs m1 = Some m'"
    using Cons.prems(1) by (auto simp: bind_eq_Some_conv)
  note facts = madt_step_facts [OF m1(1) Cons.prems(2)]
  have room: "length (madt_bytes m) + length (concat (map entry_bytes (call_entries c))) < 2 ^ 32"
    using Cons.prems(3) by (simp add: entries_of_def)
  show ?case
    using Cons.IH [OF m1(2) facts(1) [OF room]] facts(2,3) [OF room] Cons.prems(3)
    by (simp add: entries_of_def add.assoc)
qed (simp add: entries_of_def)

section \<open>Properties\<close>

text \<open>
  C35. The interrupt table and its reader.  Starting from \<open>MADT::new\<close>, a sequence of calls panics exactly
  when it adds a second IMSIC through \<open>add_imsic\<close>.  Otherwise, as long as the table stays below 4 GiB
  and every structure was made by its constructor and builder calls, the table is valid and a reader
  that walks its body by the length bytes finds the added structures, in order.
\<close>

theorem madt_walk_recovers:
  assumes "length oem = 6" "length oem_table = 8" and "list_all built (entries_of cs)"
    and "44 + length (concat (map entry_bytes (entries_of cs))) < 2 ^ 32"
  shows "case madt_run cs (madt_new oem oem_table r ctrl) of
      None \<Rightarrow> 1 < length (filter is_add_imsic cs)
    | Some m \<Rightarrow> length (filter is_add_imsic cs) \<le> 1 \<and> valid_table (madt_bytes m) \<and>
        walk (drop 44 (madt_bytes m)) = Some (map entry_bytes (entries_of cs))"
proof -
  let ?m = "madt_new oem oem_table r ctrl"
  have good: "madt_table.good ?m" by (rule madt_new_good [OF assms(1,2)])
  have fresh: "has_imsic ?m = False" "madt_structures ?m = []"
    by (simp_all add: madt_new_def Let_def)
  have len: "length (madt_bytes ?m) = 44"
    using good fresh by (simp add: madt_table.good_def running_def madt_bytes_def madt_header_bytes_def TABLE_HEADER_LEN_def)
  have panic: "madt_run cs ?m = None \<longleftrightarrow> 1 < length (filter is_add_imsic cs)"
    using madt_run_None_iff [of cs ?m] fresh by simp
  show ?thesis
  proof (cases "madt_run cs ?m")
    case (Some m)
    have m: "madt_table.good m" "madt_structures m = entries_of cs"
      using madt_run_facts [OF Some good] len assms(4) fresh by simp_all
    have "drop 44 (madt_bytes m) = concat (map entry_bytes (entries_of cs))"
      using m by (simp add: madt_table.good_def running_def madt_bytes_def madt_header_bytes_def TABLE_HEADER_LEN_def)
    moreover have "list_all entry_ok (entries_of cs)"
      using assms(3) built_ok by (simp add: list_all_iff)
    ultimately show ?thesis
      using Some panic madt_table.good_valid [OF m(1)] by (simp add: walk_concat)
  qed (use panic in simp)
qed

definition sample_calls :: "madt_call list" where
  "sample_calls = [PcAtCompat, AddStructure (ProcessorLocalApic (processor_local_apic_new 0 0 Enabled)),
     AddImsic (imsic_new 255 255 0 0 0 24), AddStructure (Gicr (gicr_new 0x1000 0x100))]"

theorem madt_walk_recovers_witness:
  "\<exists>m. madt_run sample_calls (madt_new (replicate 6 65) (replicate 8 66) 1 Riscv) = Some m \<and>
     valid_table (madt_bytes m) \<and>
     walk (drop 44 (madt_bytes m)) = Some (map entry_bytes (entries_of sample_calls))"
proof -
  let ?run = "madt_run sample_calls (madt_new (replicate 6 65) (replicate 8 66) 1 Riscv)"
  have built: "list_all built (entries_of sample_calls)"
    by (simp add: sample_calls_def entries_of_def built.intros)
  have len: "44 + length (concat (map entry_bytes (entries_of sample_calls))) < 2 ^ 32"
    by (simp add: sample_calls_def entries_of_def structure_bytes_defs)
  have one: "length (filter is_add_imsic sample_calls) = 1" by (simp add: sample_calls_def is_add_imsic_def)
  note main = madt_walk_recovers [OF _ _ built len, of "replicate 6 65" "replicate 8 66" 1 Riscv]
  show ?thesis
  proof (cases ?run)
    case None
    then show ?thesis using main one by simp
  next
    case (Some m)
    then show ?thesis using main by simp
  qed
qed

text \<open>
  Structures are uniquely decodable.  Two sequences of structures with the same bytes are the same
  sequence: every field of every structure that the constructors and builders set can be read back
  from the table.
\<close>

theorem madt_structures_decodable:
  assumes "list_all built es" "list_all built es'"
    and "concat (map entry_bytes es) = concat (map entry_bytes es')"
  shows "es = es'"
proof -
  have ok: "list_all entry_ok es" "list_all entry_ok es'"
    using assms(1,2) built_ok by (simp_all add: list_all_iff)
  have "Some (map entry_bytes es) = Some (map entry_bytes es')"
    unfolding walk_concat [OF ok(1), symmetric] walk_concat [OF ok(2), symmetric] assms(3) ..
  then have "map entry_bytes es = map entry_bytes es'" by (rule option.inject [THEN iffD1])
  then show ?thesis
    by (rule map_inj_on) (use ok in \<open>auto simp: inj_on_def list_all_iff intro!: entry_bytes_inject\<close>)
qed

theorem madt_structures_decodable_witness:
  "concat (map entry_bytes [Gicd (gicd_new 1 0x8000000 GICv3)]) \<noteq>
   concat (map entry_bytes [Gicd (gicd_new 1 0x8000000 GICv2)])"
proof
  assume "concat (map entry_bytes [Gicd (gicd_new 1 0x8000000 GICv3)]) =
    concat (map entry_bytes [Gicd (gicd_new 1 0x8000000 GICv2)])"
  then have "[Gicd (gicd_new 1 0x8000000 GICv3)] = [Gicd (gicd_new 1 0x8000000 GICv2)]"
    by (intro madt_structures_decodable) (simp_all add: built.intros)
  then show False by (simp add: gicd_new_def)
qed

text \<open>
  Interrupt flags.  Whatever sequence of \<open>active_high\<close>, \<open>active_low\<close>, \<open>edge_triggered\<close> and
  \<open>level_triggered\<close> is called on an interrupt source override or a local APIC NMI, its flags hold the
  last polarity asked for in bits 0 and 1, the last trigger mode in bits 2 and 3, and nothing else.
\<close>

theorem interrupt_flags_last_wins:
  "iso_flags (fold iso_call cs (interrupt_source_override_new s g)) = last_polarity cs + 4 * last_trigger cs \<and>
   nmi_flags (fold nmi_call cs (processor_local_apic_nmi_new u l)) = last_polarity cs + 4 * last_trigger cs \<and>
   {last_polarity cs, last_trigger cs} \<subseteq> {0, 1, 3}"
  using inti_fold [of cs] by (simp add: interrupt_source_override_new_def processor_local_apic_nmi_new_def)

end
