(* ===== verification/DirtyBitmap.thy ===== *)
theory DirtyBitmap
  imports Prelude
begin

text \<open>
  Dirty page tracking: \<^verbatim>\<open>vm-memory/src/bitmap\<close>.  \<open>AtomicBitmap\<close> keeps one bit per page in 64-bit words;
  \<open>BaseSlice\<close> is a window into a bitmap that starts at an offset.  The locale \<open>dirty_bitmap\<close> is what the
  rest of the crate relies on: marked offsets are dirty and stay dirty.  Sizes are natural numbers;
  where the code saturates or wraps at the bound of \<^verbatim>\<open>usize\<close> the model does.
\<close>

section \<open>The bitmap (bitmap/backend/atomic_bitmap.rs)\<close>

definition USIZE_MAX :: nat where "USIZE_MAX = 2 ^ 64 - 1"

definition saturating_add :: "nat \<Rightarrow> nat \<Rightarrow> nat" where
  "saturating_add a b = min (a + b) USIZE_MAX"

definition wrapping_add :: "nat \<Rightarrow> nat \<Rightarrow> nat" where
  "wrapping_add a b = (a + b) mod 2 ^ 64"

definition div_ceil :: "nat \<Rightarrow> nat \<Rightarrow> nat" where
  "div_ceil a b = (if 0 < a mod b then a div b + 1 else a div b)"

record atomic_bitmap =
  bm_map :: "u64 list"
  bm_size :: nat
  bm_byte_size :: nat
  bm_page_size :: nat

definition bitmap_new :: "nat \<Rightarrow> nat \<Rightarrow> atomic_bitmap" where
  "bitmap_new byte_size page_size =
     (let num_pages = div_ceil byte_size page_size; map_size = div_ceil num_pages 64 in
      \<lparr>bm_map = replicate map_size 0, bm_size = num_pages, bm_byte_size = byte_size, bm_page_size = page_size\<rparr>)"

text \<open>\<open>Vec::resize_with\<close>.\<close>

definition resize_with :: "nat \<Rightarrow> 'a \<Rightarrow> 'a list \<Rightarrow> 'a list" where
  "resize_with n x xs = take n xs @ replicate (n - length xs) x"

definition enlarge :: "nat \<Rightarrow> atomic_bitmap \<Rightarrow> atomic_bitmap" where
  "enlarge additional_size b =
     (let byte_size = bm_byte_size b + additional_size; sz = div_ceil byte_size (bm_page_size b);
          map_size = div_ceil sz 64 in
      b\<lparr>bm_byte_size := byte_size, bm_size := sz, bm_map := resize_with map_size 0 (bm_map b)\<rparr>)"

definition is_bit_set :: "atomic_bitmap \<Rightarrow> nat \<Rightarrow> bool" where
  "is_bit_set b index = (if index < bm_size b then and (bm_map b ! (index div 64)) (push_bit (index mod 64) 1) \<noteq> 0 else False)"

definition is_addr_set :: "atomic_bitmap \<Rightarrow> nat \<Rightarrow> bool" where
  "is_addr_set b addr = is_bit_set b (addr div bm_page_size b)"

text \<open>\<open>fetch_or\<close> and \<open>fetch_and\<close> on the word that holds bit \<open>n\<close>.\<close>

definition fetch_or :: "nat \<Rightarrow> atomic_bitmap \<Rightarrow> atomic_bitmap" where
  "fetch_or n b = b\<lparr>bm_map := (bm_map b)[n div 64 := or (bm_map b ! (n div 64)) (push_bit (n mod 64) 1)]\<rparr>"

definition fetch_and_not :: "nat \<Rightarrow> atomic_bitmap \<Rightarrow> atomic_bitmap" where
  "fetch_and_not n b = b\<lparr>bm_map := (bm_map b)[n div 64 := and (bm_map b ! (n div 64)) (not (push_bit (n mod 64) 1))]\<rparr>"

text \<open>The loop \<open>for n in first_bit..=last_bit\<close>, left at the end of the bitmap.\<close>

function set_reset_bits :: "nat \<Rightarrow> nat \<Rightarrow> bool \<Rightarrow> atomic_bitmap \<Rightarrow> atomic_bitmap" where
  "set_reset_bits n last_bit st b =
     (if last_bit < n \<or> bm_size b \<le> n then b
      else set_reset_bits (Suc n) last_bit st (if st then fetch_or n b else fetch_and_not n b))"
  by auto
termination by (relation "measure (\<lambda>(n, l, _). Suc l - n)") auto

declare set_reset_bits.simps [simp del]

definition set_reset_addr_range :: "nat \<Rightarrow> nat \<Rightarrow> bool \<Rightarrow> atomic_bitmap \<Rightarrow> atomic_bitmap" where
  "set_reset_addr_range start_addr len st b =
     (if len = 0 then b
      else let first_bit = start_addr div bm_page_size b;
               last_bit = saturating_add start_addr (len - 1) div bm_page_size b in
           set_reset_bits first_bit last_bit st b)"

definition set_addr_range :: "nat \<Rightarrow> nat \<Rightarrow> atomic_bitmap \<Rightarrow> atomic_bitmap" where
  "set_addr_range start_addr len = set_reset_addr_range start_addr len True"

definition reset_addr_range :: "nat \<Rightarrow> nat \<Rightarrow> atomic_bitmap \<Rightarrow> atomic_bitmap" where
  "reset_addr_range start_addr len = set_reset_addr_range start_addr len False"

definition set_bit_at :: "nat \<Rightarrow> atomic_bitmap \<Rightarrow> atomic_bitmap" where
  "set_bit_at index b = (if bm_size b \<le> index then b else fetch_or index b)"

definition reset_bit_at :: "nat \<Rightarrow> atomic_bitmap \<Rightarrow> atomic_bitmap" where
  "reset_bit_at index b = (if bm_size b \<le> index then b else fetch_and_not index b)"

definition get_and_reset :: "atomic_bitmap \<Rightarrow> u64 list \<times> atomic_bitmap" where
  "get_and_reset b = (bm_map b, b\<lparr>bm_map := map (\<lambda>u. and u 0) (bm_map b)\<rparr>)"

definition bitmap_reset :: "atomic_bitmap \<Rightarrow> atomic_bitmap" where
  "bitmap_reset b = b\<lparr>bm_map := map (\<lambda>_. 0) (bm_map b)\<rparr>"

definition bitmap_mark_dirty :: "nat \<Rightarrow> nat \<Rightarrow> atomic_bitmap \<Rightarrow> atomic_bitmap" where
  "bitmap_mark_dirty off len = set_addr_range off len"

definition bitmap_dirty_at :: "atomic_bitmap \<Rightarrow> nat \<Rightarrow> bool" where
  "bitmap_dirty_at b off = is_addr_set b off"

section \<open>Slices (bitmap/backend/slice.rs)\<close>

record base_slice =
  bs_inner :: atomic_bitmap
  bs_base_offset :: nat

definition slice_mark_dirty :: "nat \<Rightarrow> nat \<Rightarrow> base_slice \<Rightarrow> base_slice" where
  "slice_mark_dirty off len s =
     s\<lparr>bs_inner := bitmap_mark_dirty (wrapping_add (bs_base_offset s) off) len (bs_inner s)\<rparr>"

definition slice_dirty_at :: "base_slice \<Rightarrow> nat \<Rightarrow> bool" where
  "slice_dirty_at s off = bitmap_dirty_at (bs_inner s) (wrapping_add (bs_base_offset s) off)"

definition slice_slice_at :: "nat \<Rightarrow> base_slice \<Rightarrow> base_slice" where
  "slice_slice_at off s = s\<lparr>bs_base_offset := wrapping_add (bs_base_offset s) off\<rparr>"

definition bitmap_slice_at :: "nat \<Rightarrow> atomic_bitmap \<Rightarrow> base_slice" where
  "bitmap_slice_at off b = \<lparr>bs_inner = b, bs_base_offset = off\<rparr>"

section \<open>Invariant and set of dirty pages\<close>

definition bitmap_ok :: "atomic_bitmap \<Rightarrow> bool" where
  "bitmap_ok b \<longleftrightarrow> 0 < bm_page_size b \<and> bm_size b = div_ceil (bm_byte_size b) (bm_page_size b) \<and>
     length (bm_map b) = div_ceil (bm_size b) 64 \<and>
     (\<forall>i < length (bm_map b). \<forall>j < 64. bit (bm_map b ! i) j \<longrightarrow> 64 * i + j < bm_size b)"

definition dirty_pages :: "atomic_bitmap \<Rightarrow> nat set" where
  "dirty_pages b = {n. n < bm_size b \<and> bit (bm_map b ! (n div 64)) (n mod 64)}"

lemma less_div_ceil:
  assumes "0 < b"
  shows "n < div_ceil a b \<longleftrightarrow> n * b < a"
proof (cases "0 < a mod b")
  case True
  then have "n * b \<noteq> a" by auto
  then show ?thesis
    using True less_eq_div_iff_mult_less_eq [OF assms, of n a] by (auto simp: div_ceil_def)
next
  case False
  then have "a = (a div b) * b" by (metis div_mult_mod_eq add_0_right gr0I)
  then have "n * b < a \<longleftrightarrow> n < a div b" using assms by (metis mult_less_cancel2)
  then show ?thesis using False by (simp add: div_ceil_def)
qed

lemma page_word: "bitmap_ok b \<Longrightarrow> n < bm_size b \<Longrightarrow> n div 64 < length (bm_map b)"
proof -
  assume ok: "bitmap_ok b" and n: "n < bm_size b"
  have "n div 64 * 64 < bm_size b" using n by (meson le_less_trans div_times_less_eq_dividend)
  then show ?thesis using ok less_div_ceil [of 64 "n div 64" "bm_size b"] by (simp add: bitmap_ok_def)
qed

lemma is_bit_set_iff: "is_bit_set b n \<longleftrightarrow> n \<in> dirty_pages b"
proof -
  have "and w (push_bit j 1) \<noteq> 0 \<longleftrightarrow> bit w j" if "j < 64" for w :: u64 and j
    using that and_exp_eq_0_iff_not_bit [of w j] by simp
  then show ?thesis by (simp add: is_bit_set_def dirty_pages_def)
qed

lemma fetch_fields [simp]:
  "bm_size (fetch_or n b) = bm_size b" "bm_page_size (fetch_or n b) = bm_page_size b"
  "bm_byte_size (fetch_or n b) = bm_byte_size b" "length (bm_map (fetch_or n b)) = length (bm_map b)"
  "bm_size (fetch_and_not n b) = bm_size b" "bm_page_size (fetch_and_not n b) = bm_page_size b"
  "bm_byte_size (fetch_and_not n b) = bm_byte_size b" "length (bm_map (fetch_and_not n b)) = length (bm_map b)"
  by (simp_all add: fetch_or_def fetch_and_not_def)

lemma index_split: "j < 64 \<Longrightarrow> 64 * i + j = n \<longleftrightarrow> n div 64 = i \<and> n mod 64 = j" for n :: nat
  by auto

lemma bit_fetch_or:
  assumes "i < length (bm_map b)" "j < 64"
  shows "bit (bm_map (fetch_or n b) ! i) j \<longleftrightarrow> bit (bm_map b ! i) j \<or> 64 * i + j = n"
  using assms
  by (cases "n div 64 = i") (auto simp: index_split fetch_or_def bit_or_iff bit_exp_iff)

lemma bit_fetch_and_not:
  assumes "i < length (bm_map b)" "j < 64"
  shows "bit (bm_map (fetch_and_not n b) ! i) j \<longleftrightarrow> bit (bm_map b ! i) j \<and> 64 * i + j \<noteq> n"
  using assms
  by (cases "n div 64 = i") (auto simp: index_split fetch_and_not_def bit_and_iff bit_not_iff bit_exp_iff)

lemma fetch_ok:
  assumes "bitmap_ok b" "n < bm_size b"
  shows "bitmap_ok (fetch_or n b)" and "bitmap_ok (fetch_and_not n b)"
    and "dirty_pages (fetch_or n b) = insert n (dirty_pages b)"
    and "dirty_pages (fetch_and_not n b) = dirty_pages b - {n}"
proof -
  show "bitmap_ok (fetch_or n b)" "bitmap_ok (fetch_and_not n b)"
    using assms by (auto simp: bitmap_ok_def bit_fetch_or bit_fetch_and_not)
  show "dirty_pages (fetch_or n b) = insert n (dirty_pages b)"
    "dirty_pages (fetch_and_not n b) = dirty_pages b - {n}"
    using assms page_word [OF assms(1)]
    by (auto simp: dirty_pages_def bit_fetch_or bit_fetch_and_not)
qed

lemma set_reset_bits_facts:
  assumes "bitmap_ok b"
  shows "bitmap_ok (set_reset_bits n l st b)" (is ?A)
    and "dirty_pages (set_reset_bits n l st b) =
      (if st then dirty_pages b \<union> {n..l} \<inter> {..<bm_size b} else dirty_pages b - {n..l})" (is ?B)
    and "bm_size (set_reset_bits n l st b) = bm_size b \<and> bm_page_size (set_reset_bits n l st b) = bm_page_size b \<and>
      bm_byte_size (set_reset_bits n l st b) = bm_byte_size b" (is ?C)
proof -
  have "?A \<and> ?B \<and> ?C"
    using assms
  proof (induction n l st b rule: set_reset_bits.induct)
    case (1 n l st b)
    let ?b = "if st then fetch_or n b else fetch_and_not n b"
    show ?case
    proof (cases "l < n \<or> bm_size b \<le> n")
      case True
      then have "{n..l} \<inter> {..<bm_size b} = {}" "dirty_pages b \<inter> {n..l} = {}"
        by (auto simp: dirty_pages_def)
      then show ?thesis using True "1.prems" by (simp add: set_reset_bits.simps Diff_triv)
    next
      case False
      then have n: "n < bm_size b" "n \<le> l" by auto
      have ok: "bitmap_ok ?b" using fetch_ok(1,2) [OF "1.prems" n(1)] by simp
      have split: "{n..l} = insert n {Suc n..l}" using n(2) by auto
      have "set_reset_bits n l st b = set_reset_bits (Suc n) l st ?b"
        using False by (subst set_reset_bits.simps) simp
      then show ?thesis
        using "1.IH" [OF False ok] fetch_ok(3,4) [OF "1.prems" n(1)] n(1)
        by (auto simp: split split: if_splits)
    qed
  qed
  then show ?A ?B ?C by blast+
qed

lemma set_reset_range_facts:
  assumes "bitmap_ok b"
  shows "bitmap_ok (set_reset_addr_range s len st b)"
    and "bm_page_size (set_reset_addr_range s len st b) = bm_page_size b"
    and "bm_size (set_reset_addr_range s len st b) = bm_size b"
    and "bm_byte_size (set_reset_addr_range s len st b) = bm_byte_size b"
  using assms set_reset_bits_facts(1,3) [OF assms] by (simp_all add: set_reset_addr_range_def Let_def)

text \<open>The pages a range of addresses touches.\<close>

definition touched :: "nat \<Rightarrow> nat \<Rightarrow> nat \<Rightarrow> nat set" where
  "touched page s len = (if len = 0 then {} else {s div page..saturating_add s (len - 1) div page})"

lemma dirty_set_reset_range:
  assumes "bitmap_ok b"
  shows "dirty_pages (set_reset_addr_range s len st b) =
    (if st then dirty_pages b \<union> touched (bm_page_size b) s len \<inter> {..<bm_size b}
     else dirty_pages b - touched (bm_page_size b) s len)"
  using set_reset_bits_facts(2) [OF assms] by (simp add: set_reset_addr_range_def Let_def touched_def)

lemma bitmap_new_ok:
  assumes "0 < page_size"
  shows "bitmap_ok (bitmap_new byte_size page_size)" and "dirty_pages (bitmap_new byte_size page_size) = {}"
proof -
  show ok: "bitmap_ok (bitmap_new byte_size page_size)"
    using assms by (simp add: bitmap_ok_def bitmap_new_def Let_def)
  show "dirty_pages (bitmap_new byte_size page_size) = {}"
    using page_word [OF ok] by (auto simp: dirty_pages_def bitmap_new_def Let_def)
qed

lemma div_ceil_mono: "0 < b \<Longrightarrow> a \<le> c \<Longrightarrow> div_ceil a b \<le> div_ceil c b"
  using less_div_ceil [of b "div_ceil c b" a] less_div_ceil [of b "div_ceil c b" c] by linarith

lemma enlarge_facts:
  assumes "bitmap_ok b"
  shows "bitmap_ok (enlarge n b)" and "dirty_pages (enlarge n b) = dirty_pages b"
proof -
  let ?b = "enlarge n b" and ?m = "bm_map b"
  have page: "0 < bm_page_size b" using assms by (simp add: bitmap_ok_def)
  have sz: "bm_size b \<le> bm_size ?b"
    using assms div_ceil_mono [OF page] by (simp add: enlarge_def Let_def bitmap_ok_def)
  have len: "length ?m \<le> length (bm_map ?b)" and len': "length (bm_map ?b) = div_ceil (bm_size ?b) 64"
    using assms div_ceil_mono [of 64, OF _ sz]
    by (auto simp: enlarge_def Let_def bitmap_ok_def resize_with_def)
  have map: "bm_map ?b = ?m @ replicate (length (bm_map ?b) - length ?m) 0"
    using len by (auto simp: enlarge_def Let_def resize_with_def min_def split: if_splits)
  have nth: "bm_map ?b ! i = (if i < length ?m then ?m ! i else 0)" if "i < length (bm_map ?b)" for i
    using that by (subst map) (simp add: nth_append)
  have old: "64 * i + j < bm_size b" if "i < length ?m" "j < 64" "bit (?m ! i) j" for i j
    using that assms unfolding bitmap_ok_def by blast
  have bits: "64 * i + j < bm_size ?b" if "i < length (bm_map ?b)" "j < 64" "bit (bm_map ?b ! i) j" for i j
    using that old [of i j] sz nth [of i] by (cases "i < length ?m") auto
  have "bm_page_size ?b = bm_page_size b" "bm_size ?b = div_ceil (bm_byte_size ?b) (bm_page_size ?b)"
    by (simp_all add: enlarge_def Let_def)
  then show ok: "bitmap_ok ?b"
    unfolding bitmap_ok_def using page len' bits by simp
  show "dirty_pages ?b = dirty_pages b"
    using page_word [OF ok] page_word [OF assms] sz old
    by (auto simp: dirty_pages_def nth split: if_splits) (metis mod_less_divisor mult_div_mod_eq zero_less_numeral)
qed

lemma reset_facts:
  assumes "bitmap_ok b"
  shows "bitmap_ok (bitmap_reset b)" "dirty_pages (bitmap_reset b) = {}"
    "snd (get_and_reset b) = bitmap_reset b"
  using assms page_word [OF assms]
  by (auto simp: bitmap_reset_def get_and_reset_def bitmap_ok_def dirty_pages_def)

lemma covered_page: "0 < p \<Longrightarrow> a < bs \<Longrightarrow> a div p < div_ceil bs p"
  by (metis div_times_less_eq_dividend le_less_trans less_div_ceil)

lemma touched_iff: "a \<le> USIZE_MAX \<Longrightarrow> s \<le> a \<Longrightarrow> a < s + len \<Longrightarrow> a div p \<in> touched p s len"
  by (auto simp: touched_def saturating_add_def div_le_mono)

section \<open>What a bitmap promises\<close>

locale dirty_bitmap =
  fixes good :: "'b \<Rightarrow> bool"
    and covers :: "'b \<Rightarrow> nat \<Rightarrow> bool"
    and mark :: "nat \<Rightarrow> nat \<Rightarrow> 'b \<Rightarrow> 'b"
    and at :: "'b \<Rightarrow> nat \<Rightarrow> bool"
  assumes mark_good: "good b \<Longrightarrow> good (mark s len b)"
    and mark_covers: "good b \<Longrightarrow> covers (mark s len b) a = covers b a"
    and mark_sets: "good b \<Longrightarrow> covers b a \<Longrightarrow> s \<le> a \<Longrightarrow> a < s + len \<Longrightarrow> at (mark s len b) a"
    and mark_keeps: "good b \<Longrightarrow> at b a \<Longrightarrow> at (mark s len b) a"
begin

lemma marks_good: "good b \<Longrightarrow> good (fold (\<lambda>(s, len). mark s len) ms b)"
  by (induction ms arbitrary: b) (auto simp: mark_good)

lemma marks_covers: "good b \<Longrightarrow> covers (fold (\<lambda>(s, len). mark s len) ms b) a = covers b a"
  by (induction ms arbitrary: b) (auto simp: mark_good mark_covers)

lemma marks_keep: "good b \<Longrightarrow> at b a \<Longrightarrow> at (fold (\<lambda>(s, len). mark s len) ms b) a"
  by (induction ms arbitrary: b) (auto simp: mark_good mark_keeps)

lemma marks_set:
  assumes "good b" "covers b a" "(s, len) \<in> set ms" "s \<le> a" "a < s + len"
  shows "at (fold (\<lambda>(s, len). mark s len) ms b) a"
  using assms
proof (induction ms arbitrary: b)
  case (Cons m ms)
  show ?case
  proof (cases "m = (s, len)")
    case True
    then show ?thesis using Cons.prems marks_keep [OF mark_good mark_sets, of b a s len] by simp
  next
    case False
    then show ?thesis
      using Cons.IH [of "(\<lambda>(s, len). mark s len) m b"] Cons.prems
      by (cases m) (auto simp: mark_good mark_covers)
  qed
qed simp

end

interpretation atomic: dirty_bitmap
    "\<lambda>b. bitmap_ok b \<and> bm_byte_size b \<le> USIZE_MAX" "\<lambda>b a. a < bm_byte_size b" bitmap_mark_dirty bitmap_dirty_at
proof
  fix b :: atomic_bitmap and s len a
  assume good: "bitmap_ok b \<and> bm_byte_size b \<le> USIZE_MAX"
  note facts = set_reset_range_facts [of b s len True] dirty_set_reset_range [of b s len True]
  show "bitmap_ok (bitmap_mark_dirty s len b) \<and> bm_byte_size (bitmap_mark_dirty s len b) \<le> USIZE_MAX"
    "(a < bm_byte_size (bitmap_mark_dirty s len b)) = (a < bm_byte_size b)"
    using good facts by (simp_all add: bitmap_mark_dirty_def set_addr_range_def)
  show "bitmap_dirty_at (bitmap_mark_dirty s len b) a" if "bitmap_dirty_at b a"
    using that good facts
    by (simp add: bitmap_dirty_at_def is_addr_set_def is_bit_set_iff bitmap_mark_dirty_def set_addr_range_def)
  show "bitmap_dirty_at (bitmap_mark_dirty s len b) a" if "a < bm_byte_size b" "s \<le> a" "a < s + len"
  proof -
    have "a div bm_page_size b < bm_size b"
      using good that(1) covered_page [of "bm_page_size b" a "bm_byte_size b"] by (simp add: bitmap_ok_def)
    then show ?thesis
      using good facts touched_iff [of a s len] that
      by (simp add: bitmap_dirty_at_def is_addr_set_def is_bit_set_iff bitmap_mark_dirty_def set_addr_range_def)
  qed
qed

lemma slice_no_wrap: "base + a \<le> USIZE_MAX \<Longrightarrow> s \<le> a \<Longrightarrow> wrapping_add base s = base + s"
  by (simp add: wrapping_add_def USIZE_MAX_def)

interpretation slice: dirty_bitmap
    "\<lambda>s. bitmap_ok (bs_inner s) \<and> bm_byte_size (bs_inner s) \<le> USIZE_MAX"
    "\<lambda>s a. bs_base_offset s + a < bm_byte_size (bs_inner s)" slice_mark_dirty slice_dirty_at
proof
  fix b :: base_slice and s len a
  assume good: "bitmap_ok (bs_inner b) \<and> bm_byte_size (bs_inner b) \<le> USIZE_MAX"
  show "bitmap_ok (bs_inner (slice_mark_dirty s len b)) \<and> bm_byte_size (bs_inner (slice_mark_dirty s len b)) \<le> USIZE_MAX"
    using atomic.mark_good [OF good] by (simp add: slice_mark_dirty_def)
  show "(bs_base_offset (slice_mark_dirty s len b) + a < bm_byte_size (bs_inner (slice_mark_dirty s len b))) =
      (bs_base_offset b + a < bm_byte_size (bs_inner b))"
    using atomic.mark_covers [OF good] by (simp add: slice_mark_dirty_def)
  show "slice_dirty_at (slice_mark_dirty s len b) a" if "slice_dirty_at b a"
    using that atomic.mark_keeps [OF good] by (simp add: slice_dirty_at_def slice_mark_dirty_def)
  show "slice_dirty_at (slice_mark_dirty s len b) a"
    if "bs_base_offset b + a < bm_byte_size (bs_inner b)" "s \<le> a" "a < s + len"
  proof -
    have "bs_base_offset b + a \<le> USIZE_MAX" using that(1) good by simp
    then show ?thesis
      using that slice_no_wrap [of "bs_base_offset b" a] atomic.mark_sets [OF good, of "bs_base_offset b + a" "bs_base_offset b + s" len]
      by (simp add: slice_dirty_at_def slice_mark_dirty_def)
  qed
qed

section \<open>Properties\<close>



end
