(* ===== verification/GuestMemory.thy ===== *)
theory GuestMemory
  imports DirtyBitmap
begin

text \<open>
  Guest memory: the address arithmetic of \<^verbatim>\<open>vm-memory/src/address.rs\<close>, the volatile slices of
  \<^verbatim>\<open>volatile_memory.rs\<close>, the regions and their collections of \<^verbatim>\<open>region.rs\<close> and \<^verbatim>\<open>mmap/mod.rs\<close>, and
  the byte access of \<^verbatim>\<open>guest_memory.rs\<close>.  A region is a guest base address, the host address of its
  mapping, its bytes and its dirty bitmap; guest memory is a list of regions.  A slice is a window
  into a region, so that writes through slices change the region.  Guest addresses are 64-bit words;
  host addresses, offsets and lengths are natural numbers, checked against the bound of \<^verbatim>\<open>usize\<close> where
  the code checks them.
\<close>

section \<open>Addresses (address.rs)\<close>

definition addr_mask :: "u64 \<Rightarrow> u64 \<Rightarrow> u64" where
  "addr_mask a m = and a m"

definition checked_offset_from :: "u64 \<Rightarrow> u64 \<Rightarrow> u64 option" where
  "checked_offset_from a base = checked_sub a base"

definition overflowing_add :: "u64 \<Rightarrow> u64 \<Rightarrow> u64 \<times> bool" where
  "overflowing_add a b = (a + b, 2 ^ 64 \<le> unat a + unat b)"

text \<open>\<open>checked_align_up\<close> panics unless its argument is a power of two.\<close>

definition checked_align_up :: "u64 \<Rightarrow> u64 \<Rightarrow> (u64 option, 'e) result" where
  "checked_align_up a power_of_two =
     (if power_of_two = 0 then Panic
      else let m = power_of_two - 1 in
        if and power_of_two m \<noteq> 0 then Panic
        else Ok (map_option (\<lambda>x. and x (not m)) (checked_add a m)))"

section \<open>Errors\<close>

text \<open>The kinds of \<^verbatim>\<open>std::io::Error\<close> the code distinguishes; the others carry the number of the system error.\<close>

datatype io_kind = KInterrupted | KUnexpectedEof | KWriteZero | KOther nat

datatype volatile_error =
  OutOfBounds nat | VOverflow nat nat | TooBig nat nat | Misaligned nat nat | VIOError io_kind
| VPartialBuffer nat nat

datatype guest_memory_error =
  InvalidGuestAddress u64 | IOError io_kind | PartialBuffer nat nat | InvalidBackendAddress
| HostAddressNotAvailable | CallbackOutOfRange | GuestAddressOverflow

primrec from_volatile_error :: "volatile_error \<Rightarrow> guest_memory_error" where
  "from_volatile_error (OutOfBounds _) = InvalidBackendAddress"
| "from_volatile_error (VOverflow _ _) = InvalidBackendAddress"
| "from_volatile_error (TooBig _ _) = InvalidBackendAddress"
| "from_volatile_error (Misaligned _ _) = InvalidBackendAddress"
| "from_volatile_error (VIOError e) = IOError e"
| "from_volatile_error (VPartialBuffer expected completed) = PartialBuffer expected completed"

section \<open>Copying (volatile_memory.rs, copy_slice_impl)\<close>

definition alignment :: "u64 \<Rightarrow> u64" where
  "alignment addr = and addr (not addr + 1)"

definition overwrite_at :: "nat \<Rightarrow> 'a list \<Rightarrow> 'a list \<Rightarrow> 'a list" where
  "overwrite_at pos v xs = take pos xs @ v @ drop (pos + length v) xs"

text \<open>
  The loop of \<open>copy_aligned_slice\<close>: \<open>dst\<close> is the destination, of which \<open>pos\<close> bytes are done and
  \<open>left\<close> remain, copied in units of \<open>n\<close> bytes.
\<close>

function copy_units :: "nat \<Rightarrow> u8 list \<Rightarrow> u8 list \<times> nat \<times> nat \<Rightarrow> u8 list \<times> nat \<times> nat" where
  "copy_units n src (dst, pos, left) =
     (if n = 0 \<or> left < n then (dst, pos, left)
      else let dst = overwrite_at pos (take n (drop pos src)) dst; left = left - n in
        if left = 0 then (dst, pos, left) else copy_units n src (dst, pos + n, left))"
  by pat_completeness auto
termination by (relation "measure (\<lambda>(_, _, _, _, left). left)") auto

declare copy_units.simps [simp del]

definition copy_aligned_slice ::
    "u64 \<Rightarrow> nat \<Rightarrow> u8 list \<Rightarrow> u8 list \<times> nat \<times> nat \<Rightarrow> u8 list \<times> nat \<times> nat" where
  "copy_aligned_slice align min_align src st = (if unat align < min_align then st else copy_units min_align src st)"

definition copy_slice_volatile :: "u64 \<Rightarrow> u64 \<Rightarrow> u8 list \<Rightarrow> nat \<Rightarrow> u8 list \<Rightarrow> u8 list" where
  "copy_slice_volatile dst_addr src_addr src cnt dst =
     (let align = min (alignment src_addr) (alignment dst_addr);
          st = copy_aligned_slice align 8 src (dst, 0, cnt);
          st = copy_aligned_slice align 4 src st;
          st = copy_aligned_slice align 2 src st;
          st = copy_aligned_slice align 1 src st in fst st)"

text \<open>\<open>copy_nonoverlapping\<close> is the plain copy of \<open>cnt\<close> bytes.\<close>

definition copy_slice :: "u64 \<Rightarrow> u64 \<Rightarrow> u8 list \<Rightarrow> nat \<Rightarrow> u8 list \<Rightarrow> u8 list" where
  "copy_slice dst_addr src_addr src cnt dst =
     (if cnt \<le> 8 then copy_slice_volatile dst_addr src_addr src cnt dst
      else overwrite_at 0 (take cnt src) dst)"

section \<open>Regions (region.rs, mmap/mod.rs)\<close>

record region =
  rg_start :: u64
  rg_host :: nat
  rg_bytes :: "u8 list"
  rg_bitmap :: atomic_bitmap

type_synonym gmem = "region list"

definition region_len :: "region \<Rightarrow> u64" where
  "region_len r = of_nat (length (rg_bytes r))"

definition region_new :: "nat \<Rightarrow> u8 list \<Rightarrow> atomic_bitmap \<Rightarrow> u64 \<Rightarrow> region option" where
  "region_new host bytes bitmap guest_base =
     map_option (\<lambda>_. \<lparr>rg_start = guest_base, rg_host = host, rg_bytes = bytes, rg_bitmap = bitmap\<rparr>)
       (checked_add guest_base (of_nat (length bytes)))"

definition region_last_addr :: "region \<Rightarrow> u64" where
  "region_last_addr r = rg_start r + (region_len r - 1)"

definition region_address_in_range :: "region \<Rightarrow> u64 \<Rightarrow> bool" where
  "region_address_in_range r a \<longleftrightarrow> a < region_len r"

definition region_check_address :: "region \<Rightarrow> u64 \<Rightarrow> u64 option" where
  "region_check_address r a = (if region_address_in_range r a then Some a else None)"

definition region_checked_offset :: "region \<Rightarrow> u64 \<Rightarrow> nat \<Rightarrow> u64 option" where
  "region_checked_offset r base off = Option.bind (checked_add base (of_nat off)) (region_check_address r)"

definition region_to_region_addr :: "region \<Rightarrow> u64 \<Rightarrow> u64 option" where
  "region_to_region_addr r a = Option.bind (checked_offset_from a (rg_start r)) (region_check_address r)"

datatype collection_error = NoMemoryRegion | MemoryRegionOverlap | UnsortedMemoryRegions

fun check_windows :: "gmem \<Rightarrow> (unit, collection_error) result" where
  "check_windows (prev # nxt # rs) =
     (if rg_start nxt < rg_start prev then Err UnsortedMemoryRegions
      else if rg_start nxt \<le> region_last_addr prev then Err MemoryRegionOverlap
      else check_windows (nxt # rs))"
| "check_windows _ = Ok ()"

definition from_arc_regions :: "gmem \<Rightarrow> (gmem, collection_error) result" where
  "from_arc_regions regions =
     (if regions = [] then Err NoMemoryRegion else rbind (check_windows regions) (\<lambda>_. Ok regions))"

definition insert_region :: "gmem \<Rightarrow> region \<Rightarrow> (gmem, collection_error) result" where
  "insert_region mem r = from_arc_regions (sort_key rg_start (mem @ [r]))"

text \<open>
  \<open>binary_search_by_key\<close> on a sorted vector: the index of the key, or the index where it would be
  inserted.
\<close>

definition binary_search_by_key :: "u64 \<Rightarrow> gmem \<Rightarrow> (nat, nat) result" where
  "binary_search_by_key a mem =
     (let x = length (takeWhile (\<lambda>r. rg_start r < a) mem) in
      if x < length mem \<and> rg_start (mem ! x) = a then Ok x else Err x)"

definition remove_region :: "gmem \<Rightarrow> u64 \<Rightarrow> u64 \<Rightarrow> (gmem \<times> region, collection_error) result" where
  "remove_region mem base sz =
     (case binary_search_by_key base mem of
        Ok i \<Rightarrow> if region_len (mem ! i) = sz then Ok (take i mem @ drop (Suc i) mem, mem ! i)
                else Err NoMemoryRegion
      | Err _ \<Rightarrow> Err NoMemoryRegion
      | Panic \<Rightarrow> Panic)"

definition find_region :: "gmem \<Rightarrow> u64 \<Rightarrow> nat option" where
  "find_region mem a =
     (case binary_search_by_key a mem of
        Ok x \<Rightarrow> Some x
      | Err x \<Rightarrow> if 0 < x \<and> a \<le> region_last_addr (mem ! (x - 1)) then Some (x - 1) else None
      | Panic \<Rightarrow> None)"

text \<open>The default of the trait: the first region that holds the address.\<close>

definition find_region_default :: "gmem \<Rightarrow> u64 \<Rightarrow> region option" where
  "find_region_default mem a = find (\<lambda>r. rg_start r \<le> a \<and> a \<le> region_last_addr r) mem"

definition gm_last_addr :: "gmem \<Rightarrow> u64" where
  "gm_last_addr mem = foldl max 0 (map region_last_addr mem)"

definition gm_address_in_range :: "gmem \<Rightarrow> u64 \<Rightarrow> bool" where
  "gm_address_in_range mem a \<longleftrightarrow> find_region mem a \<noteq> None"

definition gm_check_address :: "gmem \<Rightarrow> u64 \<Rightarrow> u64 option" where
  "gm_check_address mem a = map_option (\<lambda>_. a) (find_region mem a)"

definition gm_checked_offset :: "gmem \<Rightarrow> u64 \<Rightarrow> nat \<Rightarrow> u64 option" where
  "gm_checked_offset mem base off = Option.bind (checked_add base (of_nat off)) (gm_check_address mem)"

definition gm_to_region_addr :: "gmem \<Rightarrow> u64 \<Rightarrow> ((nat \<times> u64) option, 'e) result" where
  "gm_to_region_addr mem a =
     (case find_region mem a of
        None \<Rightarrow> Ok None
      | Some i \<Rightarrow> rbind (unwrap (region_to_region_addr (mem ! i) a)) (\<lambda>off. Ok (Some (i, off))))"

section \<open>Slices (volatile_memory.rs)\<close>

record vslice =
  vs_region :: nat
  vs_start :: nat
  vs_size :: nat

definition compute_offset :: "nat \<Rightarrow> nat \<Rightarrow> (nat, volatile_error) result" where
  "compute_offset base off = (if base + off \<le> USIZE_MAX then Ok (base + off) else Err (VOverflow base off))"

definition compute_end_offset :: "nat \<Rightarrow> nat \<Rightarrow> nat \<Rightarrow> (nat, volatile_error) result" where
  "compute_end_offset len base off =
     rbind (compute_offset base off) (\<lambda>mem_end. if len < mem_end then Err (OutOfBounds mem_end) else Ok mem_end)"

definition subslice :: "nat \<Rightarrow> nat \<Rightarrow> vslice \<Rightarrow> (vslice, volatile_error) result" where
  "subslice off count s =
     rbind (compute_end_offset (vs_size s) off count) (\<lambda>_. Ok (s\<lparr>vs_start := vs_start s + off, vs_size := count\<rparr>))"

definition host_addr :: "gmem \<Rightarrow> vslice \<Rightarrow> nat" where
  "host_addr mem s = rg_host (mem ! vs_region s) + vs_start s"

definition slice_offset :: "gmem \<Rightarrow> nat \<Rightarrow> vslice \<Rightarrow> (vslice, volatile_error) result" where
  "slice_offset mem count s =
     (if USIZE_MAX < host_addr mem s + count then Err (VOverflow (host_addr mem s) count)
      else if vs_size s < count then Err (OutOfBounds (host_addr mem s + count))
      else Ok (s\<lparr>vs_start := vs_start s + count, vs_size := vs_size s - count\<rparr>))"

definition check_alignment :: "gmem \<Rightarrow> nat \<Rightarrow> vslice \<Rightarrow> (unit, volatile_error) result" where
  "check_alignment mem align s =
     (if and (of_nat (host_addr mem s)) (of_nat (align - 1)) \<noteq> (0 :: u64)
      then Err (Misaligned (host_addr mem s) align) else Ok ())"

definition slice_bytes :: "gmem \<Rightarrow> vslice \<Rightarrow> u8 list" where
  "slice_bytes mem s = take (vs_size s) (drop (vs_start s) (rg_bytes (mem ! vs_region s)))"

text \<open>
  The two copies between a slice and a buffer outside guest memory.  Both call \<open>copy_slice\<close>, which is
  shown below to be a plain copy whatever the host addresses; writing marks the bytes dirty.
\<close>

definition copy_to_volatile_slice :: "vslice \<Rightarrow> u8 list \<Rightarrow> nat \<Rightarrow> gmem \<Rightarrow> nat \<times> gmem" where
  "copy_to_volatile_slice s src cnt mem =
     (let r = mem ! vs_region s;
          r = r\<lparr>rg_bytes := overwrite_at (vs_start s) (take cnt src) (rg_bytes r),
                rg_bitmap := bs_inner (slice_mark_dirty 0 cnt (bitmap_slice_at (vs_start s) (rg_bitmap r)))\<rparr> in
      (cnt, mem[vs_region s := r]))"

definition copy_from_volatile_slice :: "u8 list \<Rightarrow> vslice \<Rightarrow> nat \<Rightarrow> gmem \<Rightarrow> nat \<times> u8 list" where
  "copy_from_volatile_slice buf s cnt mem = (cnt, overwrite_at 0 (take cnt (slice_bytes mem s)) buf)"

text \<open>\<open>ReadVolatile for &[u8]\<close> and \<open>WriteVolatile for &mut [u8]\<close> (io.rs).\<close>

definition read_volatile :: "u8 list \<Rightarrow> vslice \<Rightarrow> gmem \<Rightarrow> nat \<times> gmem" where
  "read_volatile src s = copy_to_volatile_slice s src (min (vs_size s) (length src))"

definition write_volatile :: "u8 list \<Rightarrow> vslice \<Rightarrow> gmem \<Rightarrow> nat \<times> u8 list" where
  "write_volatile buf s = copy_from_volatile_slice buf s (min (vs_size s) (length buf))"

definition vs_write :: "u8 list \<Rightarrow> nat \<Rightarrow> vslice \<Rightarrow> (gmem, nat, volatile_error) act" where
  "vs_write buf addr s mem =
     (if buf = [] then (Ok 0, mem)
      else if vs_size s \<le> addr then (Err (OutOfBounds addr), mem)
      else case slice_offset mem addr s of
          Ok s' \<Rightarrow> (let (n, mem') = read_volatile buf s' mem in (Ok n, mem'))
        | Err e \<Rightarrow> (Err e, mem)
        | Panic \<Rightarrow> (Panic, mem))"

definition vs_read :: "u8 list \<Rightarrow> nat \<Rightarrow> vslice \<Rightarrow> gmem \<Rightarrow> (nat \<times> u8 list, volatile_error) result" where
  "vs_read buf addr s mem =
     (if buf = [] then Ok (0, buf)
      else if vs_size s \<le> addr then Err (OutOfBounds addr)
      else rbind (slice_offset mem addr s) (\<lambda>s'. Ok (write_volatile buf s' mem)))"

definition get_atomic_ref :: "gmem \<Rightarrow> nat \<Rightarrow> nat \<Rightarrow> vslice \<Rightarrow> (vslice, volatile_error) result" where
  "get_atomic_ref mem n off s =
     rbind (subslice off n s) (\<lambda>s'. rbind (check_alignment mem n s') (\<lambda>_. Ok s'))"

text \<open>Atomic access to an integer of \<open>length v\<close> or \<open>n\<close> bytes, given by its bytes.\<close>

definition vs_store :: "u8 list \<Rightarrow> nat \<Rightarrow> vslice \<Rightarrow> (gmem, unit, volatile_error) act" where
  "vs_store v addr s mem =
     (case get_atomic_ref mem (length v) addr s of
        Ok s' \<Rightarrow>
          (let r = mem ! vs_region s';
               r = r\<lparr>rg_bytes := overwrite_at (vs_start s') v (rg_bytes r),
                     rg_bitmap := bs_inner (slice_mark_dirty addr (length v) (bitmap_slice_at (vs_start s) (rg_bitmap r)))\<rparr> in
           (Ok (), mem[vs_region s' := r]))
      | Err e \<Rightarrow> (Err e, mem)
      | Panic \<Rightarrow> (Panic, mem))"

definition vs_load :: "nat \<Rightarrow> nat \<Rightarrow> vslice \<Rightarrow> gmem \<Rightarrow> (u8 list, volatile_error) result" where
  "vs_load n addr s mem = rbind (get_atomic_ref mem n addr s) (\<lambda>s'. Ok (slice_bytes mem s'))"

section \<open>Access by guest address (guest_memory.rs)\<close>

definition region_get_slice :: "gmem \<Rightarrow> nat \<Rightarrow> u64 \<Rightarrow> nat \<Rightarrow> (vslice, guest_memory_error) result" where
  "region_get_slice mem i off count =
     map_err from_volatile_error
       (rbind (compute_end_offset (length (rg_bytes (mem ! i))) (unat off) count)
         (\<lambda>_. Ok \<lparr>vs_region = i, vs_start = unat off, vs_size = count\<rparr>))"

definition gm_get_slice :: "gmem \<Rightarrow> u64 \<Rightarrow> nat \<Rightarrow> (vslice, guest_memory_error) result" where
  "gm_get_slice mem a count =
     rbind (gm_to_region_addr mem a) (\<lambda>x. rbind (ok_or x (InvalidGuestAddress a)) (\<lambda>(i, off).
       region_get_slice mem i off count))"

text \<open>One step of the slice iterator: its item and its next address and count.\<close>

definition do_next :: "gmem \<Rightarrow> u64 \<Rightarrow> nat \<Rightarrow> (vslice, guest_memory_error) result option \<times> u64 \<times> nat" where
  "do_next mem a count =
     (if count = 0 then (None, a, count)
      else case gm_to_region_addr mem a of
          Ok (Some (i, start)) \<Rightarrow>
            (let cap = region_len (mem ! i) - start; len = min (unat cap) count; count = count - len;
                 (x, ovf) = overflowing_add a (of_nat len) in
             if x = 0 \<or> \<not> ovf then (Some (region_get_slice mem i start len), x, count)
             else (Some (Err GuestAddressOverflow), a, count))
        | Ok None \<Rightarrow> (Some (Err (InvalidGuestAddress a)), a, count)
        | Err e \<Rightarrow> (Some (Err e), a, count)
        | Panic \<Rightarrow> (Some Panic, a, count))"

lemma do_next_decreases:
  assumes "do_next mem a c = (Some (Ok s), a', c')"
  shows "c' < c"
proof -
  have pos: "0 < c" using assms by (cases "c = 0") (simp_all add: do_next_def)
  obtain i st where r: "gm_to_region_addr mem a = (Ok (Some (i, st)) :: (_, guest_memory_error) result)"
    and c': "c' = c - min (unat (region_len (mem ! i) - st)) c"
    using assms pos
    by (auto simp: do_next_def Let_def split: if_splits result.splits option.splits prod.splits)
  then have "region_to_region_addr (mem ! i) a = Some st"
    by (auto simp: gm_to_region_addr_def unwrap_def rbind_def split: option.splits)
  then have "st < region_len (mem ! i)"
    by (auto simp: region_to_region_addr_def region_check_address_def region_address_in_range_def
        bind_eq_Some_conv split: if_splits)
  then have "0 < unat (region_len (mem ! i) - st)"
    by (metis less_le_not_le unat_gt_0 right_minus_eq)
  then show ?thesis using c' pos by simp
qed

text \<open>All the items: the iterator stops after the first error.\<close>

function gm_get_slices :: "gmem \<Rightarrow> u64 \<Rightarrow> nat \<Rightarrow> (vslice, guest_memory_error) result list" where
  "gm_get_slices mem a count =
     (case do_next mem a count of
        (None, _) \<Rightarrow> []
      | (Some (Ok s), a', count') \<Rightarrow> Ok s # gm_get_slices mem a' count'
      | (Some e, _) \<Rightarrow> [e])"
  by auto
termination
  by (relation "measure (\<lambda>(_, _, c). c)") (auto dest: do_next_decreases sym)

declare gm_get_slices.simps [simp del]

fun not_err :: "('a, 'e) result \<Rightarrow> bool" where
  "not_err (Err _) = False"
| "not_err _ = True"

definition stop_on_error :: "('a, 'e) result list \<Rightarrow> (('a, 'e) result list, 'e) result" where
  "stop_on_error items = (case items of Err e # _ \<Rightarrow> Err e | _ \<Rightarrow> Ok (filter not_err items))"

fun write_fold :: "u8 list \<Rightarrow> nat \<Rightarrow> (vslice, guest_memory_error) result list
    \<Rightarrow> (gmem, nat, guest_memory_error) act" where
  "write_fold buf acc [] mem = (Ok acc, mem)"
| "write_fold buf acc (Ok s # items) mem =
     (case vs_write (drop acc buf) 0 s mem of
        (Ok n, mem') \<Rightarrow> write_fold buf (acc + n) items mem'
      | (Err e, mem') \<Rightarrow> (Err (from_volatile_error e), mem')
      | (Panic, mem') \<Rightarrow> (Panic, mem'))"
| "write_fold buf acc (Err e # items) mem = (Err e, mem)"
| "write_fold buf acc (Panic # items) mem = (Panic, mem)"

definition gm_write :: "u8 list \<Rightarrow> u64 \<Rightarrow> (gmem, nat, guest_memory_error) act" where
  "gm_write buf a mem =
     (case gm_get_slice mem a (length buf) of
        Ok s \<Rightarrow> (let (r, mem') = vs_write buf 0 s mem in (map_err from_volatile_error r, mem'))
      | Panic \<Rightarrow> (Panic, mem)
      | Err _ \<Rightarrow>
          (case stop_on_error (gm_get_slices mem a (length buf)) of
             Ok items \<Rightarrow> write_fold buf 0 items mem
           | Err e \<Rightarrow> (Err e, mem)
           | Panic \<Rightarrow> (Panic, mem)))"

fun read_fold :: "u8 list \<Rightarrow> nat \<Rightarrow> (vslice, guest_memory_error) result list \<Rightarrow> gmem
    \<Rightarrow> (nat \<times> u8 list, guest_memory_error) result" where
  "read_fold buf acc [] mem = Ok (acc, buf)"
| "read_fold buf acc (Ok s # items) mem =
     (case vs_read (drop acc buf) 0 s mem of
        Ok (n, rest) \<Rightarrow> read_fold (take acc buf @ rest) (acc + n) items mem
      | Err e \<Rightarrow> Err (from_volatile_error e)
      | Panic \<Rightarrow> Panic)"
| "read_fold buf acc (Err e # items) mem = Err e"
| "read_fold buf acc (Panic # items) mem = Panic"

definition gm_read :: "u8 list \<Rightarrow> u64 \<Rightarrow> gmem \<Rightarrow> (nat \<times> u8 list, guest_memory_error) result" where
  "gm_read buf a mem =
     (case gm_get_slice mem a (length buf) of
        Ok s \<Rightarrow> map_err from_volatile_error (vs_read buf 0 s mem)
      | Panic \<Rightarrow> Panic
      | Err _ \<Rightarrow> rbind (stop_on_error (gm_get_slices mem a (length buf))) (\<lambda>items. read_fold buf 0 items mem))"

definition gm_write_slice :: "u8 list \<Rightarrow> u64 \<Rightarrow> (gmem, unit, guest_memory_error) act" where
  "gm_write_slice buf a =
     abind (gm_write buf a) (\<lambda>res.
       alift (if res \<noteq> length buf then Err (PartialBuffer (length buf) res) else Ok ()))"

definition gm_read_slice :: "u8 list \<Rightarrow> u64 \<Rightarrow> gmem \<Rightarrow> (u8 list, guest_memory_error) result" where
  "gm_read_slice buf a mem =
     rbind (gm_read buf a mem) (\<lambda>(res, buf').
       if res \<noteq> length buf then Err (PartialBuffer (length buf) res) else Ok buf')"

definition gm_write_obj :: "u8 list \<Rightarrow> u64 \<Rightarrow> (gmem, unit, guest_memory_error) act" where
  "gm_write_obj = gm_write_slice"

definition gm_read_obj :: "nat \<Rightarrow> u64 \<Rightarrow> gmem \<Rightarrow> (u8 list, guest_memory_error) result" where
  "gm_read_obj n = gm_read_slice (replicate n 0)"

definition first_slice :: "gmem \<Rightarrow> u64 \<Rightarrow> nat \<Rightarrow> (vslice, guest_memory_error) result" where
  "first_slice mem a n = (case gm_get_slices mem a n of [] \<Rightarrow> Panic | x # _ \<Rightarrow> x)"

definition gm_store :: "u8 list \<Rightarrow> u64 \<Rightarrow> (gmem, unit, guest_memory_error) act" where
  "gm_store v a mem =
     (case first_slice mem a (length v) of
        Ok s \<Rightarrow> (let (r, mem') = vs_store v 0 s mem in (map_err from_volatile_error r, mem'))
      | Err e \<Rightarrow> (Err e, mem)
      | Panic \<Rightarrow> (Panic, mem))"

definition gm_load :: "nat \<Rightarrow> u64 \<Rightarrow> gmem \<Rightarrow> (u8 list, guest_memory_error) result" where
  "gm_load n a mem = rbind (first_slice mem a n) (\<lambda>s. map_err from_volatile_error (vs_load n 0 s mem))"

definition gm_check_range :: "gmem \<Rightarrow> u64 \<Rightarrow> nat \<Rightarrow> bool" where
  "gm_check_range mem base len \<longleftrightarrow>
     len = 0 \<or> is_ok (gm_get_slice mem base len) \<or> list_all is_ok (gm_get_slices mem base len)"

end
