(* ===== verification/GuestAccess.thy ===== *)
theory GuestAccess
  imports GuestMemory
begin

text \<open>
  Facts about guest memory.  Well-formed memory is a sorted list of disjoint regions; it is read as a
  partial function from addresses to bytes (\<open>byte_at\<close>), and every access is described by its effect on
  that function and on the dirty pages.  The locale \<open>byte_memory\<close> is the contract the rest of the
  library relies on.
\<close>

section \<open>Copying in units is copying\<close>

definition copying :: "nat \<Rightarrow> u8 list \<Rightarrow> u8 list \<Rightarrow> u8 list \<times> nat \<times> nat \<Rightarrow> bool" where
  "copying cnt src dst0 st \<longleftrightarrow> (case st of (dst, pos, left) \<Rightarrow>
     left \<le> cnt \<and> dst = take (cnt - left) src @ drop (cnt - left) dst0 \<and> (left = 0 \<or> pos = cnt - left))"

lemma overwrite_next:
  assumes "d + n \<le> length src" "d + n \<le> length dst0"
  shows "overwrite_at d (take n (drop d src)) (take d src @ drop d dst0) = take (d + n) src @ drop (d + n) dst0"
  using assms by (simp add: overwrite_at_def take_add add.commute)

lemma copy_units_copying:
  assumes "copying cnt src dst0 st" "cnt \<le> length src" "cnt \<le> length dst0" "0 < n"
  shows "copying cnt src dst0 (copy_units n src st) \<and> snd (snd (copy_units n src st)) < n"
  using assms
proof (induction n src st rule: copy_units.induct)
  case (1 n src dst pos left)
  show ?case
  proof (cases "left < n")
    case True
    then show ?thesis using "1.prems" by (subst (1 2) copy_units.simps) simp
  next
    case False
    then have pos: "pos = cnt - left" "left \<le> cnt" and dst: "dst = take pos src @ drop pos dst0"
      using "1.prems"(1,4) by (auto simp: copying_def)
    have next': "overwrite_at pos (take n (drop pos src)) dst = take (pos + n) src @ drop (pos + n) dst0"
      using False pos "1.prems"(2,3) unfolding dst by (intro overwrite_next) auto
    have done': "cnt - (left - n) = pos + n" using False pos by simp
    show ?thesis
    proof (cases "left = n")
      case True
      then show ?thesis
        using "1.prems"(4) next' done' by (subst (1 2) copy_units.simps) (simp add: copying_def Let_def)
    next
      case nz: False
      have "copying cnt src dst0 (overwrite_at pos (take n (drop pos src)) dst, pos + n, left - n)"
        using next' done' pos by (simp add: copying_def)
      then show ?thesis
        using "1.IH" [OF _ refl refl] "1.prems"(2-4) False nz
        by (subst (1 2) copy_units.simps) (simp add: Let_def)
    qed
  qed
qed

lemma copy_aligned_copying:
  assumes "copying cnt src dst0 st" "cnt \<le> length src" "cnt \<le> length dst0" "0 < n"
  shows "copying cnt src dst0 (copy_aligned_slice align n src st)"
  using copy_units_copying [OF assms] assms(1) by (simp add: copy_aligned_slice_def)

lemma alignment_pos:
  assumes "a \<noteq> 0"
  shows "0 < alignment a"
proof (rule ccontr)
  assume "\<not> 0 < alignment a"
  then have z: "and a (- a) = 0" by (simp add: alignment_def word_gt_0 minus_eq_not_plus_1)
  have "a = and a (not (- a))"
    by (rule bit_eqI) (metis z bit_and_iff bit_not_iff zero_and_eq bit_0_eq bot_apply)
  then have "a = and a (a - 1)" by (simp add: not_eq_complement)
  then have "a \<le> a - 1" by (metis word_and_le1)
  moreover have "1 \<le> a" using assms by (metis word_gt_0 inc_le add_0)
  ultimately show False
    using assms unat_sub_le [of 1 a] by (simp add: word_le_nat_alt unat_eq_0)
qed

lemma copy_slice_volatile_eq:
  assumes "dst_addr \<noteq> 0" "src_addr \<noteq> 0" "cnt \<le> length src" "cnt \<le> length dst"
  shows "copy_slice_volatile dst_addr src_addr src cnt dst = overwrite_at 0 (take cnt src) dst"
proof -
  let ?al = "min (alignment src_addr) (alignment dst_addr)"
  let ?s8 = "copy_aligned_slice ?al 8 src (dst, 0, cnt)"
  let ?s4 = "copy_aligned_slice ?al 4 src ?s8" let ?s2 = "copy_aligned_slice ?al 2 src ?s4"
  let ?s1 = "copy_aligned_slice ?al 1 src ?s2"
  have "?al \<noteq> 0" using alignment_pos assms(1,2) by (metis min_def word_gt_0)
  then have al: "\<not> unat ?al < 1" by (metis less_one unat_eq_0)
  have "copying cnt src dst (dst, 0, cnt)" by (simp add: copying_def)
  then have "copying cnt src dst ?s2" using assms(3,4) by (intro copy_aligned_copying) auto
  then have "copying cnt src dst ?s1 \<and> snd (snd ?s1) < 1"
    using copy_units_copying [of cnt src dst ?s2 1] assms(3,4) al by (simp add: copy_aligned_slice_def)
  then have "fst ?s1 = take cnt src @ drop cnt dst"
    by (auto simp: copying_def split: prod.splits)
  then show ?thesis using assms(3) by (simp add: copy_slice_volatile_def Let_def overwrite_at_def)
qed

section \<open>Well-formed memory\<close>

definition region_end :: "region \<Rightarrow> nat" where
  "region_end r = unat (rg_start r) + length (rg_bytes r)"

definition region_addrs :: "region \<Rightarrow> nat set" where
  "region_addrs r = {unat (rg_start r)..<region_end r}"

definition region_ok :: "region \<Rightarrow> bool" where
  "region_ok r \<longleftrightarrow> rg_bytes r \<noteq> [] \<and> region_end r < 2 ^ 64 \<and> rg_host r + length (rg_bytes r) \<le> USIZE_MAX \<and>
     bitmap_ok (rg_bitmap r) \<and> bm_byte_size (rg_bitmap r) = length (rg_bytes r)"

definition before :: "region \<Rightarrow> region \<Rightarrow> bool" where
  "before r s \<longleftrightarrow> region_end r \<le> unat (rg_start s)"

definition mem_ok :: "gmem \<Rightarrow> bool" where
  "mem_ok mem \<longleftrightarrow> list_all region_ok mem \<and> sorted_wrt before mem"

lemma mem_okD: "mem_ok mem \<Longrightarrow> i < length mem \<Longrightarrow> region_ok (mem ! i)"
  by (simp add: mem_ok_def list_all_length)

lemma mem_ok_before: "mem_ok mem \<Longrightarrow> i < j \<Longrightarrow> j < length mem \<Longrightarrow> region_end (mem ! i) \<le> unat (rg_start (mem ! j))"
  using sorted_wrt_nth_less [of before mem i j] by (simp add: mem_ok_def before_def)

lemma region_sizes:
  assumes "region_ok r"
  shows "unat (region_len r) = length (rg_bytes r)" and "unat (region_last_addr r) = region_end r - 1"
    and "unat (rg_start r) < region_end r" and "unat (of_nat (length (rg_bytes r)) :: u64) = length (rg_bytes r)"
proof -
  have len: "0 < length (rg_bytes r)" "length (rg_bytes r) < 2 ^ 64" and e: "region_end r < 2 ^ 64"
    using assms by (auto simp: region_ok_def region_end_def)
  show n: "unat (of_nat (length (rg_bytes r)) :: u64) = length (rg_bytes r)"
    using len by (simp add: unat_of_nat)
  then show u: "unat (region_len r) = length (rg_bytes r)" by (simp add: region_len_def)
  have "1 \<le> region_len r" using u len by (simp add: word_le_nat_alt Suc_le_eq)
  then have "unat (region_len r - 1) = length (rg_bytes r) - 1" using u unat_sub_le [of 1 "region_len r"] by simp
  then have sum: "unat (rg_start r) + unat (region_len r - 1) = region_end r - 1"
    using len(1) unfolding region_end_def by linarith
  then have "unat (rg_start r) + unat (region_len r - 1) < 2 ^ LENGTH(64)" using e by simp
  from unat_add_no_overflow [OF this] sum show "unat (region_last_addr r) = region_end r - 1"
    by (simp add: region_last_addr_def)
  show "unat (rg_start r) < region_end r" using len by (simp add: region_end_def)
qed

lemma region_contains_iff:
  assumes "region_ok r"
  shows "rg_start r \<le> a \<and> a \<le> region_last_addr r \<longleftrightarrow> unat a \<in> region_addrs r"
  using region_sizes [OF assms] by (auto simp: region_addrs_def word_le_nat_alt)

lemma region_unique:
  assumes "mem_ok mem" "i < length mem" "j < length mem" "x \<in> region_addrs (mem ! i)" "x \<in> region_addrs (mem ! j)"
  shows "i = j"
  using assms mem_ok_before [OF assms(1), of i j] mem_ok_before [OF assms(1), of j i]
  by (cases i j rule: linorder_cases) (auto simp: region_addrs_def)

lemma check_windows_iff:
  assumes "list_all region_ok mem"
  shows "check_windows mem = Ok () \<longleftrightarrow> sorted_wrt before mem"
  using assms
proof (induction mem rule: check_windows.induct)
  case (1 r s rs)
  have ok: "region_ok r" "region_ok s" using "1.prems" by auto
  have adj: "(\<not> rg_start s < rg_start r \<and> \<not> rg_start s \<le> region_last_addr r) \<longleftrightarrow> before r s"
    using region_sizes [OF ok(1)] by (auto simp: before_def word_less_nat_alt word_le_nat_alt)
  have trans: "before r t" if "before r s" "before s t" for t
    using that region_sizes(3) [OF ok(2)] by (simp add: before_def)
  show ?case
    using "1.IH" "1.prems" adj trans by (auto split: if_splits)
qed auto

lemma from_arc_regions_iff:
  assumes "list_all region_ok mem"
  shows "from_arc_regions mem = Ok mem' \<longleftrightarrow> mem \<noteq> [] \<and> mem_ok mem \<and> mem' = mem"
  using assms check_windows_iff [OF assms]
  by (cases "check_windows mem") (auto simp: from_arc_regions_def mem_ok_def)

section \<open>Finding a region\<close>

lemma find_region_sound:
  assumes "mem_ok mem" "find_region mem a = Some i"
  shows "i < length mem \<and> unat a \<in> region_addrs (mem ! i)"
proof -
  obtain x where x: "x = length (takeWhile (\<lambda>r. rg_start r < a) mem)" by simp
  have le: "x \<le> length mem" unfolding x by (rule length_takeWhile_le)
  have search: "binary_search_by_key a mem = (if x < length mem \<and> rg_start (mem ! x) = a then Ok x else Err x)"
    by (simp add: binary_search_by_key_def x Let_def)
  show ?thesis
  proof (cases "x < length mem \<and> rg_start (mem ! x) = a")
    case True
    then have "i = x" using assms(2) by (simp add: find_region_def search)
    then show ?thesis
      using True region_sizes(3) [OF mem_okD [OF assms(1)], of x] by (simp add: region_addrs_def)
  next
    case False
    then have "binary_search_by_key a mem = Err x" using search by simp
    then have i: "0 < x" "a \<le> region_last_addr (mem ! i)" "i = x - 1"
      using assms(2) by (simp_all add: find_region_def split: if_split_asm)
    then have j: "i < length (takeWhile (\<lambda>r. rg_start r < a) mem)" using x by simp
    from set_takeWhileD [OF nth_mem [OF this]] have "rg_start (mem ! i) < a"
      by (simp add: takeWhile_nth [OF j])
    moreover have len: "i < length mem" using i(1,3) le by linarith
    ultimately show ?thesis
      using i(2) region_contains_iff [OF mem_okD [OF assms(1) len], of a] by (simp add: less_imp_le)
  qed
qed

lemma find_region_complete:
  assumes "mem_ok mem" "i < length mem" "unat a \<in> region_addrs (mem ! i)"
  shows "find_region mem a = Some i"
proof -
  let ?P = "\<lambda>r. rg_start r < a"
  have ok: "region_ok (mem ! i)" by (rule mem_okD [OF assms(1,2)])
  have lo: "?P (mem ! j)" if "j < i" for j
    using mem_ok_before [OF assms(1) that assms(2)] region_sizes(3) [OF mem_okD [OF assms(1)], of j] assms(2,3) that
    by (simp add: region_addrs_def word_less_nat_alt)
  show ?thesis
  proof (cases "rg_start (mem ! i) = a")
    case True
    then have "takeWhile ?P mem = take i mem"
      using lo by (intro takeWhile_eq_take_P_nth) auto
    then show ?thesis using assms(2) True by (simp add: find_region_def binary_search_by_key_def Let_def)
  next
    case False
    then have less: "?P (mem ! i)" using assms(3) by (auto simp: region_addrs_def word_less_nat_alt word_unat_eq_iff le_less)
    have hi: "a < rg_start (mem ! Suc i)" if "Suc i < length mem"
      using mem_ok_before [OF assms(1) _ that, of i] assms(3) by (simp add: region_addrs_def word_less_nat_alt)
    have "takeWhile ?P mem = take (Suc i) mem"
      using lo less hi by (intro takeWhile_eq_take_P_nth) (auto simp: less_Suc_eq)
    then have "length (takeWhile ?P mem) = Suc i" using assms(2) by simp
    moreover have "a \<le> region_last_addr (mem ! i)"
      using region_contains_iff [OF ok, of a] assms(3) by simp
    ultimately show ?thesis
      using hi by (auto simp: find_region_def binary_search_by_key_def Let_def)
  qed
qed

lemma find_region_iff:
  "mem_ok mem \<Longrightarrow> find_region mem a = Some i \<longleftrightarrow> i < length mem \<and> unat a \<in> region_addrs (mem ! i)"
  using find_region_sound find_region_complete by blast

lemma find_region_None_iff:
  "mem_ok mem \<Longrightarrow> find_region mem a = None \<longleftrightarrow> (\<forall>i < length mem. unat a \<notin> region_addrs (mem ! i))"
  using find_region_iff [of mem a] by (metis not_None_eq option.distinct(1))

lemma find_region_default_eq:
  assumes "mem_ok mem"
  shows "map_option ((!) mem) (find_region mem a) = find_region_default mem a"
proof (cases "find_region mem a")
  case None
  then have "\<forall>r \<in> set mem. \<not> (rg_start r \<le> a \<and> a \<le> region_last_addr r)"
    using assms region_contains_iff mem_okD [OF assms] find_region_None_iff [OF assms] by (metis in_set_conv_nth)
  then show ?thesis using None by (auto simp: find_region_default_def find_None_iff2)
next
  case (Some i)
  then have i: "i < length mem" "unat a \<in> region_addrs (mem ! i)" using find_region_sound [OF assms] by blast+
  let ?P = "\<lambda>r. rg_start r \<le> a \<and> a \<le> region_last_addr r"
  have here: "?P (mem ! i)" using region_contains_iff [OF mem_okD [OF assms i(1)]] i(2) by blast
  have others: "\<not> ?P (mem ! j)" if "j < i" for j
  proof -
    have j: "j < length mem" using that i(1) by simp
    have "unat a \<notin> region_addrs (mem ! j)"
      using region_unique [OF assms j i(1) _ i(2)] that by blast
    then show ?thesis using region_contains_iff [OF mem_okD [OF assms j]] by blast
  qed
  have "find ?P mem = Some (mem ! i)"
    unfolding find_Some_iff using i(1) here others by blast
  then show ?thesis unfolding Some find_region_default_def by simp
qed

lemma gm_to_region_addr_eq:
  assumes "mem_ok mem"
  shows "gm_to_region_addr mem a =
    Ok (map_option (\<lambda>i. (i, a - rg_start (mem ! i))) (find_region mem a))"
proof (cases "find_region mem a")
  case (Some i)
  then have i: "i < length mem" "unat a \<in> region_addrs (mem ! i)" using find_region_sound [OF assms] by blast+
  have ok: "region_ok (mem ! i)" by (rule mem_okD [OF assms i(1)])
  have le: "rg_start (mem ! i) \<le> a" using i(2) by (simp add: region_addrs_def word_le_nat_alt)
  moreover have "a - rg_start (mem ! i) < region_len (mem ! i)"
    using i(2) region_sizes(1) [OF ok] unat_sub_le [OF le] by (auto simp: word_less_nat_alt region_addrs_def region_end_def)
  ultimately show ?thesis
    using Some by (simp add: gm_to_region_addr_def region_to_region_addr_def checked_offset_from_def
        checked_sub_Some_iff [THEN iffD2] checked_sub_def region_check_address_def region_address_in_range_def)
qed (simp add: gm_to_region_addr_def)

section \<open>Memory as a partial function from addresses to bytes\<close>

definition region_at :: "gmem \<Rightarrow> nat \<Rightarrow> region option" where
  "region_at mem x = find (\<lambda>r. x \<in> region_addrs r) mem"

definition byte_at :: "gmem \<Rightarrow> nat \<Rightarrow> u8 option" where
  "byte_at mem x = map_option (\<lambda>r. rg_bytes r ! (x - unat (rg_start r))) (region_at mem x)"

definition addr_dirty :: "gmem \<Rightarrow> nat \<Rightarrow> bool" where
  "addr_dirty mem x =
     (case region_at mem x of None \<Rightarrow> False | Some r \<Rightarrow> bitmap_dirty_at (rg_bitmap r) (x - unat (rg_start r)))"

definition shape :: "gmem \<Rightarrow> (u64 \<times> nat \<times> nat) list" where
  "shape mem = map (\<lambda>r. (rg_start r, rg_host r, length (rg_bytes r))) mem"

text \<open>How many of the \<open>c\<close> bytes from \<open>x\<close> on are mapped, up to the first hole.\<close>

fun mapped_prefix :: "gmem \<Rightarrow> nat \<Rightarrow> nat \<Rightarrow> nat" where
  "mapped_prefix mem x 0 = 0"
| "mapped_prefix mem x (Suc c) = (if byte_at mem x = None then 0 else Suc (mapped_prefix mem (Suc x) c))"

lemma region_at_eq:
  assumes "mem_ok mem" "i < length mem" "x \<in> region_addrs (mem ! i)"
  shows "region_at mem x = Some (mem ! i)"
proof -
  have "x \<notin> region_addrs (mem ! j)" if "j < i" for j
    using region_unique [OF assms(1) _ assms(2) _ assms(3), of j] that assms(2) by auto
  then show ?thesis unfolding region_at_def find_Some_iff using assms(2,3) by blast
qed

lemma region_at_None_iff: "region_at mem x = None \<longleftrightarrow> (\<forall>i < length mem. x \<notin> region_addrs (mem ! i))"
  by (auto simp: region_at_def find_None_iff in_set_conv_nth)

lemma byte_at_eq:
  "mem_ok mem \<Longrightarrow> i < length mem \<Longrightarrow> x \<in> region_addrs (mem ! i) \<Longrightarrow>
     byte_at mem x = Some (rg_bytes (mem ! i) ! (x - unat (rg_start (mem ! i))))"
  by (simp add: byte_at_def region_at_eq)

lemma byte_at_None_iff: "byte_at mem x = None \<longleftrightarrow> (\<forall>i < length mem. x \<notin> region_addrs (mem ! i))"
  by (simp add: byte_at_def region_at_None_iff)

lemma find_region_byte_at: "mem_ok mem \<Longrightarrow> find_region mem a = None \<longleftrightarrow> byte_at mem (unat a) = None"
  by (simp add: find_region_None_iff byte_at_None_iff)

lemma mapped_prefix_le: "mapped_prefix mem x c \<le> c"
  by (induction mem x c rule: mapped_prefix.induct) auto

lemma mapped_prefix_add:
  "(\<And>k. k < n \<Longrightarrow> byte_at mem (x + k) \<noteq> None) \<Longrightarrow> n \<le> c \<Longrightarrow>
     mapped_prefix mem x c = n + mapped_prefix mem (x + n) (c - n)"
proof (induction n arbitrary: x c)
  case (Suc n)
  obtain c' where c: "c = Suc c'" using Suc.prems(2) by (cases c) auto
  have "byte_at mem x \<noteq> None" using Suc.prems(1) [of 0] by simp
  moreover have "mapped_prefix mem (Suc x) c' = n + mapped_prefix mem (Suc x + n) (c' - n)"
    using Suc.prems(1) [of "Suc _"] Suc.prems(2) c by (intro Suc.IH) auto
  ultimately show ?case by (simp add: c)
qed simp

lemma mapped_prefix_full_iff: "mapped_prefix mem x c = c \<longleftrightarrow> (\<forall>k < c. byte_at mem (x + k) \<noteq> None)"
proof (induction mem x c rule: mapped_prefix.induct)
  case (2 mem x c)
  show ?case
  proof (cases "byte_at mem x = None")
    case False
    then have "mapped_prefix mem x (Suc c) = Suc c \<longleftrightarrow> (\<forall>k < c. byte_at mem (Suc x + k) \<noteq> None)"
      using 2 [OF False] False by (simp del: not_None_eq)
    also have "\<dots> \<longleftrightarrow> (\<forall>k < Suc c. byte_at mem (x + k) \<noteq> None)"
      using False by (auto simp: less_Suc_eq_0_disj)
    finally show ?thesis .
  qed auto
qed simp

section \<open>Slices and the slice iterator\<close>

definition slice_in :: "gmem \<Rightarrow> vslice \<Rightarrow> bool" where
  "slice_in mem s \<longleftrightarrow> vs_region s < length mem \<and> vs_start s + vs_size s \<le> length (rg_bytes (mem ! vs_region s))"

definition slice_addr :: "gmem \<Rightarrow> vslice \<Rightarrow> nat" where
  "slice_addr mem s = unat (rg_start (mem ! vs_region s)) + vs_start s"

lemma length_usize: "region_ok r \<Longrightarrow> n \<le> length (rg_bytes r) \<Longrightarrow> n \<le> USIZE_MAX"
  by (simp add: region_ok_def)

lemma region_get_slice_eq:
  assumes "mem_ok mem" "i < length mem"
  shows "region_get_slice mem i off count =
    (if unat off + count \<le> length (rg_bytes (mem ! i)) then Ok \<lparr>vs_region = i, vs_start = unat off, vs_size = count\<rparr>
     else Err InvalidBackendAddress)"
proof -
  have "unat off + count \<le> USIZE_MAX" if "unat off + count \<le> length (rg_bytes (mem ! i))"
    using that length_usize [OF mem_okD [OF assms]] by blast
  then show ?thesis by (simp add: region_get_slice_def compute_end_offset_def compute_offset_def)
qed

text \<open>The slice of at most \<open>c\<close> bytes from \<open>a\<close> on in region \<open>i\<close>.\<close>

definition head_len :: "gmem \<Rightarrow> nat \<Rightarrow> u64 \<Rightarrow> nat \<Rightarrow> nat" where
  "head_len mem i a c = min (region_end (mem ! i) - unat a) c"

definition head_slice :: "gmem \<Rightarrow> nat \<Rightarrow> u64 \<Rightarrow> nat \<Rightarrow> vslice" where
  "head_slice mem i a c =
     \<lparr>vs_region = i, vs_start = unat a - unat (rg_start (mem ! i)), vs_size = head_len mem i a c\<rparr>"

lemma head_facts:
  assumes "mem_ok mem" "find_region mem a = Some i"
  shows "i < length mem" "slice_in mem (head_slice mem i a c)" "slice_addr mem (head_slice mem i a c) = unat a"
    "0 < c \<Longrightarrow> 0 < head_len mem i a c" "head_len mem i a c \<le> c"
    "unat (a + of_nat (head_len mem i a c)) = unat a + head_len mem i a c"
    "\<And>k. k < head_len mem i a c \<Longrightarrow> byte_at mem (unat a + k) \<noteq> None"
    "unat (a - rg_start (mem ! i)) = unat a - unat (rg_start (mem ! i))"
    "unat (region_len (mem ! i) - (a - rg_start (mem ! i))) = region_end (mem ! i) - unat a"
proof -
  have i: "i < length mem" "unat a \<in> region_addrs (mem ! i)" using find_region_sound [OF assms] by blast+
  then have ok: "region_ok (mem ! i)" and le: "unat (rg_start (mem ! i)) \<le> unat a"
    and lt: "unat a < region_end (mem ! i)" and e: "region_end (mem ! i) < 2 ^ 64"
    using mem_okD [OF assms(1)] by (auto simp: region_addrs_def region_ok_def)
  show "i < length mem" by (rule i)
  show "slice_in mem (head_slice mem i a c)" "slice_addr mem (head_slice mem i a c) = unat a"
    using i(1) le lt by (auto simp: slice_in_def slice_addr_def head_slice_def head_len_def region_end_def)
  show "0 < c \<Longrightarrow> 0 < head_len mem i a c" "head_len mem i a c \<le> c" using lt by (simp_all add: head_len_def)
  have n: "head_len mem i a c \<le> region_end (mem ! i) - unat a" by (simp add: head_len_def)
  then have small: "unat a + head_len mem i a c < 2 ^ 64" using lt e by linarith
  then have "unat (of_nat (head_len mem i a c) :: u64) = head_len mem i a c" by (simp add: unat_of_nat)
  then show "unat (a + of_nat (head_len mem i a c)) = unat a + head_len mem i a c"
    using small by (subst unat_add_no_overflow) simp_all
  show "byte_at mem (unat a + k) \<noteq> None" if "k < head_len mem i a c" for k
    using byte_at_eq [OF assms(1) i(1), of "unat a + k"] that n le by (simp add: region_addrs_def)
  have le': "rg_start (mem ! i) \<le> a" using le by (simp add: word_le_nat_alt)
  show off: "unat (a - rg_start (mem ! i)) = unat a - unat (rg_start (mem ! i))" by (rule unat_sub_le [OF le'])
  have "a - rg_start (mem ! i) \<le> region_len (mem ! i)"
    using off lt le region_sizes(1) [OF ok] by (simp add: word_le_nat_alt region_end_def)
  from unat_sub_le [OF this]
  show "unat (region_len (mem ! i) - (a - rg_start (mem ! i))) = region_end (mem ! i) - unat a"
    unfolding off region_sizes(1) [OF ok] region_end_def using le by linarith
qed

lemma do_next_hole: "mem_ok mem \<Longrightarrow> 0 < c \<Longrightarrow> find_region mem a = None \<Longrightarrow>
    do_next mem a c = (Some (Err (InvalidGuestAddress a)), a, c)"
  by (simp add: do_next_def gm_to_region_addr_eq)

lemma do_next_mapped:
  assumes "mem_ok mem" "0 < c" "find_region mem a = Some i"
  shows "do_next mem a c =
    (Some (Ok (head_slice mem i a c)), a + of_nat (head_len mem i a c), c - head_len mem i a c)"
proof -
  note h = head_facts [OF assms(1,3)]
  have n: "min (unat (region_len (mem ! i) - (a - rg_start (mem ! i)))) c = head_len mem i a c"
    by (simp add: head_len_def h(9))
  have "unat (of_nat (head_len mem i a c) :: u64) \<le> head_len mem i a c" by (simp add: unat_of_nat)
  then have "\<not> 2 ^ 64 \<le> unat a + unat (of_nat (head_len mem i a c) :: u64)"
    using h(6) unsigned_less [of "a + of_nat (head_len mem i a c)", where 'a = nat] by simp
  then have ovf: "overflowing_add a (of_nat (head_len mem i a c)) = (a + of_nat (head_len mem i a c), False)"
    by (simp add: overflowing_add_def)
  have "region_get_slice mem i (a - rg_start (mem ! i)) (head_len mem i a c) = Ok (head_slice mem i a c)"
    using h(2,8) by (simp add: region_get_slice_eq [OF assms(1) h(1)] head_slice_def slice_in_def)
  then show ?thesis
    using assms by (simp add: do_next_def gm_to_region_addr_eq Let_def n ovf)
qed

lemma get_slices_eqs:
  assumes "mem_ok mem"
  shows "gm_get_slices mem a 0 = []"
    and "0 < c \<Longrightarrow> find_region mem a = None \<Longrightarrow> gm_get_slices mem a c = [Err (InvalidGuestAddress a)]"
    and "0 < c \<Longrightarrow> find_region mem a = Some i \<Longrightarrow> gm_get_slices mem a c =
      Ok (head_slice mem i a c) # gm_get_slices mem (a + of_nat (head_len mem i a c)) (c - head_len mem i a c)"
  by (subst gm_get_slices.simps, simp add: do_next_def)
    (subst gm_get_slices.simps, simp add: do_next_hole do_next_mapped assms)+

lemma prefix_head:
  assumes "mem_ok mem" "find_region mem a = Some i"
  shows "mapped_prefix mem (unat a) c = head_len mem i a c +
    mapped_prefix mem (unat (a + of_nat (head_len mem i a c))) (c - head_len mem i a c)"
  using mapped_prefix_add [of "head_len mem i a c" mem "unat a" c] head_facts [OF assms] by simp

lemma prefix_hole: "mem_ok mem \<Longrightarrow> find_region mem a = None \<Longrightarrow> mapped_prefix mem (unat a) c = 0"
  by (cases c) (simp_all add: find_region_byte_at)

section \<open>Writing\<close>

text \<open>The effect of writing \<open>v\<close> at offset \<open>off\<close> of region \<open>i\<close>, and what it means for addresses.\<close>

definition write_at :: "nat \<Rightarrow> nat \<Rightarrow> u8 list \<Rightarrow> gmem \<Rightarrow> gmem" where
  "write_at i off v mem =
     mem[i := (mem ! i)\<lparr>rg_bytes := overwrite_at off v (rg_bytes (mem ! i)),
               rg_bitmap := bitmap_mark_dirty off (length v) (rg_bitmap (mem ! i))\<rparr>]"

definition updated :: "gmem \<Rightarrow> gmem \<Rightarrow> nat \<Rightarrow> u8 list \<Rightarrow> bool" where
  "updated mem mem' x v \<longleftrightarrow> mem_ok mem' \<and> shape mem' = shape mem \<and>
     (\<forall>y. byte_at mem' y = (if x \<le> y \<and> y < x + length v then Some (v ! (y - x)) else byte_at mem y)) \<and>
     (\<forall>y. x \<le> y \<and> y < x + length v \<or> addr_dirty mem y \<longrightarrow> addr_dirty mem' y)"

lemma updated_refl: "mem_ok mem \<Longrightarrow> updated mem mem x []"
  by (auto simp: updated_def)

lemma updated_trans:
  assumes "updated mem m1 x v" "updated m1 m2 (x + length v) w"
  shows "updated mem m2 x (v @ w)"
proof -
  have b1: "byte_at m1 y = (if x \<le> y \<and> y < x + length v then Some (v ! (y - x)) else byte_at mem y)"
    and b2: "byte_at m2 y = (if x + length v \<le> y \<and> y < x + length v + length w
      then Some (w ! (y - (x + length v))) else byte_at m1 y)"
    and d1: "x \<le> y \<and> y < x + length v \<or> addr_dirty mem y \<Longrightarrow> addr_dirty m1 y"
    and d2: "x + length v \<le> y \<and> y < x + length v + length w \<or> addr_dirty m1 y \<Longrightarrow> addr_dirty m2 y"
    for y
    using assms unfolding updated_def by blast+
  have "byte_at m2 y = (if x \<le> y \<and> y < x + length (v @ w) then Some ((v @ w) ! (y - x)) else byte_at mem y)" for y
    using b1 [of y] b2 [of y] by (cases "y < x + length v") (auto simp: nth_append)
  moreover have "addr_dirty m2 y" if "x \<le> y \<and> y < x + length (v @ w) \<or> addr_dirty mem y" for y
    using that d1 [of y] d2 [of y] by (cases "y < x + length v") auto
  ultimately show ?thesis using assms unfolding updated_def by auto
qed

lemma length_overwrite [simp]: "off + length v \<le> length xs \<Longrightarrow> length (overwrite_at off v xs) = length xs"
  by (simp add: overwrite_at_def)

lemma nth_overwrite:
  "off + length v \<le> length xs \<Longrightarrow> k < length xs \<Longrightarrow>
     overwrite_at off v xs ! k = (if off \<le> k \<and> k < off + length v then v ! (k - off) else xs ! k)"
  by (auto simp: overwrite_at_def nth_append)

lemma shape_nth:
  "shape mem' = shape mem \<Longrightarrow> length mem' = length mem"
  "shape mem' = shape mem \<Longrightarrow> i < length mem \<Longrightarrow> rg_start (mem' ! i) = rg_start (mem ! i) \<and>
     rg_host (mem' ! i) = rg_host (mem ! i) \<and> length (rg_bytes (mem' ! i)) = length (rg_bytes (mem ! i))"
proof -
  assume s: "shape mem' = shape mem"
  then have "length (shape mem') = length (shape mem)" by simp
  then show len: "length mem' = length mem" by (simp add: shape_def)
  assume "i < length mem"
  then show "rg_start (mem' ! i) = rg_start (mem ! i) \<and>
     rg_host (mem' ! i) = rg_host (mem ! i) \<and> length (rg_bytes (mem' ! i)) = length (rg_bytes (mem ! i))"
    using arg_cong [OF s, of "\<lambda>x. x ! i"] len by (simp add: shape_def)
qed

lemma shape_slice:
  "shape mem' = shape mem \<Longrightarrow> slice_in mem' s = slice_in mem s"
  "shape mem' = shape mem \<Longrightarrow> slice_in mem s \<Longrightarrow> slice_addr mem' s = slice_addr mem s"
  using shape_nth [of mem' mem] by (auto simp: slice_in_def slice_addr_def)

lemma write_at_nth:
  assumes "j < length mem"
  shows "write_at i off v mem ! j = (if j = i then (mem ! i)\<lparr>rg_bytes := overwrite_at off v (rg_bytes (mem ! i)),
      rg_bitmap := bitmap_mark_dirty off (length v) (rg_bitmap (mem ! i))\<rparr> else mem ! j)"
  using assms by (simp add: write_at_def)

lemma write_at_ok:
  assumes "mem_ok mem" "i < length mem" "off + length v \<le> length (rg_bytes (mem ! i))"
  shows "mem_ok (write_at i off v mem)" and "shape (write_at i off v mem) = shape mem"
    and "j < length mem \<Longrightarrow> region_addrs (write_at i off v mem ! j) = region_addrs (mem ! j)"
    and "length (write_at i off v mem) = length mem"
proof -
  let ?m = "write_at i off v mem"
  show len: "length ?m = length mem" by (simp add: write_at_def)
  have same: "rg_start (?m ! j) = rg_start (mem ! j) \<and> rg_host (?m ! j) = rg_host (mem ! j) \<and>
      length (rg_bytes (?m ! j)) = length (rg_bytes (mem ! j))" if "j < length mem" for j
    using that assms(3) by (simp add: write_at_nth)
  then show "shape ?m = shape mem" by (simp add: shape_def len list_eq_iff_nth_eq)
  show "j < length mem \<Longrightarrow> region_addrs (?m ! j) = region_addrs (mem ! j)"
    using same by (simp add: region_addrs_def region_end_def)
  have "region_ok (?m ! j)" if j: "j < length mem" for j
  proof (cases "j = i")
    case True
    have ok: "region_ok (mem ! i)" by (rule mem_okD [OF assms(1,2)])
    then have b: "bitmap_ok (rg_bitmap (mem ! i)) \<and> bm_byte_size (rg_bitmap (mem ! i)) \<le> USIZE_MAX"
      by (simp add: region_ok_def)
    have "bm_byte_size (bitmap_mark_dirty off (length v) (rg_bitmap (mem ! i))) = bm_byte_size (rg_bitmap (mem ! i))"
      using b set_reset_range_facts(4) by (simp add: bitmap_mark_dirty_def set_addr_range_def)
    then show ?thesis
      using True j same [OF j] ok atomic.mark_good [OF b]
      by (auto simp: region_ok_def region_end_def write_at_nth)
  qed (use j mem_okD [OF assms(1)] in \<open>simp add: write_at_nth\<close>)
  moreover have "sorted_wrt before ?m"
    unfolding sorted_wrt_iff_nth_less before_def region_end_def len
    using mem_ok_before [OF assms(1)] same by (auto simp: region_end_def)
  ultimately show "mem_ok ?m" by (simp add: mem_ok_def list_all_length len)
qed

lemma write_at_updated:
  assumes "mem_ok mem" "i < length mem" "off + length v \<le> length (rg_bytes (mem ! i))"
  shows "updated mem (write_at i off v mem) (unat (rg_start (mem ! i)) + off) v"
proof -
  let ?m = "write_at i off v mem" and ?x = "unat (rg_start (mem ! i)) + off"
  note ok = write_at_ok [OF assms]
  have inside: "y \<in> region_addrs (mem ! i)" if "?x \<le> y" "y < ?x + length v" for y
    using that assms(3) by (simp add: region_addrs_def region_end_def)
  have good: "bitmap_ok (rg_bitmap (mem ! i)) \<and> bm_byte_size (rg_bitmap (mem ! i)) \<le> USIZE_MAX"
    and size: "bm_byte_size (rg_bitmap (mem ! i)) = length (rg_bytes (mem ! i))"
    using mem_okD [OF assms(1,2)] by (auto simp: region_ok_def)
  have "byte_at ?m y = (if ?x \<le> y \<and> y < ?x + length v then Some (v ! (y - ?x)) else byte_at mem y) \<and>
      (?x \<le> y \<and> y < ?x + length v \<or> addr_dirty mem y \<longrightarrow> addr_dirty ?m y)" for y
  proof (cases "\<exists>j < length mem. y \<in> region_addrs (mem ! j)")
    case False
    then have "byte_at ?m y = None" "byte_at mem y = None" "region_at mem y = None"
      using ok by (auto simp: byte_at_None_iff region_at_None_iff)
    then show ?thesis using False inside assms(2) by (auto simp: addr_dirty_def)
  next
    case True
    then obtain j where j: "j < length mem" "y \<in> region_addrs (mem ! j)" by blast
    have at: "region_at mem y = Some (mem ! j)" "region_at ?m y = Some (?m ! j)"
      using region_at_eq [OF assms(1) j] region_at_eq [OF ok(1), of j y] j ok(3,4) by simp_all
    show ?thesis
    proof (cases "j = i")
      case True
      let ?k = "y - unat (rg_start (mem ! i))"
      have k: "?k < length (rg_bytes (mem ! i))" "unat (rg_start (mem ! i)) \<le> y"
        using j True by (auto simp: region_addrs_def region_end_def)
      have range: "?x \<le> y \<and> y < ?x + length v \<longleftrightarrow> off \<le> ?k \<and> ?k < off + length v" using k(2) by auto
      have "y - ?x = ?k - off" by simp
      then show ?thesis
        using at True k assms(2,3) range atomic.mark_sets [OF good, of ?k off "length v"]
          atomic.mark_keeps [OF good, of ?k off "length v"] size
        by (auto simp: byte_at_def addr_dirty_def write_at_nth nth_overwrite)
    next
      case False
      then have "\<not> (?x \<le> y \<and> y < ?x + length v)"
        using inside region_unique [OF assms(1) j(1) assms(2) j(2)] by blast
      then show ?thesis using at False j(1) by (auto simp: byte_at_def addr_dirty_def write_at_nth)
    qed
  qed
  then show ?thesis unfolding updated_def using ok(1,2) by blast
qed

lemma copy_to_volatile_slice_eq:
  assumes "mem_ok mem" "slice_in mem s" "n \<le> vs_size s" "n \<le> length src"
  shows "copy_to_volatile_slice s src n mem = (n, write_at (vs_region s) (vs_start s) (take n src) mem)"
proof -
  have "vs_start s < 2 ^ 64"
    using length_usize [OF mem_okD [OF assms(1)], of "vs_region s" "vs_start s"] assms(2)
    by (simp add: USIZE_MAX_def slice_in_def)
  then show ?thesis
    using assms(4)
    by (simp add: copy_to_volatile_slice_def write_at_def Let_def slice_mark_dirty_def bitmap_slice_at_def wrapping_add_def)
qed

lemma slice_offset_eq:
  assumes "mem_ok mem" "slice_in mem s" "n \<le> vs_size s"
  shows "slice_offset mem n s = Ok (s\<lparr>vs_start := vs_start s + n, vs_size := vs_size s - n\<rparr>)"
    "slice_in mem (s\<lparr>vs_start := vs_start s + n, vs_size := vs_size s - n\<rparr>)"
proof -
  have "rg_host (mem ! vs_region s) + length (rg_bytes (mem ! vs_region s)) \<le> USIZE_MAX"
    using mem_okD [OF assms(1)] assms(2) by (simp add: region_ok_def slice_in_def)
  then have "host_addr mem s + n \<le> USIZE_MAX" using assms(2,3) by (simp add: host_addr_def slice_in_def)
  then show "slice_offset mem n s = Ok (s\<lparr>vs_start := vs_start s + n, vs_size := vs_size s - n\<rparr>)"
    using assms(3) by (simp add: slice_offset_def)
  show "slice_in mem (s\<lparr>vs_start := vs_start s + n, vs_size := vs_size s - n\<rparr>)"
    using assms(2,3) by (simp add: slice_in_def)
qed

lemma vs_write_eq:
  assumes "mem_ok mem" "slice_in mem s" "0 < vs_size s" "buf \<noteq> []"
  shows "vs_write buf 0 s mem =
    (Ok (min (vs_size s) (length buf)), write_at (vs_region s) (vs_start s) (take (min (vs_size s) (length buf)) buf) mem)"
  using slice_offset_eq(1) [OF assms(1,2), of 0] copy_to_volatile_slice_eq [OF assms(1,2)] assms(3,4)
  by (simp add: vs_write_def read_volatile_def)

lemma vs_write_updated:
  assumes "mem_ok mem" "slice_in mem s" "0 < vs_size s" "buf \<noteq> []" "n = min (vs_size s) (length buf)"
  obtains mem' where "vs_write buf 0 s mem = (Ok n, mem')" and "updated mem mem' (slice_addr mem s) (take n buf)"
  using that vs_write_eq [OF assms(1-4)] assms(2,5)
    write_at_updated [OF assms(1), of "vs_region s" "vs_start s" "take n buf"]
  by (auto simp: slice_in_def slice_addr_def)

lemma write_fold_updated:
  assumes "mem_ok mem"
  shows "mem_ok mem' \<Longrightarrow> shape mem' = shape mem \<Longrightarrow> acc + c = length buf \<Longrightarrow>
    \<exists>mem''. write_fold buf acc (filter not_err (gm_get_slices mem a c)) mem' =
        (Ok (acc + mapped_prefix mem (unat a) c), mem'') \<and>
      updated mem' mem'' (unat a) (take (mapped_prefix mem (unat a) c) (drop acc buf))"
proof (induction c arbitrary: a acc mem' rule: less_induct)
  case (less c)
  show ?case
  proof (cases "0 < c \<and> find_region mem a \<noteq> None")
    case False
    then have "filter not_err (gm_get_slices mem a c) = []" "mapped_prefix mem (unat a) c = 0"
      using get_slices_eqs(1,2) [OF assms] prefix_hole [OF assms, of a c] by (cases "c = 0"; simp)+
    then show ?thesis using updated_refl [OF less.prems(1)] by simp
  next
    case True
    then obtain i where i: "find_region mem a = Some i" and c: "0 < c" by auto
    note h = head_facts [OF assms i]
    let ?n = "head_len mem i a c" and ?s = "head_slice mem i a c"
    let ?b = "a + of_nat ?n" and ?p = "mapped_prefix mem (unat (a + of_nat ?n)) (c - ?n)"
    have s: "slice_in mem' ?s" "slice_addr mem' ?s = unat a" "0 < vs_size ?s"
      using h(2,3,4) c shape_slice [OF less.prems(2)] by (auto simp: head_slice_def)
    have "length (drop acc buf) = c" using less.prems(3) by simp
    then have buf: "drop acc buf \<noteq> []" "?n = min (vs_size ?s) (length (drop acc buf))"
      using c h(5) [of c] by (auto simp: head_slice_def)
    obtain m1 where m1: "vs_write (drop acc buf) 0 ?s mem' = (Ok ?n, m1)"
      "updated mem' m1 (unat a) (take ?n (drop acc buf))"
      using vs_write_updated [OF less.prems(1) s(1,3) buf] s(2) by metis
    have m1ok: "mem_ok m1" "shape m1 = shape mem"
      using m1(2) less.prems(2) by (simp_all add: updated_def)
    have lt: "c - ?n < c" "acc + ?n + (c - ?n) = length buf"
      using h(4,5) c less.prems(3) by (metis diff_less, simp add: h(5))
    obtain m2 where m2: "write_fold buf (acc + ?n) (filter not_err (gm_get_slices mem ?b (c - ?n))) m1 =
        (Ok (acc + ?n + ?p), m2)" "updated m1 m2 (unat ?b) (take ?p (drop (acc + ?n) buf))"
      using less.IH [OF lt(1) m1ok lt(2)] by blast
    have len: "length (take ?n (drop acc buf)) = ?n" using buf(2) by simp
    have upd: "updated m1 m2 (unat a + length (take ?n (drop acc buf))) (take ?p (drop (acc + ?n) buf))"
      unfolding len using m2(2) h(6) [of c] by simp
    have "take ?n (drop acc buf) @ take ?p (drop (acc + ?n) buf) = take (?n + ?p) (drop acc buf)"
      by (simp add: take_add add.commute)
    then have "updated mem' m2 (unat a) (take (mapped_prefix mem (unat a) c) (drop acc buf))"
      using updated_trans [OF m1(2) upd] prefix_head [OF assms i, of c] by simp
    then show ?thesis
      using get_slices_eqs(3) [OF assms c i] m1(1) m2(1) prefix_head [OF assms i, of c] by (simp add: add.assoc)
  qed
qed

lemma gm_get_slice_eq:
  assumes "mem_ok mem"
  shows "gm_get_slice mem a c =
    (case find_region mem a of None \<Rightarrow> Err (InvalidGuestAddress a)
     | Some i \<Rightarrow> if unat a + c \<le> region_end (mem ! i)
         then Ok \<lparr>vs_region = i, vs_start = unat a - unat (rg_start (mem ! i)), vs_size = c\<rparr>
         else Err InvalidBackendAddress)"
proof (cases "find_region mem a")
  case (Some i)
  note h = head_facts [OF assms Some]
  have "unat (rg_start (mem ! i)) \<le> unat a"
    using find_region_sound [OF assms Some] by (simp add: region_addrs_def)
  then have "unat (a - rg_start (mem ! i)) + c \<le> length (rg_bytes (mem ! i)) \<longleftrightarrow> unat a + c \<le> region_end (mem ! i)"
    unfolding h(8) region_end_def by linarith
  then show ?thesis
    using Some h(8) by (simp add: gm_get_slice_def gm_to_region_addr_eq assms region_get_slice_eq [OF assms h(1)])
qed (simp add: gm_get_slice_def gm_to_region_addr_eq assms)

lemma get_slice_Ok:
  assumes "mem_ok mem" "gm_get_slice mem a c = Ok s"
  shows "slice_in mem s" "slice_addr mem s = unat a" "vs_size s = c" "mapped_prefix mem (unat a) c = c"
proof -
  obtain i where i: "find_region mem a = Some i" "unat a + c \<le> region_end (mem ! i)"
    "s = \<lparr>vs_region = i, vs_start = unat a - unat (rg_start (mem ! i)), vs_size = c\<rparr>"
    using assms(2) by (auto simp: gm_get_slice_eq [OF assms(1)] split: option.splits if_splits)
  have n: "head_len mem i a c = c" using i(2) by (simp add: head_len_def)
  then have s: "s = head_slice mem i a c" by (simp add: i(3) head_slice_def)
  show "slice_in mem s" "slice_addr mem s = unat a" "vs_size s = c"
    using head_facts(2,3) [OF assms(1) i(1)] n by (simp_all add: s) (simp add: head_slice_def)
  show "mapped_prefix mem (unat a) c = c" using prefix_head [OF assms(1) i(1), of c] n by simp
qed

lemma stop_on_error_slices:
  assumes "mem_ok mem"
  shows "stop_on_error (gm_get_slices mem a c) =
    (if 0 < c \<and> find_region mem a = None then Err (InvalidGuestAddress a)
     else Ok (filter not_err (gm_get_slices mem a c)))"
  using get_slices_eqs [OF assms] by (cases "c = 0"; cases "find_region mem a") (simp_all add: stop_on_error_def)

lemma gm_write_spec:
  assumes "mem_ok mem"
  shows "if buf = [] then gm_write buf a mem = (Ok 0, mem)
    else if byte_at mem (unat a) = None then gm_write buf a mem = (Err (InvalidGuestAddress a), mem)
    else \<exists>mem'. gm_write buf a mem = (Ok (mapped_prefix mem (unat a) (length buf)), mem') \<and>
      updated mem mem' (unat a) (take (mapped_prefix mem (unat a) (length buf)) buf)"
proof (cases "buf = []")
  case True
  then show ?thesis
    using stop_on_error_slices [OF assms, of a 0] get_slices_eqs(1) [OF assms]
    by (cases "gm_get_slice mem a 0") (auto simp: gm_write_def vs_write_def gm_get_slice_eq assms split: option.splits if_splits)
next
  case ne: False
  show ?thesis
  proof (cases "gm_get_slice mem a (length buf)")
    case (Ok s)
    note s = get_slice_Ok [OF assms Ok]
    have fit: "vs_size s = length buf" "0 < vs_size s" using s(3) ne by auto
    obtain mem' where "vs_write buf 0 s mem = (Ok (length buf), mem')" "updated mem mem' (unat a) (take (length buf) buf)"
      using vs_write_updated [OF assms s(1) fit(2) ne, of "length buf"] s(2) fit by auto
    moreover have "byte_at mem (unat a) \<noteq> None" using s(4) ne by (cases buf) (auto split: if_splits)
    ultimately show ?thesis using Ok s(4) ne by (simp add: gm_write_def)
  next
    case (Err e)
    show ?thesis
    proof (cases "find_region mem a")
      case None
      then show ?thesis
        using Err ne stop_on_error_slices [OF assms, of a "length buf"] find_region_byte_at [OF assms, of a]
        by (simp add: gm_write_def)
    next
      case (Some i)
      then show ?thesis
        using Err ne stop_on_error_slices [OF assms, of a "length buf"] find_region_byte_at [OF assms, of a]
          write_fold_updated [OF assms assms refl, of 0 "length buf" buf a]
        by (auto simp: gm_write_def)
    qed
  next
    case Panic
    then show ?thesis by (simp add: gm_get_slice_eq assms split: option.splits if_splits)
  qed
qed

section \<open>Reading\<close>

definition bytes_at :: "gmem \<Rightarrow> nat \<Rightarrow> nat \<Rightarrow> u8 list" where
  "bytes_at mem x n = map (\<lambda>k. the (byte_at mem (x + k))) [0..<n]"

lemma length_bytes_at [simp]: "length (bytes_at mem x n) = n"
  by (simp add: bytes_at_def)

lemma bytes_at_add: "bytes_at mem x (n + m) = bytes_at mem x n @ bytes_at mem (x + n) m"
  by (rule nth_equalityI) (auto simp: bytes_at_def nth_append add.assoc)

lemma take_bytes_at: "n \<le> m \<Longrightarrow> take n (bytes_at mem x m) = bytes_at mem x n"
  by (simp add: bytes_at_def take_map)

lemma slice_bytes_eq:
  assumes "mem_ok mem" "slice_in mem s"
  shows "slice_bytes mem s = bytes_at mem (slice_addr mem s) (vs_size s)"
proof (rule nth_equalityI)
  show "length (slice_bytes mem s) = length (bytes_at mem (slice_addr mem s) (vs_size s))"
    using assms(2) by (auto simp: slice_bytes_def slice_in_def)
  fix k assume "k < length (slice_bytes mem s)"
  then have k: "k < vs_size s" "vs_region s < length mem" "vs_start s + vs_size s \<le> length (rg_bytes (mem ! vs_region s))"
    using assms(2) by (auto simp: slice_bytes_def slice_in_def)
  then have "slice_addr mem s + k \<in> region_addrs (mem ! vs_region s)"
    by (simp add: slice_addr_def region_addrs_def region_end_def)
  then show "slice_bytes mem s ! k = bytes_at mem (slice_addr mem s) (vs_size s) ! k"
    using k byte_at_eq [OF assms(1) k(2)] by (simp add: bytes_at_def slice_bytes_def slice_addr_def add.assoc)
qed

lemma vs_read_eq:
  assumes "mem_ok mem" "slice_in mem s" "0 < vs_size s" "buf \<noteq> []" "n = min (vs_size s) (length buf)"
  shows "vs_read buf 0 s mem = Ok (n, bytes_at mem (slice_addr mem s) n @ drop n buf)"
proof -
  have "rg_host (mem ! vs_region s) + length (rg_bytes (mem ! vs_region s)) \<le> USIZE_MAX"
    using mem_okD [OF assms(1)] assms(2) by (simp add: region_ok_def slice_in_def)
  then have "host_addr mem s \<le> USIZE_MAX" using assms(2) by (simp add: host_addr_def slice_in_def)
  then show ?thesis
    using assms slice_bytes_eq [OF assms(1,2)]
    by (simp add: vs_read_def slice_offset_def write_volatile_def copy_from_volatile_slice_def overwrite_at_def
        take_bytes_at)
qed

lemma read_fold_eq:
  assumes "mem_ok mem"
  shows "acc + c = length buf \<Longrightarrow>
    read_fold buf acc (filter not_err (gm_get_slices mem a c)) mem =
      Ok (acc + mapped_prefix mem (unat a) c,
          take acc buf @ bytes_at mem (unat a) (mapped_prefix mem (unat a) c) @ drop (acc + mapped_prefix mem (unat a) c) buf)"
proof (induction c arbitrary: a acc buf rule: less_induct)
  case (less c)
  show ?case
  proof (cases "0 < c \<and> find_region mem a \<noteq> None")
    case False
    then have "filter not_err (gm_get_slices mem a c) = []" "mapped_prefix mem (unat a) c = 0"
      using get_slices_eqs(1,2) [OF assms] prefix_hole [OF assms, of a c] by (cases "c = 0"; simp)+
    then show ?thesis by (simp add: bytes_at_def)
  next
    case True
    then obtain i where i: "find_region mem a = Some i" and c: "0 < c" by auto
    note h = head_facts [OF assms i]
    let ?n = "head_len mem i a c" and ?s = "head_slice mem i a c"
    let ?b = "a + of_nat ?n" and ?p = "mapped_prefix mem (unat (a + of_nat ?n)) (c - ?n)"
    have "length (drop acc buf) = c" using less.prems by simp
    then have buf: "drop acc buf \<noteq> []" "?n = min (vs_size ?s) (length (drop acc buf))"
      using c h(5) [of c] by (auto simp: head_slice_def)
    have "0 < vs_size ?s" using h(4) c by (simp add: head_slice_def)
    from vs_read_eq [OF assms h(2) this buf(1,2)]
    have read: "vs_read (drop acc buf) 0 ?s mem = Ok (?n, bytes_at mem (unat a) ?n @ drop (acc + ?n) buf)"
      by (simp add: h(3) add.commute)
    let ?buf = "take acc buf @ bytes_at mem (unat a) ?n @ drop (acc + ?n) buf"
    have n: "acc + ?n \<le> length buf" "?n \<le> c" using less.prems h(5) [of c] by auto
    have lt: "c - ?n < c" "acc + ?n + (c - ?n) = length ?buf" using h(4) c n less.prems by auto
    have "take (acc + ?n) ?buf = take acc buf @ bytes_at mem (unat a) ?n"
      "drop (acc + ?n + ?p) ?buf = drop (acc + ?n + ?p) buf"
      using n by (auto simp: min_def ac_simps)
    then show ?thesis
      using get_slices_eqs(3) [OF assms c i] read less.IH [OF lt] prefix_head [OF assms i, of c]
        bytes_at_add [of mem "unat a" ?n ?p] h(6) [of c] by (simp add: add.assoc)
  qed
qed

lemma gm_read_spec:
  assumes "mem_ok mem" "n = mapped_prefix mem (unat a) (length buf)"
  shows "gm_read buf a mem =
    (if buf \<noteq> [] \<and> byte_at mem (unat a) = None then Err (InvalidGuestAddress a)
     else Ok (n, bytes_at mem (unat a) n @ drop n buf))"
proof (cases "buf = []")
  case True
  then show ?thesis
    using stop_on_error_slices [OF assms(1), of a 0] get_slices_eqs(1) [OF assms(1)] assms(2)
    by (cases "gm_get_slice mem a 0")
      (auto simp: gm_read_def vs_read_def gm_get_slice_eq assms(1) bytes_at_def split: option.splits if_splits)
next
  case ne: False
  show ?thesis
  proof (cases "gm_get_slice mem a (length buf)")
    case (Ok s)
    note s = get_slice_Ok [OF assms(1) Ok]
    have fit: "vs_size s = length buf" "0 < vs_size s" using s(3) ne by auto
    have "byte_at mem (unat a) \<noteq> None" using s(4) ne by (cases buf) (auto split: if_splits)
    then show ?thesis
      using Ok s ne fit assms vs_read_eq [OF assms(1) s(1) fit(2) ne, of "length buf"] by (simp add: gm_read_def)
  next
    case (Err e)
    then show ?thesis
      using ne stop_on_error_slices [OF assms(1), of a "length buf"] find_region_byte_at [OF assms(1), of a]
        read_fold_eq [OF assms(1), of 0 "length buf" buf a] assms(2)
      by (auto simp: gm_read_def)
  next
    case Panic
    then show ?thesis by (simp add: gm_get_slice_eq assms(1) split: option.splits if_splits)
  qed
qed

section \<open>Whole buffers, ranges and atomic access\<close>

definition mapped :: "gmem \<Rightarrow> u64 \<Rightarrow> nat \<Rightarrow> bool" where
  "mapped mem a n \<longleftrightarrow> (\<forall>k < n. byte_at mem (unat a + k) \<noteq> None)"

lemma mapped_iff: "mapped mem a n \<longleftrightarrow> mapped_prefix mem (unat a) n = n"
  by (simp add: mapped_def mapped_prefix_full_iff)

lemma not_mapped: "\<not> mapped mem a n \<Longrightarrow> mapped_prefix mem (unat a) n \<noteq> n"
  by (simp add: mapped_iff)

lemma mapped_head: "mapped mem a n \<Longrightarrow> 0 < n \<Longrightarrow> byte_at mem (unat a) \<noteq> None"
  unfolding mapped_def by (metis add_0_right)

lemma gm_write_slice_ok:
  assumes "mem_ok mem" "buf \<noteq> []" "mapped mem a (length buf)"
  shows "\<exists>mem'. gm_write_slice buf a mem = (Ok (), mem') \<and> updated mem mem' (unat a) buf"
  using gm_write_spec [OF assms(1), of buf a] assms(2,3) mapped_head [OF assms(3)]
  by (auto simp: gm_write_slice_def abind_def alift_def mapped_iff)

lemma gm_write_slice_err:
  assumes "mem_ok mem" "\<not> mapped mem a (length buf)"
  shows "\<exists>e. fst (gm_write_slice buf a mem) = Err e"
proof -
  have "buf \<noteq> []" using assms(2) by (auto simp: mapped_def)
  then show ?thesis
    using gm_write_spec [OF assms(1), of buf a] not_mapped [OF assms(2)]
    by (auto simp: gm_write_slice_def abind_def alift_def split: if_splits)
qed

lemma gm_read_slice_eq:
  assumes "mem_ok mem" "mapped mem a (length buf)"
  shows "gm_read_slice buf a mem = Ok (bytes_at mem (unat a) (length buf))"
  using gm_read_spec [OF assms(1) refl, of buf a] assms(2) mapped_head [OF assms(2)]
  by (auto simp: gm_read_slice_def mapped_iff)

lemma gm_read_slice_err:
  assumes "mem_ok mem" "\<not> mapped mem a (length buf)"
  shows "\<exists>e. gm_read_slice buf a mem = Err e"
  using gm_read_spec [OF assms(1) refl, of buf a] not_mapped [OF assms(2)]
  by (auto simp: gm_read_slice_def)

lemma gm_read_obj_eq: "mem_ok mem \<Longrightarrow> mapped mem a n \<Longrightarrow> gm_read_obj n a mem = Ok (bytes_at mem (unat a) n)"
  using gm_read_slice_eq [of mem a "replicate n 0"] by (simp add: gm_read_obj_def)

lemma gm_read_obj_Ok_iff: "mem_ok mem \<Longrightarrow> gm_read_obj n a mem = Ok bs \<longleftrightarrow> mapped mem a n \<and> bs = bytes_at mem (unat a) n"
  using gm_read_slice_eq [of mem a "replicate n 0"] gm_read_slice_err [of mem a "replicate n 0"]
  by (cases "mapped mem a n") (auto simp: gm_read_obj_def)

lemma slices_all_ok:
  assumes "mem_ok mem"
  shows "list_all is_ok (gm_get_slices mem a c) \<longleftrightarrow> mapped_prefix mem (unat a) c = c"
proof (induction c arbitrary: a rule: less_induct)
  case (less c)
  show ?case
  proof (cases "0 < c")
    case c: True
    show ?thesis
    proof (cases "find_region mem a")
      case None
      then show ?thesis using get_slices_eqs(2) [OF assms c] prefix_hole [OF assms, of a c] c by simp
    next
      case (Some i)
      note h = head_facts [OF assms Some]
      have "c - head_len mem i a c < c" using h(4) [OF c] c by simp
      note rest = less.IH [OF this, of "a + of_nat (head_len mem i a c)"]
      show ?thesis
        unfolding get_slices_eqs(3) [OF assms c Some] prefix_head [OF assms Some, of c]
        using rest h(5) [of c] by simp linarith
    qed
  qed (simp add: get_slices_eqs(1) [OF assms])
qed

lemma gm_check_range_iff: "mem_ok mem \<Longrightarrow> gm_check_range mem a n \<longleftrightarrow> mapped mem a n"
  using slices_all_ok [of mem a n] get_slice_Ok(4) [of mem a n]
  by (cases "gm_get_slice mem a n") (auto simp: gm_check_range_def mapped_iff mapped_prefix_full_iff)

text \<open>An atomic access of \<open>n\<close> bytes stays in one region and is aligned on the host.\<close>

definition atomic_ok :: "gmem \<Rightarrow> u64 \<Rightarrow> nat \<Rightarrow> bool" where
  "atomic_ok mem a n \<longleftrightarrow> (\<exists>i < length mem. unat a \<in> region_addrs (mem ! i) \<and> unat a + n \<le> region_end (mem ! i) \<and>
     and (of_nat (rg_host (mem ! i) + (unat a - unat (rg_start (mem ! i))))) (of_nat (n - 1)) = (0 :: u64))"

lemma first_slice_eq:
  assumes "mem_ok mem" "0 < n"
  shows "first_slice mem a n =
    (case find_region mem a of None \<Rightarrow> Err (InvalidGuestAddress a) | Some i \<Rightarrow> Ok (head_slice mem i a n))"
  using get_slices_eqs(2,3) [OF assms] by (simp add: first_slice_def split: option.split)

lemma atomic_ok_iff:
  assumes "mem_ok mem" "find_region mem a = Some i"
  shows "atomic_ok mem a n \<longleftrightarrow> n \<le> head_len mem i a n \<and>
    and (of_nat (host_addr mem (head_slice mem i a n))) (of_nat (n - 1)) = (0 :: u64)"
proof -
  note i = find_region_sound [OF assms]
  have "atomic_ok mem a n \<longleftrightarrow> unat a + n \<le> region_end (mem ! i) \<and>
      and (of_nat (rg_host (mem ! i) + (unat a - unat (rg_start (mem ! i))))) (of_nat (n - 1)) = (0 :: u64)"
    unfolding atomic_ok_def using i region_unique [OF assms(1)] by blast
  moreover have "unat a + n \<le> region_end (mem ! i) \<longleftrightarrow> n \<le> head_len mem i a n"
    using i by (auto simp: head_len_def region_addrs_def)
  ultimately show ?thesis by (simp add: host_addr_def head_slice_def)
qed

lemma get_atomic_ref_head:
  assumes "mem_ok mem" "n \<le> USIZE_MAX" "find_region mem a = Some i"
  shows "get_atomic_ref mem n 0 (head_slice mem i a n) =
    (if atomic_ok mem a n then Ok (head_slice mem i a n) else
     if n \<le> head_len mem i a n
     then Err (Misaligned (host_addr mem (head_slice mem i a n)) n) else Err (OutOfBounds n))"
  using assms(2) head_facts(5) [OF assms(1,3), of n]
  by (auto simp: atomic_ok_iff [OF assms(1,3)] get_atomic_ref_def subslice_def compute_end_offset_def compute_offset_def
      check_alignment_def host_addr_def head_slice_def)

lemma head_full: "mem_ok mem \<Longrightarrow> find_region mem a = Some i \<Longrightarrow> atomic_ok mem a n \<Longrightarrow> head_len mem i a n = n"
  using head_facts(5) [of mem a i n] by (simp add: atomic_ok_iff)

lemma atomic_mapped:
  assumes "mem_ok mem" "atomic_ok mem a n"
  shows "mapped mem a n"
proof -
  obtain i where i: "i < length mem" "unat a \<in> region_addrs (mem ! i)" "unat a + n \<le> region_end (mem ! i)"
    using assms(2) by (auto simp: atomic_ok_def)
  have "unat a + k \<in> region_addrs (mem ! i)" if "k < n" for k
    using i(2,3) that by (simp add: region_addrs_def)
  then show ?thesis unfolding mapped_def byte_at_None_iff using i(1) by blast
qed

lemma gm_load_eq:
  assumes "mem_ok mem" "0 < n" "n \<le> USIZE_MAX"
  shows "atomic_ok mem a n \<Longrightarrow> gm_load n a mem = Ok (bytes_at mem (unat a) n)"
    and "\<not> atomic_ok mem a n \<Longrightarrow> \<exists>e. gm_load n a mem = Err e"
proof -
  show "gm_load n a mem = Ok (bytes_at mem (unat a) n)" if at: "atomic_ok mem a n"
  proof -
    obtain i where i: "find_region mem a = Some i"
      using at find_region_complete [OF assms(1)] by (auto simp: atomic_ok_def)
    note h = head_facts [OF assms(1) i]
    have "get_atomic_ref mem n 0 (head_slice mem i a n) = Ok (head_slice mem i a n)"
      using get_atomic_ref_head [OF assms(1,3) i] at by simp
    moreover have "vs_size (head_slice mem i a n) = n" using head_full [OF assms(1) i at] by (simp add: head_slice_def)
    ultimately show ?thesis
      using slice_bytes_eq [OF assms(1) h(2)] h(3) i
      by (simp add: gm_load_def first_slice_eq [OF assms(1,2)] vs_load_def)
  qed
  show "\<exists>e. gm_load n a mem = Err e" if "\<not> atomic_ok mem a n"
    using that get_atomic_ref_head [OF assms(1,3)]
    by (cases "find_region mem a") (auto simp: gm_load_def first_slice_eq [OF assms(1,2)] vs_load_def split: if_splits)
qed

lemma gm_store_eq:
  assumes "mem_ok mem" "v \<noteq> []" "length v \<le> USIZE_MAX"
  shows "atomic_ok mem a (length v) \<Longrightarrow> \<exists>mem'. gm_store v a mem = (Ok (), mem') \<and> updated mem mem' (unat a) v"
    and "\<not> atomic_ok mem a (length v) \<Longrightarrow> \<exists>e. gm_store v a mem = (Err e, mem)"
proof -
  have n: "0 < length v" using assms(2) by simp
  show "\<exists>mem'. gm_store v a mem = (Ok (), mem') \<and> updated mem mem' (unat a) v" if at: "atomic_ok mem a (length v)"
  proof -
    obtain i where i: "find_region mem a = Some i"
      using at find_region_complete [OF assms(1)] by (auto simp: atomic_ok_def)
    note h = head_facts [OF assms(1) i]
    let ?s = "head_slice mem i a (length v)"
    have ref: "get_atomic_ref mem (length v) 0 ?s = Ok ?s"
      using get_atomic_ref_head [OF assms(1,3) i] at by simp
    have size: "vs_size ?s = length v" using head_full [OF assms(1) i at] by (simp add: head_slice_def)
    have fit: "vs_start ?s + length v \<le> length (rg_bytes (mem ! vs_region ?s))" "vs_region ?s < length mem"
      using h(2) [of "length v"] size by (auto simp: slice_in_def)
    then have "vs_start ?s < 2 ^ 64"
      using length_usize [OF mem_okD [OF assms(1) fit(2)], of "vs_start ?s"] by (simp add: USIZE_MAX_def)
    then have "vs_store v 0 ?s mem = (Ok (), write_at (vs_region ?s) (vs_start ?s) v mem)"
      using ref by (simp add: vs_store_def Let_def write_at_def slice_mark_dirty_def bitmap_slice_at_def wrapping_add_def)
    moreover have "updated mem (write_at (vs_region ?s) (vs_start ?s) v mem) (unat a) v"
      using write_at_updated [OF assms(1) fit(2,1)] h(3) [of "length v"] by (simp add: slice_addr_def)
    ultimately show ?thesis using i by (simp add: gm_store_def first_slice_eq [OF assms(1) n])
  qed
  show "\<exists>e. gm_store v a mem = (Err e, mem)" if "\<not> atomic_ok mem a (length v)"
    using that get_atomic_ref_head [OF assms(1,3)]
    by (cases "find_region mem a") (auto simp: gm_store_def first_slice_eq [OF assms(1) n] vs_store_def split: if_splits)
qed

lemma shape_regions:
  assumes "shape mem' = shape mem" "i < length mem"
  shows "region_addrs (mem' ! i) = region_addrs (mem ! i)" "region_end (mem' ! i) = region_end (mem ! i)"
  using shape_nth(2) [OF assms] by (simp_all add: region_addrs_def region_end_def)

lemma mapped_shape: "shape mem' = shape mem \<Longrightarrow> mapped mem' a n = mapped mem a n"
  using shape_regions(1) [of mem' mem] shape_nth(1) [of mem' mem] by (simp add: mapped_def byte_at_None_iff)

lemma atomic_shape: "shape mem' = shape mem \<Longrightarrow> atomic_ok mem' a n = atomic_ok mem a n"
  using shape_regions [of mem' mem] shape_nth [of mem' mem] by (auto simp: atomic_ok_def)

section \<open>What byte access promises\<close>

text \<open>
  The contract of a store of bytes: where an access is permitted a write changes exactly the bytes it
  names and a read returns the bytes.  It is provided twice, by whole-buffer and by atomic access.
\<close>

locale byte_memory =
  fixes ok :: "'m \<Rightarrow> bool"
    and at :: "'m \<Rightarrow> nat \<Rightarrow> u8 option"
    and can :: "'m \<Rightarrow> u64 \<Rightarrow> nat \<Rightarrow> bool"
    and put :: "u8 list \<Rightarrow> u64 \<Rightarrow> ('m, unit, 'e) act"
    and get :: "nat \<Rightarrow> u64 \<Rightarrow> 'm \<Rightarrow> (u8 list, 'e) result"
  assumes put_ok: "ok m \<Longrightarrow> v \<noteq> [] \<Longrightarrow> can m a (length v) \<Longrightarrow> \<exists>m'. put v a m = (Ok (), m') \<and> ok m' \<and>
      (\<forall>y. at m' y = (if unat a \<le> y \<and> y < unat a + length v then Some (v ! (y - unat a)) else at m y)) \<and>
      (\<forall>b n. can m' b n = can m b n)"
    and get_ok: "ok m \<Longrightarrow> 0 < n \<Longrightarrow> can m a n \<Longrightarrow> get n a m = Ok (map (\<lambda>k. the (at m (unat a + k))) [0..<n])"
begin

lemma get_put_same:
  assumes "ok m" "v \<noteq> []" "can m a (length v)"
  shows "\<exists>m'. put v a m = (Ok (), m') \<and> ok m' \<and> get (length v) a m' = Ok v"
proof -
  obtain m' where m': "put v a m = (Ok (), m')" "ok m'" "can m' a (length v)"
    "\<forall>y. at m' y = (if unat a \<le> y \<and> y < unat a + length v then Some (v ! (y - unat a)) else at m y)"
    using put_ok [OF assms] assms(3) by blast
  have "map (\<lambda>k. the (at m' (unat a + k))) [0..<length v] = v"
    using m'(4) by (intro nth_equalityI) auto
  then show ?thesis using get_ok [OF m'(2) _ m'(3)] m'(1,2) assms(2) by auto
qed

lemma get_put_other:
  assumes "ok m" "v \<noteq> []" "can m a (length v)" "put v a m = (Ok (), m')"
    and "0 < n" "can m b n" "unat b + n \<le> unat a \<or> unat a + length v \<le> unat b"
  shows "get n b m' = get n b m"
proof -
  have m': "ok m'" "can m' b n"
    "\<forall>y. at m' y = (if unat a \<le> y \<and> y < unat a + length v then Some (v ! (y - unat a)) else at m y)"
    using put_ok [OF assms(1-3)] assms(4,6) by auto
  have "at m' (unat b + k) = at m (unat b + k)" if "k < n" for k
    using m'(3) assms(7) that by auto
  then show ?thesis using get_ok [OF m'(1) assms(5) m'(2)] get_ok [OF assms(1,5,6)] by simp
qed

end

interpretation buffer: byte_memory mem_ok byte_at mapped gm_write_slice "\<lambda>n. gm_read_slice (replicate n 0)"
proof
  show "\<exists>m'. gm_write_slice v a m = (Ok (), m') \<and> mem_ok m' \<and>
      (\<forall>y. byte_at m' y = (if unat a \<le> y \<and> y < unat a + length v then Some (v ! (y - unat a)) else byte_at m y)) \<and>
      (\<forall>b n. mapped m' b n = mapped m b n)"
    if "mem_ok m" "v \<noteq> []" "mapped m a (length v)" for m v a
    using gm_write_slice_ok [OF that] mapped_shape unfolding updated_def by blast
  show "gm_read_slice (replicate n 0) a m = Ok (map (\<lambda>k. the (byte_at m (unat a + k))) [0..<n])"
    if "mem_ok m" "0 < n" "mapped m a n" for m n a
    using gm_read_slice_eq [of m a "replicate n 0"] that by (simp add: bytes_at_def)
qed

interpretation cell: byte_memory mem_ok byte_at "\<lambda>m a n. atomic_ok m a n \<and> n \<le> USIZE_MAX" gm_store gm_load
proof
  show "\<exists>m'. gm_store v a m = (Ok (), m') \<and> mem_ok m' \<and>
      (\<forall>y. byte_at m' y = (if unat a \<le> y \<and> y < unat a + length v then Some (v ! (y - unat a)) else byte_at m y)) \<and>
      (\<forall>b n. (atomic_ok m' b n \<and> n \<le> USIZE_MAX) = (atomic_ok m b n \<and> n \<le> USIZE_MAX))"
    if p: "mem_ok m" "v \<noteq> []" "atomic_ok m a (length v) \<and> length v \<le> USIZE_MAX" for m v a
  proof -
    obtain m' where m': "gm_store v a m = (Ok (), m')" "updated m m' (unat a) v"
      using gm_store_eq(1) [OF p(1,2)] p(3) by blast
    show ?thesis
      by (rule exI [of _ m']) (use m' atomic_shape [of m' m] in \<open>simp add: updated_def\<close>)
  qed
  show "gm_load n a m = Ok (map (\<lambda>k. the (byte_at m (unat a + k))) [0..<n])"
    if "mem_ok m" "0 < n" "atomic_ok m a n \<and> n \<le> USIZE_MAX" for m n a
    using gm_load_eq(1) [OF that(1,2)] that(3) by (simp add: bytes_at_def)
qed

section \<open>Collections of regions\<close>

lemma mem_ok_distinct:
  assumes "mem_ok mem"
  shows "distinct mem"
  unfolding distinct_conv_nth
proof (intro allI impI)
  fix i j assume ij: "i < length mem" "j < length mem" "i \<noteq> j"
  have "unat (rg_start (mem ! i)) \<in> region_addrs (mem ! i)"
    using region_sizes(3) [OF mem_okD [OF assms ij(1)]] by (simp add: region_addrs_def)
  then show "mem ! i \<noteq> mem ! j" using region_unique [OF assms ij(1,2)] ij(3) by auto
qed

definition regions_apart :: "region set \<Rightarrow> bool" where
  "regions_apart R \<longleftrightarrow> (\<forall>r \<in> R. \<forall>s \<in> R. r \<noteq> s \<longrightarrow> region_addrs r \<inter> region_addrs s = {})"

lemma mem_ok_regions_apart:
  assumes "mem_ok mem"
  shows "regions_apart (set mem)"
  unfolding regions_apart_def
proof (intro ballI impI)
  fix r s assume rs: "r \<in> set mem" "s \<in> set mem" "r \<noteq> s"
  then obtain i j where ij: "i < length mem" "r = mem ! i" "j < length mem" "s = mem ! j"
    by (auto simp: in_set_conv_nth)
  then have "i \<noteq> j" using rs(3) by auto
  then show "region_addrs r \<inter> region_addrs s = {}" using region_unique [OF assms ij(1,3)] ij by blast
qed

lemma mem_okI:
  assumes "list_all region_ok mem" "sorted (map rg_start mem)" "distinct mem" "regions_apart (set mem)"
  shows "mem_ok mem"
proof -
  have "before (mem ! i) (mem ! j)" if "i < j" "j < length mem" for i j
  proof -
    have i: "i < length mem" using that by simp
    have le: "rg_start (mem ! i) \<le> rg_start (mem ! j)"
      using assms(2) that i sorted_nth_mono [of "map rg_start mem" i j] by simp
    have "mem ! i \<noteq> mem ! j" using assms(3) that i by (simp add: nth_eq_iff_index_eq)
    then have dis: "region_addrs (mem ! i) \<inter> region_addrs (mem ! j) = {}"
      using assms(4) that i by (simp add: regions_apart_def)
    have "region_ok (mem ! j)" using assms(1) that by (simp add: list_all_length)
    then have "unat (rg_start (mem ! j)) \<in> region_addrs (mem ! j)"
      using region_sizes(3) by (simp add: region_addrs_def)
    then show ?thesis using dis le by (auto simp: before_def region_addrs_def word_le_nat_alt)
  qed
  then show ?thesis using assms(1) by (simp add: mem_ok_def sorted_wrt_iff_nth_less)
qed

lemma mem_ok_sorted:
  assumes "mem_ok mem"
  shows "sorted_wrt (<) (map rg_start mem)"
  unfolding sorted_wrt_iff_nth_less
  using mem_ok_before [OF assms] region_sizes(3) [OF mem_okD [OF assms]]
  by (auto simp: word_less_nat_alt) (meson less_le_trans less_trans)

lemma mem_ok_unique:
  assumes "mem_ok xs" "mem_ok ys" "set xs = set ys"
  shows "xs = ys"
proof (rule map_inj_on)
  show "map rg_start xs = map rg_start ys"
    using strict_sorted_equal [OF mem_ok_sorted [OF assms(1)] mem_ok_sorted [OF assms(2)]] assms(3) by simp
  have "distinct (map rg_start xs)"
    using mem_ok_sorted [OF assms(1)] strict_sorted_iff by blast
  then show "inj_on rg_start (set xs \<union> set ys)" using assms(3) by (simp add: distinct_map)
qed

lemma insert_region_iff:
  assumes "mem_ok mem" "region_ok r"
  shows "insert_region mem r = Ok mem' \<longleftrightarrow> mem_ok mem' \<and> set mem' = insert r (set mem) \<and> r \<notin> set mem"
proof -
  let ?ys = "sort_key rg_start (mem @ [r])"
  have ok: "list_all region_ok ?ys" using assms by (auto simp: mem_ok_def list_all_iff)
  have "set ?ys \<noteq> {}" by simp
  then have ne: "?ys \<noteq> []" by force
  have "insert_region mem r = Ok mem' \<longleftrightarrow> mem_ok ?ys \<and> mem' = ?ys"
    unfolding insert_region_def from_arc_regions_iff [OF ok] using ne by blast
  moreover have "r \<notin> set mem" if "mem_ok ?ys"
    using mem_ok_distinct [OF that] by simp
  moreover have "mem_ok ?ys \<and> mem' = ?ys" if m: "mem_ok mem'" "set mem' = insert r (set mem)" "r \<notin> set mem"
  proof -
    have "mem_ok ?ys"
      using ok mem_ok_regions_apart [OF m(1)] m(2,3) mem_ok_distinct [OF assms(1)] by (intro mem_okI) auto
    then show ?thesis using mem_ok_unique [OF m(1)] m(2) by auto
  qed
  ultimately show ?thesis by auto
qed

lemma search_index:
  assumes "mem_ok mem" "i < length mem"
  shows "binary_search_by_key (rg_start (mem ! i)) mem = Ok i"
proof -
  have lo: "rg_start (mem ! j) < rg_start (mem ! i)" if "j < i" for j
    using mem_ok_before [OF assms(1) that assms(2)] region_sizes(3) [OF mem_okD [OF assms(1)], of j] assms(2) that
    by (simp add: word_less_nat_alt)
  have "takeWhile (\<lambda>r. rg_start r < rg_start (mem ! i)) mem = take i mem"
    using lo by (intro takeWhile_eq_take_P_nth) auto
  then show ?thesis using assms(2) by (simp add: binary_search_by_key_def Let_def)
qed

lemma remove_nth_facts:
  assumes "mem_ok mem" "i < length mem"
  shows "mem_ok (take i mem @ drop (Suc i) mem)" "set (take i mem @ drop (Suc i) mem) = set mem - {mem ! i}"
proof -
  have mem: "mem = take i mem @ mem ! i # drop (Suc i) mem" by (rule id_take_nth_drop [OF assms(2)])
  have "list_all region_ok (take i mem @ mem ! i # drop (Suc i) mem)"
    "sorted_wrt before (take i mem @ mem ! i # drop (Suc i) mem)" "distinct (take i mem @ mem ! i # drop (Suc i) mem)"
    using assms mem_ok_distinct [OF assms(1)] by (simp_all add: mem_ok_def flip: mem)
  moreover have "set mem = set (take i mem @ mem ! i # drop (Suc i) mem)" by (simp flip: mem)
  ultimately show "mem_ok (take i mem @ drop (Suc i) mem)" "set (take i mem @ drop (Suc i) mem) = set mem - {mem ! i}"
    by (auto simp: mem_ok_def sorted_wrt_append)
qed

lemma remove_region_eq:
  assumes "mem_ok mem" "r \<in> set mem"
  shows "\<exists>mem'. remove_region mem (rg_start r) (region_len r) = Ok (mem', r) \<and> mem_ok mem' \<and> set mem' = set mem - {r}"
proof -
  obtain i where i: "i < length mem" "r = mem ! i" using assms(2) by (auto simp: in_set_conv_nth)
  show ?thesis
    using remove_nth_facts [OF assms(1) i(1)] i by (simp add: remove_region_def search_index [OF assms(1) i(1)])
qed

section \<open>Properties\<close>


definition sample_region :: "u64 \<Rightarrow> nat \<Rightarrow> nat \<Rightarrow> region" where
  "sample_region start host n =
     \<lparr>rg_start = start, rg_host = host, rg_bytes = replicate n 0, rg_bitmap = bitmap_new n 4096\<rparr>"

definition sample_mem :: gmem where
  "sample_mem = [sample_region 0x1000 0x10000 4, sample_region 0x1004 0x20000 4]"

lemma sample_region_ok:
  "0 < n \<Longrightarrow> unat start + n < 2 ^ 64 \<Longrightarrow> host + n \<le> USIZE_MAX \<Longrightarrow> region_ok (sample_region start host n)"
  using bitmap_new_ok(1) [of 4096 n]
  by (simp add: region_ok_def sample_region_def region_end_def) (simp add: bitmap_new_def Let_def)

lemma sample_mem_ok: "mem_ok sample_mem"
  by (simp add: sample_mem_def mem_ok_def sample_region_ok USIZE_MAX_def)
    (simp add: before_def region_end_def sample_region_def)

lemma sample_byte_at: "byte_at sample_mem x = (if 0x1000 \<le> x \<and> x < 0x1008 then Some 0 else None)"
  by (auto simp: byte_at_def region_at_def sample_mem_def sample_region_def region_addrs_def region_end_def)




text \<open>
  Copying.  \<open>copy_slice\<close>, which copies short buffers in aligned units of eight, four, two and one
  bytes chosen by the alignment of both pointers, copies exactly the first \<open>cnt\<close> bytes of the source
  over those of the destination, whatever the two (non-null) addresses are.
\<close>

theorem copy_slice_is_copy:
  assumes "dst_addr \<noteq> 0" "src_addr \<noteq> 0" "cnt \<le> length src" "cnt \<le> length dst"
  shows "copy_slice dst_addr src_addr src cnt dst = take cnt src @ drop cnt dst"
  using copy_slice_volatile_eq [OF assms] assms(3) by (simp add: copy_slice_def overwrite_at_def)

theorem copy_slice_is_copy_witness:
  "copy_slice 0x1001 0x2004 [1, 2, 3, 4, 5] 5 [0, 0, 0, 0, 0, 9] = [1, 2, 3, 4, 5, 9]"
  using copy_slice_is_copy [of "0x1001" "0x2004" 5 "[1, 2, 3, 4, 5]" "[0, 0, 0, 0, 0, 9]"] by simp

text \<open>
  C39. Finding a region.  The binary search of \<open>GuestRegionCollection\<close> finds the same region as the
  linear scan that the trait provides by default, and \<open>check_range\<close> holds exactly of the ranges all of
  whose addresses are mapped, even across regions.
\<close>

theorem find_region_is_linear_scan:
  assumes "mem_ok mem"
  shows "map_option ((!) mem) (find_region mem a) = find_region_default mem a \<and>
    (gm_check_range mem a n \<longleftrightarrow> (\<forall>k < n. find_region_default mem (a + of_nat k) \<noteq> None \<and> unat a + k < 2 ^ 64))"
proof -
  have "byte_at mem (unat a + k) \<noteq> None \<longleftrightarrow> find_region_default mem (a + of_nat k) \<noteq> None \<and> unat a + k < 2 ^ 64" for k
  proof (cases "unat a + k < 2 ^ 64")
    case True
    then have "unat (of_nat k :: u64) = k" by (simp add: unat_of_nat)
    then have "unat (a + of_nat k) = unat a + k" using True by (subst unat_add_no_overflow) simp_all
    then show ?thesis
      using True find_region_byte_at [OF assms, of "a + of_nat k"] find_region_default_eq [OF assms, of "a + of_nat k"]
      by (metis map_option_is_None)
  next
    case False
    have "unat a + k \<notin> region_addrs (mem ! i)" if "i < length mem" for i
      using False mem_okD [OF assms that] by (auto simp: region_addrs_def region_ok_def)
    then show ?thesis using False by (simp add: byte_at_None_iff)
  qed
  then show ?thesis
    using find_region_default_eq [OF assms] gm_check_range_iff [OF assms] by (simp add: mapped_def)
qed

theorem find_region_is_linear_scan_witness:
  "find_region sample_mem 0x1005 = Some 1 \<and> find_region_default sample_mem 0x1005 = Some (sample_mem ! 1)"
proof -
  have "find_region sample_mem 0x1005 = Some 1"
    by (rule find_region_complete [OF sample_mem_ok])
      (simp_all add: sample_mem_def sample_region_def region_addrs_def region_end_def)
  then show ?thesis using find_region_is_linear_scan [OF sample_mem_ok, of "0x1005" 0] by simp
qed

text \<open>
  Inserting and removing regions.  Inserting a region succeeds exactly when it does not overlap
  the regions present, keeps the collection well formed, and removing it again by its base and length
  gives back the collection it was inserted into.
\<close>

theorem insert_remove_region:
  assumes "mem_ok mem" "region_ok r"
  shows "((\<exists>mem'. insert_region mem r = Ok mem') \<longleftrightarrow> (\<forall>s \<in> set mem. region_addrs r \<inter> region_addrs s = {})) \<and>
    (\<forall>mem'. insert_region mem r = Ok mem' \<longrightarrow> mem_ok mem' \<and> set mem' = insert r (set mem) \<and>
      remove_region mem' (rg_start r) (region_len r) = Ok (mem, r))"
proof -
  have roundtrip: "mem_ok mem' \<and> set mem' = insert r (set mem) \<and>
      remove_region mem' (rg_start r) (region_len r) = Ok (mem, r)" if "insert_region mem r = Ok mem'" for mem'
  proof -
    have m: "mem_ok mem'" "set mem' = insert r (set mem)" "r \<notin> set mem"
      using that insert_region_iff [OF assms] by blast+
    obtain m2 where "remove_region mem' (rg_start r) (region_len r) = Ok (m2, r)" "mem_ok m2" "set m2 = set mem' - {r}"
      using remove_region_eq [OF m(1), of r] m(2) by blast
    moreover have "m2 = mem" using mem_ok_unique [OF \<open>mem_ok m2\<close> assms(1)] m(2,3) \<open>set m2 = set mem' - {r}\<close> by auto
    ultimately show ?thesis using m by simp
  qed
  have self: "region_addrs r \<noteq> {}" using region_sizes(3) [OF assms(2)] by (auto simp: region_addrs_def)
  have "(\<exists>mem'. insert_region mem r = Ok mem') \<longleftrightarrow> (\<forall>s \<in> set mem. region_addrs r \<inter> region_addrs s = {})"
  proof
    assume "\<exists>mem'. insert_region mem r = Ok mem'"
    then obtain mem' where m: "mem_ok mem'" "set mem' = insert r (set mem)" "r \<notin> set mem"
      using insert_region_iff [OF assms] by blast
    then show "\<forall>s \<in> set mem. region_addrs r \<inter> region_addrs s = {}"
      using mem_ok_regions_apart [OF m(1)] by (auto simp: regions_apart_def)
  next
    assume dis: "\<forall>s \<in> set mem. region_addrs r \<inter> region_addrs s = {}"
    then have new: "r \<notin> set mem" using self by blast
    let ?ys = "sort_key rg_start (mem @ [r])"
    have "regions_apart (set ?ys)"
      using mem_ok_regions_apart [OF assms(1)] dis by (auto simp: regions_apart_def)
    moreover have "list_all region_ok ?ys" using assms by (auto simp: mem_ok_def list_all_iff)
    ultimately have "mem_ok ?ys"
      using new mem_ok_distinct [OF assms(1)] by (intro mem_okI) auto
    then show "\<exists>mem'. insert_region mem r = Ok mem'"
      using insert_region_iff [OF assms, of ?ys] new by auto
  qed
  then show ?thesis using roundtrip by blast
qed

theorem insert_remove_region_witness:
  "\<exists>mem'. insert_region sample_mem (sample_region 0x2000 0x30000 8) = Ok mem' \<and>
     remove_region mem' 0x2000 8 = Ok (sample_mem, sample_region 0x2000 0x30000 8)"
proof -
  let ?r = "sample_region 0x2000 0x30000 8"
  have ok: "region_ok ?r" by (rule sample_region_ok) (simp_all add: USIZE_MAX_def)
  have "\<forall>s \<in> set sample_mem. region_addrs ?r \<inter> region_addrs s = {}"
    by (auto simp: sample_mem_def sample_region_def region_addrs_def region_end_def)
  then obtain mem' where "insert_region sample_mem ?r = Ok mem'"
    using insert_remove_region [OF sample_mem_ok ok] by blast
  then show ?thesis
    using insert_remove_region [OF sample_mem_ok ok] by (auto simp: sample_region_def region_len_def)
qed

section \<open>Integers in guest memory (vm-memory/src/endian.rs)\<close>

definition le_bytes :: "nat \<Rightarrow> 'a::len word \<Rightarrow> u8 list" where
  "le_bytes n w = map (\<lambda>i. ucast (drop_bit (8 * i) w)) [0..<n]"

primrec of_le_bytes :: "u8 list \<Rightarrow> 'a::len word" where
  "of_le_bytes [] = 0"
| "of_le_bytes (b # bs) = or (ucast b) (push_bit 8 (of_le_bytes bs))"

lemma bit_of_le_bytes:
  "bit (of_le_bytes bs :: 'a::len word) i \<longleftrightarrow> i < LENGTH('a) \<and> i < 8 * length bs \<and> bit (bs ! (i div 8)) (i mod 8)"
proof (induction bs arbitrary: i)
  case (Cons b bs)
  show ?case
  proof (cases "i < 8")
    case True
    then show ?thesis by (auto simp: bit_or_iff bit_ucast_iff bit_push_bit_iff)
  next
    case False
    then have "i div 8 = Suc ((i - 8) div 8)" "i mod 8 = (i - 8) mod 8"
      by (simp_all add: le_div_geq le_mod_geq not_less)
    moreover have "\<not> bit b i" using False bit_imp_le_length [of b i] by auto
    ultimately show ?thesis
      using False Cons.IH [of "i - 8"] by (auto simp: bit_or_iff bit_ucast_iff bit_push_bit_iff)
  qed
qed simp

lemma length_le_bytes [simp]: "length (le_bytes n w) = n"
  by (simp add: le_bytes_def)

lemma of_le_le_bytes:
  fixes w :: "'a::len word"
  assumes "LENGTH('a) = 8 * n"
  shows "of_le_bytes (le_bytes n w) = w"
proof (rule bit_word_eqI)
  fix i assume i: "i < LENGTH('a)"
  then have "i div 8 < n" using assms by auto
  then show "bit (of_le_bytes (le_bytes n w) :: 'a word) i = bit w i"
    using i assms by (auto simp: bit_of_le_bytes le_bytes_def bit_ucast_iff bit_drop_bit_eq)
qed

lemma le_bytes_of_le:
  assumes "LENGTH('a::len) = 8 * n" "length bs = n"
  shows "le_bytes n (of_le_bytes bs :: 'a word) = bs"
proof (rule nth_equalityI)
  fix k assume k: "k < length (le_bytes n (of_le_bytes bs :: 'a word))"
  have "bit (ucast (drop_bit (8 * k) (of_le_bytes bs :: 'a word)) :: u8) j = bit (bs ! k) j" if "j < 8" for j
  proof -
    have "(8 * k + j) div 8 = k" "(8 * k + j) mod 8 = j" using that by auto
    then show ?thesis using that k assms by (auto simp: bit_ucast_iff bit_drop_bit_eq bit_of_le_bytes)
  qed
  then have "ucast (drop_bit (8 * k) (of_le_bytes bs :: 'a word)) = bs ! k"
    by (intro bit_word_eqI) simp
  then show "le_bytes n (of_le_bytes bs :: 'a word) ! k = bs ! k" using k by (simp add: le_bytes_def)
qed (simp add: assms)

end
