(* ===== verification/VirtQueue.thy ===== *)
theory VirtQueue
  imports GuestAccess
begin

text \<open>
  Split virtqueues: \<^verbatim>\<open>vm-virtio/virtio-queue/src\<close>.  The descriptor table, the available ring and the used
  ring lie in guest memory; the queue keeps their addresses and its positions in the rings.  Operations
  that only read guest memory take it as an argument, operations that write it are actions on the pair
  of the queue and the memory.  Ring positions are 16-bit words and wrap as \<^verbatim>\<open>Wrapping<u16>\<close> does.
\<close>

section \<open>Descriptors (desc/split.rs)\<close>

definition VRING_DESC_F_NEXT :: u16 where "VRING_DESC_F_NEXT = 1"
definition VRING_DESC_F_WRITE :: u16 where "VRING_DESC_F_WRITE = 2"
definition VRING_DESC_F_INDIRECT :: u16 where "VRING_DESC_F_INDIRECT = 4"
definition VRING_DESC_ALIGN_SIZE :: u32 where "VRING_DESC_ALIGN_SIZE = 16"
definition VRING_USED_F_NO_NOTIFY :: u16 where "VRING_USED_F_NO_NOTIFY = 1"

record descriptor =
  d_addr :: u64
  d_len :: u32
  d_flags :: u16
  d_next :: u16

definition descriptor_bytes :: "descriptor \<Rightarrow> u8 list" where
  "descriptor_bytes d = le_bytes 8 (d_addr d) @ le_bytes 4 (d_len d) @ le_bytes 2 (d_flags d) @ le_bytes 2 (d_next d)"

definition descriptor_of_bytes :: "u8 list \<Rightarrow> descriptor" where
  "descriptor_of_bytes bs =
     \<lparr>d_addr = of_le_bytes (take 8 bs), d_len = of_le_bytes (take 4 (drop 8 bs)),
      d_flags = of_le_bytes (take 2 (drop 12 bs)), d_next = of_le_bytes (take 2 (drop 14 bs))\<rparr>"

definition refers_to_indirect_table :: "descriptor \<Rightarrow> bool" where
  "refers_to_indirect_table d \<longleftrightarrow> and (d_flags d) VRING_DESC_F_INDIRECT \<noteq> 0"

definition has_next :: "descriptor \<Rightarrow> bool" where
  "has_next d \<longleftrightarrow> and (d_flags d) VRING_DESC_F_NEXT \<noteq> 0"

definition is_write_only :: "descriptor \<Rightarrow> bool" where
  "is_write_only d \<longleftrightarrow> and (d_flags d) VRING_DESC_F_WRITE \<noteq> 0"

definition used_elem_bytes :: "u32 \<Rightarrow> u32 \<Rightarrow> u8 list" where
  "used_elem_bytes ident len = le_bytes 4 ident @ le_bytes 4 len"

section \<open>Errors (lib.rs)\<close>

datatype queue_error =
  AddressOverflow | QGuestMemory guest_memory_error | InvalidIndirectDescriptor | InvalidIndirectDescriptorTable
| InvalidChain | InvalidDescriptorIndex | InvalidMaxSize | InvalidSize | InvalidDescTableAlign
| InvalidAvailRingAlign | InvalidUsedRingAlign | InvalidAvailRingIndex | QueueNotReady
| VolatileMemoryError volatile_error | DescriptorChainOverflow | FindMemoryRegion
| GuestMemoryError guest_memory_error | SplitOutOfBounds nat

section \<open>Descriptor chains (chain.rs)\<close>

record chain =
  dc_desc_table :: u64
  dc_queue_size :: u16
  dc_head_index :: u16
  dc_next_index :: u16
  dc_ttl :: u16
  dc_yielded_bytes :: u32
  dc_is_indirect :: bool

definition with_ttl :: "u64 \<Rightarrow> u16 \<Rightarrow> u16 \<Rightarrow> u16 \<Rightarrow> chain" where
  "with_ttl desc_table queue_size ttl head_index =
     \<lparr>dc_desc_table = desc_table, dc_queue_size = queue_size, dc_head_index = head_index,
      dc_next_index = head_index, dc_ttl = ttl, dc_yielded_bytes = 0, dc_is_indirect = False\<rparr>"

definition chain_new :: "u64 \<Rightarrow> u16 \<Rightarrow> u16 \<Rightarrow> chain" where
  "chain_new desc_table queue_size head_index = with_ttl desc_table queue_size queue_size head_index"

definition switch_to_indirect_table :: "descriptor \<Rightarrow> chain \<Rightarrow> (chain, queue_error) result" where
  "switch_to_indirect_table d c =
     (if dc_is_indirect c then Err InvalidIndirectDescriptor
      else if and (d_len d) (VRING_DESC_ALIGN_SIZE - 1) \<noteq> 0 then Err InvalidIndirectDescriptorTable
      else let table_len = d_len d div VRING_DESC_ALIGN_SIZE in
        if 0xFFFF < table_len then Err InvalidIndirectDescriptorTable
        else Ok (c\<lparr>dc_desc_table := d_addr d, dc_queue_size := ucast table_len, dc_next_index := 0,
                   dc_ttl := ucast table_len, dc_is_indirect := True\<rparr>))"

text \<open>\<open>Result::ok\<close>; reading an object of a fixed size from well-formed guest memory does not panic.\<close>

fun result_ok :: "('a, 'e) result \<Rightarrow> 'a option" where
  "result_ok (Ok x) = Some x"
| "result_ok (Err e) = None"
| "result_ok Panic = None"

definition desc_at :: "gmem \<Rightarrow> u64 \<Rightarrow> u16 \<Rightarrow> descriptor option" where
  "desc_at mem desc_table i =
     Option.bind (checked_add desc_table (ucast i * 16)) (\<lambda>desc_addr.
       map_option descriptor_of_bytes (result_ok (gm_read_obj 16 desc_addr mem)))"

text \<open>\<open>next\<close> calls itself once, after it has switched to an indirect table.\<close>

function chain_next :: "gmem \<Rightarrow> chain \<Rightarrow> descriptor option \<times> chain" where
  "chain_next mem c =
     (if dc_ttl c = 0 \<or> dc_queue_size c \<le> dc_next_index c then (None, c)
      else case desc_at mem (dc_desc_table c) (dc_next_index c) of
          None \<Rightarrow> (None, c)
        | Some d \<Rightarrow>
            if refers_to_indirect_table d
            then (case switch_to_indirect_table d c of Ok c' \<Rightarrow> chain_next mem c' | _ \<Rightarrow> (None, c))
            else case checked_add (dc_yielded_bytes c) (d_len d) of
                None \<Rightarrow> (None, c)
              | Some y \<Rightarrow>
                  (let c = c\<lparr>dc_yielded_bytes := y\<rparr> in
                   (Some d, if has_next d then c\<lparr>dc_next_index := d_next d, dc_ttl := dc_ttl c - 1\<rparr>
                            else c\<lparr>dc_ttl := 0\<rparr>)))"
  by auto
termination
  by (relation "measure (\<lambda>(_, c). if dc_is_indirect c then 0 else 1)")
    (auto simp: switch_to_indirect_table_def Let_def split: if_splits)

declare chain_next.simps [simp del]

text \<open>All the descriptors of a chain, as \<open>for desc in chain\<close> visits them.\<close>

lemma chain_next_decreases:
  assumes "chain_next mem c = (Some d, c')"
  shows "(dc_is_indirect c \<longrightarrow> dc_is_indirect c') \<and> (dc_is_indirect c' = dc_is_indirect c \<longrightarrow> dc_ttl c' < dc_ttl c)"
  using assms
proof (induction mem c rule: chain_next.induct)
  case (1 mem c)
  have less: "x - 1 < x" if "x \<noteq> 0" for x :: u16
    using that unat_gt_0 [of x] by (simp add: word_less_nat_alt unat_minus_one)
  show ?case
  proof (cases "\<exists>d0 c0. desc_at mem (dc_desc_table c) (dc_next_index c) = Some d0 \<and> refers_to_indirect_table d0 \<and>
      switch_to_indirect_table d0 c = Ok c0")
    case True
    then obtain d0 c0 where d0: "desc_at mem (dc_desc_table c) (dc_next_index c) = Some d0"
      "refers_to_indirect_table d0" "switch_to_indirect_table d0 c = Ok c0" by blast
    have go: "\<not> (dc_ttl c = 0 \<or> dc_queue_size c \<le> dc_next_index c)" and nx: "chain_next mem c0 = (Some d, c')"
      using 1(2) d0 by (auto simp: chain_next.simps [of mem c] split: if_splits)
    then show ?thesis
      using 1(1) [OF go d0(1,2,3) nx] d0(3) by (auto simp: switch_to_indirect_table_def Let_def split: if_splits)
  next
    case False
    then show ?thesis
      using 1(2) less [of "dc_ttl c"]
      by (auto simp: chain_next.simps [of mem c] Let_def word_neq_0_conv split: if_splits option.splits result.splits)
  qed
qed

function chain_descs :: "gmem \<Rightarrow> chain \<Rightarrow> descriptor list" where
  "chain_descs mem c =
     (case chain_next mem c of (None, _) \<Rightarrow> [] | (Some d, c') \<Rightarrow> d # chain_descs mem c')"
  by auto
termination
proof (relation "measures [\<lambda>(_, c). if dc_is_indirect c then 0 else 1, \<lambda>(_, c). unat (dc_ttl c)]", goal_cases)
  case (2 mem c x c' d)
  then show ?case
    using chain_next_decreases [of mem c d c'] by (auto simp: word_less_nat_alt)
qed simp

declare chain_descs.simps [simp del]

text \<open>The loop of \<open>DescriptorChainRwIter::next\<close>, and all the descriptors it gives.\<close>

function rw_next :: "gmem \<Rightarrow> bool \<Rightarrow> chain \<Rightarrow> descriptor option \<times> chain" where
  "rw_next mem writable c =
     (case chain_next mem c of
        (None, c') \<Rightarrow> (None, c')
      | (Some v, c') \<Rightarrow> if is_write_only v = writable then (Some v, c') else rw_next mem writable c')"
  by auto
termination
proof (relation "measures [\<lambda>(_, _, c). if dc_is_indirect c then 0 else 1, \<lambda>(_, _, c). unat (dc_ttl c)]", goal_cases)
  case (2 mem w c x c' v)
  then show ?case
    using chain_next_decreases [of mem c v c'] by (auto simp: word_less_nat_alt)
qed simp

declare rw_next.simps [simp del]

lemma rw_next_decreases:
  assumes "rw_next mem w c = (Some d, c')"
  shows "(dc_is_indirect c \<longrightarrow> dc_is_indirect c') \<and> (dc_is_indirect c' = dc_is_indirect c \<longrightarrow> dc_ttl c' < dc_ttl c)"
  using assms
proof (induction mem w c rule: rw_next.induct)
  case (1 mem w c)
  obtain v c1 where n: "chain_next mem c = (Some v, c1)"
    using 1(2) by (auto simp: rw_next.simps [of mem w c] split: prod.splits option.splits)
  show ?case
  proof (cases "is_write_only v = w")
    case True
    then show ?thesis using 1(2) n chain_next_decreases [OF n] by (simp add: rw_next.simps [of mem w c])
  next
    case False
    then have "rw_next mem w c1 = (Some d, c')" using 1(2) n by (simp add: rw_next.simps [of mem w c])
    note ih = 1(1) [OF n [symmetric] refl False this]
    then show ?thesis using chain_next_decreases [OF n] by (auto intro: less_trans)
  qed
qed

function rw_descs :: "gmem \<Rightarrow> bool \<Rightarrow> chain \<Rightarrow> descriptor list" where
  "rw_descs mem writable c =
     (case rw_next mem writable c of (None, _) \<Rightarrow> [] | (Some d, c') \<Rightarrow> d # rw_descs mem writable c')"
  by auto
termination
proof (relation "measures [\<lambda>(_, _, c). if dc_is_indirect c then 0 else 1, \<lambda>(_, _, c). unat (dc_ttl c)]", goal_cases)
  case (2 mem w c x c' v)
  then show ?case
    using rw_next_decreases [of mem w c v c'] by (auto simp: word_less_nat_alt)
qed simp

declare rw_descs.simps [simp del]

section \<open>The queue (queue.rs, state.rs, defs.rs)\<close>

definition MAX_QUEUE_SIZE :: u16 where "MAX_QUEUE_SIZE = 32768"
definition VIRTQ_USED_RING_HEADER_SIZE :: u64 where "VIRTQ_USED_RING_HEADER_SIZE = 4"
definition VIRTQ_USED_RING_META_SIZE :: u64 where "VIRTQ_USED_RING_META_SIZE = VIRTQ_USED_RING_HEADER_SIZE + 2"
definition VIRTQ_USED_ELEMENT_SIZE :: u64 where "VIRTQ_USED_ELEMENT_SIZE = 8"
definition VIRTQ_AVAIL_RING_HEADER_SIZE :: u64 where "VIRTQ_AVAIL_RING_HEADER_SIZE = 4"
definition VIRTQ_AVAIL_RING_META_SIZE :: u64 where "VIRTQ_AVAIL_RING_META_SIZE = VIRTQ_AVAIL_RING_HEADER_SIZE + 2"
definition VIRTQ_AVAIL_ELEMENT_SIZE :: u64 where "VIRTQ_AVAIL_ELEMENT_SIZE = 2"
definition DEFAULT_DESC_TABLE_ADDR :: u64 where "DEFAULT_DESC_TABLE_ADDR = 0"
definition DEFAULT_AVAIL_RING_ADDR :: u64 where "DEFAULT_AVAIL_RING_ADDR = 0"
definition DEFAULT_USED_RING_ADDR :: u64 where "DEFAULT_USED_RING_ADDR = 0"

record queue =
  q_max_size :: u16
  q_next_avail :: u16
  q_next_used :: u16
  q_event_idx_enabled :: bool
  q_num_added :: u16
  q_size :: u16
  q_ready :: bool
  q_desc_table :: u64
  q_avail_ring :: u64
  q_used_ring :: u64

definition try_set_size :: "u16 \<Rightarrow> queue \<Rightarrow> (queue, queue_error) result" where
  "try_set_size sz q =
     (if q_max_size q < sz \<or> sz = 0 \<or> and sz (sz - 1) \<noteq> 0 then Err InvalidSize else Ok (q\<lparr>q_size := sz\<rparr>))"

definition try_set_desc_table_address :: "u64 \<Rightarrow> queue \<Rightarrow> (queue, queue_error) result" where
  "try_set_desc_table_address a q =
     (if addr_mask a 0xf \<noteq> 0 then Err InvalidDescTableAlign else Ok (q\<lparr>q_desc_table := a\<rparr>))"

definition try_set_avail_ring_address :: "u64 \<Rightarrow> queue \<Rightarrow> (queue, queue_error) result" where
  "try_set_avail_ring_address a q =
     (if addr_mask a 0x1 \<noteq> 0 then Err InvalidAvailRingAlign else Ok (q\<lparr>q_avail_ring := a\<rparr>))"

definition try_set_used_ring_address :: "u64 \<Rightarrow> queue \<Rightarrow> (queue, queue_error) result" where
  "try_set_used_ring_address a q =
     (if addr_mask a 0x3 \<noteq> 0 then Err InvalidUsedRingAlign else Ok (q\<lparr>q_used_ring := a\<rparr>))"

definition queue_new :: "u16 \<Rightarrow> (queue, queue_error) result" where
  "queue_new max_size =
     (if max_size = 0 \<or> MAX_QUEUE_SIZE < max_size \<or> and max_size (max_size - 1) \<noteq> 0 then Err InvalidMaxSize
      else Ok \<lparr>q_max_size = max_size, q_next_avail = 0, q_next_used = 0, q_event_idx_enabled = False,
               q_num_added = 0, q_size = max_size, q_ready = False, q_desc_table = DEFAULT_DESC_TABLE_ADDR,
               q_avail_ring = DEFAULT_AVAIL_RING_ADDR, q_used_ring = DEFAULT_USED_RING_ADDR\<rparr>)"

definition is_valid :: "gmem \<Rightarrow> queue \<Rightarrow> bool" where
  "is_valid mem q =
     (let queue_size = ucast (q_size q);
          desc_table_size = 16 * queue_size;
          avail_ring_size = VIRTQ_AVAIL_RING_META_SIZE + VIRTQ_AVAIL_ELEMENT_SIZE * queue_size;
          used_ring_size = VIRTQ_USED_RING_META_SIZE + VIRTQ_USED_ELEMENT_SIZE * queue_size in
      if \<not> q_ready q then False
      else if \<not> gm_check_range mem (q_desc_table q) (unat desc_table_size) then False
      else if \<not> gm_check_range mem (q_avail_ring q) (unat avail_ring_size) then False
      else if \<not> gm_check_range mem (q_used_ring q) (unat used_ring_size) then False
      else True)"

definition queue_reset :: "queue \<Rightarrow> queue" where
  "queue_reset q =
     q\<lparr>q_ready := False, q_size := q_max_size q, q_desc_table := DEFAULT_DESC_TABLE_ADDR,
       q_avail_ring := DEFAULT_AVAIL_RING_ADDR, q_used_ring := DEFAULT_USED_RING_ADDR, q_next_avail := 0,
       q_next_used := 0, q_num_added := 0, q_event_idx_enabled := False\<rparr>"

text \<open>Setters of the driver interface drop an invalid value and log it.\<close>

definition keep_if_err :: "(queue \<Rightarrow> (queue, queue_error) result) \<Rightarrow> queue \<Rightarrow> queue" where
  "keep_if_err f q = (case f q of Ok q' \<Rightarrow> q' | _ \<Rightarrow> q)"

definition set_size :: "u16 \<Rightarrow> queue \<Rightarrow> queue" where
  "set_size sz = keep_if_err (try_set_size sz)"

definition set_ready :: "bool \<Rightarrow> queue \<Rightarrow> queue" where
  "set_ready r q = q\<lparr>q_ready := r\<rparr>"

definition set_event_idx :: "bool \<Rightarrow> queue \<Rightarrow> queue" where
  "set_event_idx e q = q\<lparr>q_event_idx_enabled := e\<rparr>"

definition set_next_avail :: "u16 \<Rightarrow> queue \<Rightarrow> queue" where
  "set_next_avail i q = q\<lparr>q_next_avail := i\<rparr>"

definition set_next_used :: "u16 \<Rightarrow> queue \<Rightarrow> queue" where
  "set_next_used i q = q\<lparr>q_next_used := i\<rparr>"

definition unwrap_or :: "'a option \<Rightarrow> 'a \<Rightarrow> 'a" where
  "unwrap_or x d = (case x of Some y \<Rightarrow> y | None \<Rightarrow> d)"

definition join_address :: "u64 \<Rightarrow> u32 option \<Rightarrow> u32 option \<Rightarrow> u64" where
  "join_address old low high =
     (let low = ucast (unwrap_or low (ucast old)); high = ucast (unwrap_or high (ucast (drop_bit 32 old))) in
      or (push_bit 32 high) low)"

definition set_desc_table_address :: "u32 option \<Rightarrow> u32 option \<Rightarrow> queue \<Rightarrow> queue" where
  "set_desc_table_address low high q =
     keep_if_err (try_set_desc_table_address (join_address (q_desc_table q) low high)) q"

definition set_avail_ring_address :: "u32 option \<Rightarrow> u32 option \<Rightarrow> queue \<Rightarrow> queue" where
  "set_avail_ring_address low high q =
     keep_if_err (try_set_avail_ring_address (join_address (q_avail_ring q) low high)) q"

definition set_used_ring_address :: "u32 option \<Rightarrow> u32 option \<Rightarrow> queue \<Rightarrow> queue" where
  "set_used_ring_address low high q =
     keep_if_err (try_set_used_ring_address (join_address (q_used_ring q) low high)) q"

definition go_to_previous_position :: "queue \<Rightarrow> queue" where
  "go_to_previous_position q = q\<lparr>q_next_avail := q_next_avail q - 1\<rparr>"

record queue_state =
  qs_max_size :: u16
  qs_next_avail :: u16
  qs_next_used :: u16
  qs_event_idx_enabled :: bool
  qs_size :: u16
  qs_ready :: bool
  qs_desc_table :: u64
  qs_avail_ring :: u64
  qs_used_ring :: u64

definition queue_save :: "queue \<Rightarrow> queue_state" where
  "queue_save q =
     \<lparr>qs_max_size = q_max_size q, qs_next_avail = q_next_avail q, qs_next_used = q_next_used q,
      qs_event_idx_enabled = q_event_idx_enabled q, qs_size = q_size q, qs_ready = q_ready q,
      qs_desc_table = q_desc_table q, qs_avail_ring = q_avail_ring q, qs_used_ring = q_used_ring q\<rparr>"

definition queue_try_from :: "queue_state \<Rightarrow> (queue, queue_error) result" where
  "queue_try_from s =
     rbind (queue_new (qs_max_size s)) (\<lambda>q.
     let q = set_event_idx (qs_event_idx_enabled s) (set_next_used (qs_next_used s) (set_next_avail (qs_next_avail s) q)) in
     rbind (try_set_size (qs_size s) q) (\<lambda>q.
     let q = set_ready (qs_ready s) q in
     rbind (try_set_desc_table_address (qs_desc_table s) q) (\<lambda>q.
     rbind (try_set_avail_ring_address (qs_avail_ring s) q) (\<lambda>q.
     try_set_used_ring_address (qs_used_ring s) q))))"

section \<open>Rings in guest memory (queue.rs)\<close>

text \<open>Atomic 16-bit accesses; memory ordering has no effect on a single thread.\<close>

definition load_u16 :: "u64 \<Rightarrow> gmem \<Rightarrow> (u16, queue_error) result" where
  "load_u16 a mem = map_err QGuestMemory (rbind (gm_load 2 a mem) (\<lambda>bs. Ok (of_le_bytes bs)))"

definition store_u16 :: "u16 \<Rightarrow> u64 \<Rightarrow> (gmem, unit, queue_error) act" where
  "store_u16 v a mem = (let (r, mem') = gm_store (le_bytes 2 v) a mem in (map_err QGuestMemory r, mem'))"

definition set_avail_event :: "queue \<Rightarrow> u16 \<Rightarrow> (gmem, unit, queue_error) act" where
  "set_avail_event q v =
     (let avail_event_offset = VIRTQ_USED_RING_HEADER_SIZE + VIRTQ_USED_ELEMENT_SIZE * ucast (q_size q) in
      abind (alift (ok_or (checked_add (q_used_ring q) avail_event_offset) AddressOverflow)) (store_u16 v))"

definition set_used_flags :: "queue \<Rightarrow> u16 \<Rightarrow> (gmem, unit, queue_error) act" where
  "set_used_flags q v = store_u16 v (q_used_ring q)"

definition set_notification :: "queue \<Rightarrow> bool \<Rightarrow> (gmem, unit, queue_error) act" where
  "set_notification q enable =
     (if enable then
        if q_event_idx_enabled q then set_avail_event q (q_next_avail q) else set_used_flags q 0
      else if \<not> q_event_idx_enabled q then set_used_flags q VRING_USED_F_NO_NOTIFY
      else alift (Ok ()))"

definition used_event :: "queue \<Rightarrow> gmem \<Rightarrow> (u16, queue_error) result" where
  "used_event q mem =
     (let used_event_offset = VIRTQ_AVAIL_RING_HEADER_SIZE + ucast (q_size q) * VIRTQ_AVAIL_ELEMENT_SIZE in
      rbind (ok_or (checked_add (q_avail_ring q) used_event_offset) AddressOverflow) (\<lambda>a. load_u16 a mem))"

definition avail_idx :: "queue \<Rightarrow> gmem \<Rightarrow> (u16, queue_error) result" where
  "avail_idx q mem = rbind (ok_or (checked_add (q_avail_ring q) 2) AddressOverflow) (\<lambda>a. load_u16 a mem)"

definition used_idx :: "queue \<Rightarrow> gmem \<Rightarrow> (u16, queue_error) result" where
  "used_idx q mem = rbind (ok_or (checked_add (q_used_ring q) 2) AddressOverflow) (\<lambda>a. load_u16 a mem)"

text \<open>An action on the memory, run on a queue and the memory.\<close>

definition on_memory :: "(gmem, 'a, 'e) act \<Rightarrow> (queue \<times> gmem, 'a, 'e) act" where
  "on_memory f s = (let (r, mem') = f (snd s) in (r, fst s, mem'))"

definition add_used :: "u16 \<Rightarrow> u32 \<Rightarrow> (queue \<times> gmem, unit, queue_error) act" where
  "add_used head_index len s =
     (let q = fst s in
      if q_size q \<le> head_index then (Err InvalidDescriptorIndex, s)
      else let next_used_index = ucast (q_next_used q mod q_size q);
               off = VIRTQ_USED_RING_HEADER_SIZE + next_used_index * VIRTQ_USED_ELEMENT_SIZE in
        abind (alift (ok_or (checked_add (q_used_ring q) off) AddressOverflow)) (\<lambda>addr.
        abind (on_memory (\<lambda>mem. let (r, mem') = gm_write_obj (used_elem_bytes (ucast head_index) len) addr mem
                                in (map_err QGuestMemory r, mem'))) (\<lambda>_.
        \<lambda>(q, mem). let q = q\<lparr>q_next_used := q_next_used q + 1, q_num_added := q_num_added q + 1\<rparr> in
          abind (alift (ok_or (checked_add (q_used_ring q) 2) AddressOverflow)) (\<lambda>addr.
            on_memory (store_u16 (q_next_used q) addr)) (q, mem))) s)"

definition enable_notification :: "(queue \<times> gmem, bool, queue_error) act" where
  "enable_notification s =
     abind (on_memory (set_notification (fst s) True)) (\<lambda>_. \<lambda>(q, mem).
       (rbind (avail_idx q mem) (\<lambda>idx. Ok (idx \<noteq> q_next_avail q)), (q, mem))) s"

definition disable_notification :: "(queue \<times> gmem, unit, queue_error) act" where
  "disable_notification s = on_memory (set_notification (fst s) False) s"

definition needs_notification :: "gmem \<Rightarrow> (queue, bool, queue_error) act" where
  "needs_notification mem q =
     (let used = q_next_used q in
      if q_event_idx_enabled q then
        abind (alift (used_event q mem)) (\<lambda>ev. \<lambda>q.
          let old = used - q_num_added q; q = q\<lparr>q_num_added := 0\<rparr> in
          (Ok (used - ev - 1 < used - old), q)) q
      else (Ok True, q))"

record avail_iter =
  ai_desc_table :: u64
  ai_avail_ring :: u64
  ai_queue_size :: u16
  ai_last_index :: u16

definition avail_iter_new :: "u16 \<Rightarrow> queue \<Rightarrow> (avail_iter, queue_error) result" where
  "avail_iter_new idx q =
     (if q_size q < idx - q_next_avail q then Err InvalidAvailRingIndex
      else Ok \<lparr>ai_desc_table = q_desc_table q, ai_avail_ring = q_avail_ring q, ai_queue_size = q_size q,
               ai_last_index = idx\<rparr>)"

definition queue_iter :: "gmem \<Rightarrow> queue \<Rightarrow> (avail_iter, queue_error) result" where
  "queue_iter mem q =
     (if \<not> q_ready q \<or> q_avail_ring q = 0 then Err QueueNotReady
      else rbind (avail_idx q mem) (\<lambda>idx. avail_iter_new idx q))"

definition checked_rem :: "'a::len word \<Rightarrow> 'a word \<Rightarrow> 'a word option" where
  "checked_rem a b = (if b = 0 then None else Some (a mod b))"

text \<open>The iterator borrows \<open>next_avail\<close> of the queue, which is its state.\<close>

definition avail_iter_next :: "gmem \<Rightarrow> avail_iter \<Rightarrow> u16 \<Rightarrow> chain option \<times> u16" where
  "avail_iter_next mem it next_avail =
     (if next_avail = ai_last_index it then (None, next_avail)
      else case Option.bind (checked_rem next_avail (ai_queue_size it)) (\<lambda>x.
             let off = VIRTQ_AVAIL_RING_HEADER_SIZE + ucast x * VIRTQ_AVAIL_ELEMENT_SIZE in
             Option.bind (checked_add (ai_avail_ring it) off) (\<lambda>addr. result_ok (load_u16 addr mem))) of
          None \<Rightarrow> (None, next_avail)
        | Some head_index \<Rightarrow>
            (Some (chain_new (ai_desc_table it) (ai_queue_size it) head_index), next_avail + 1))"

definition pop_descriptor_chain :: "gmem \<Rightarrow> queue \<Rightarrow> chain option \<times> queue" where
  "pop_descriptor_chain mem q =
     (case queue_iter mem q of
        Ok it \<Rightarrow> (let (c, i) = avail_iter_next mem it (q_next_avail q) in (c, q\<lparr>q_next_avail := i\<rparr>))
      | _ \<Rightarrow> (None, q))"

end
