(* ===== verification/VirtRings.thy ===== *)
theory VirtRings
  imports VirtQueue
begin

text \<open>
  Facts about virtqueues: what a walk of a descriptor chain yields, the configurations a queue can
  reach, and the effect of the ring operations on guest memory.
\<close>

section \<open>Descriptors as bytes\<close>

lemma length_descriptor_bytes [simp]: "length (descriptor_bytes d) = 16"
  by (simp add: descriptor_bytes_def)

lemma descriptor_of_descriptor_bytes: "descriptor_of_bytes (descriptor_bytes d) = d"
  by (simp add: descriptor_of_bytes_def descriptor_bytes_def of_le_le_bytes)

section \<open>Chains follow the tables\<close>

text \<open>
  Descriptors read from one table: from index \<open>i\<close> on, following \<open>next\<close> for at most \<open>n\<close> steps.
\<close>

fun table_walk :: "(u16 \<Rightarrow> descriptor option) \<Rightarrow> u16 \<Rightarrow> nat \<Rightarrow> u16 \<Rightarrow> descriptor list" where
  "table_walk tab sz 0 i = []"
| "table_walk tab sz (Suc n) i =
     (if i < sz then case tab i of
          None \<Rightarrow> []
        | Some d \<Rightarrow> d # (if has_next d then table_walk tab sz n (d_next d) else [])
      else [])"

text \<open>The longest prefix with fewer than \<open>2 ^ 32\<close> bytes.\<close>

fun within :: "nat \<Rightarrow> descriptor list \<Rightarrow> descriptor list" where
  "within acc [] = []"
| "within acc (d # ds) = (if acc + unat (d_len d) < 2 ^ 32 then d # within (acc + unat (d_len d)) ds else [])"

abbreviation direct :: "descriptor \<Rightarrow> bool" where
  "direct d \<equiv> \<not> refers_to_indirect_table d"

definition indirect_ok :: "descriptor \<Rightarrow> bool" where
  "indirect_ok d \<longleftrightarrow> unat (d_len d) mod 16 = 0 \<and> unat (d_len d) div 16 < 2 ^ 16"

definition indirect_walk :: "gmem \<Rightarrow> descriptor \<Rightarrow> descriptor list" where
  "indirect_walk mem d =
     (let n = unat (d_len d) div 16 in
      if indirect_ok d then takeWhile direct (table_walk (desc_at mem (d_addr d)) (of_nat n) n 0) else [])"

text \<open>A walk of the main table up to an indirect descriptor, whose own table continues it.\<close>

definition chain_walk :: "gmem \<Rightarrow> descriptor list \<Rightarrow> descriptor list" where
  "chain_walk mem ds =
     takeWhile direct ds @ (case dropWhile direct ds of [] \<Rightarrow> [] | d # _ \<Rightarrow> indirect_walk mem d)"

lemma word_pred: "x \<noteq> 0 \<Longrightarrow> unat x = Suc (unat (x - 1))" for x :: u16
  using unat_gt_0 [of x] by (simp add: unat_minus_one)

lemma checked_add_u32: "checked_add x y = (if unat x + unat y < 2 ^ 32 then Some (x + y) else None)" for x y :: u32
  by (simp add: checked_add_def)

lemma chain_descs_stop:
  "dc_ttl c = 0 \<or> dc_queue_size c \<le> dc_next_index c \<or> desc_at mem (dc_desc_table c) (dc_next_index c) = None \<Longrightarrow>
     chain_descs mem c = []"
  by (auto simp: chain_descs.simps [of mem c] chain_next.simps [of mem c])

lemma chain_descs_direct:
  assumes "dc_ttl c \<noteq> 0" "dc_next_index c < dc_queue_size c"
    and "desc_at mem (dc_desc_table c) (dc_next_index c) = Some d" "direct d"
  shows "chain_descs mem c =
    (if unat (dc_yielded_bytes c) + unat (d_len d) < 2 ^ 32
     then d # chain_descs mem (let c = c\<lparr>dc_yielded_bytes := dc_yielded_bytes c + d_len d\<rparr> in
       if has_next d then c\<lparr>dc_next_index := d_next d, dc_ttl := dc_ttl c - 1\<rparr> else c\<lparr>dc_ttl := 0\<rparr>)
     else [])"
  using assms assms(2) [folded linorder_not_le]
  by (simp add: chain_descs.simps [of mem c] chain_next.simps [of mem c] checked_add_u32 Let_def)

lemma chain_descs_indirect:
  assumes "dc_ttl c \<noteq> 0" "dc_next_index c < dc_queue_size c"
    and "desc_at mem (dc_desc_table c) (dc_next_index c) = Some d" "\<not> direct d"
  shows "chain_descs mem c =
    (case switch_to_indirect_table d c of Ok c' \<Rightarrow> chain_descs mem c' | _ \<Rightarrow> [])"
  using assms assms(2) [folded linorder_not_le]
  by (cases "switch_to_indirect_table d c")
    (simp_all add: chain_descs.simps chain_next.simps [of mem c])

lemma and_15: "and x 15 = x mod 16" for x :: u32
proof -
  have "and x (mask 4) = take_bit 4 x" by (simp add: take_bit_eq_mask)
  moreover have "(mask 4 :: u32) = 15" by (simp add: mask_eq_exp_minus_1)
  moreover have "take_bit 4 x = x mod 16" by (simp add: take_bit_eq_mod)
  ultimately show ?thesis by simp
qed

lemma switch_eq:
  assumes "\<not> dc_is_indirect c"
  shows "switch_to_indirect_table d c =
    (let n = unat (d_len d) div 16 in
     if indirect_ok d
     then Ok (c\<lparr>dc_desc_table := d_addr d, dc_queue_size := of_nat n, dc_next_index := 0, dc_ttl := of_nat n,
                dc_is_indirect := True\<rparr>)
     else Err InvalidIndirectDescriptorTable)"
proof -
  have al: "and (d_len d) 15 = 0 \<longleftrightarrow> unat (d_len d) mod 16 = 0"
    unfolding and_15 by (simp add: unat_eq_0 [symmetric] unat_mod_distrib)
  have dv: "unat (d_len d div 16) = unat (d_len d) div 16" by (simp add: unat_div_distrib)
  have small: "0xFFFF < d_len d div 16 \<longleftrightarrow> \<not> unat (d_len d) div 16 < 2 ^ 16"
    unfolding word_less_nat_alt dv by auto
  have "ucast (d_len d div 16) = (of_nat (unat (d_len d) div 16) :: u16)"
    by (simp add: unsigned_ucast_eq flip: dv)
  then show ?thesis
    using assms by (simp add: switch_to_indirect_table_def VRING_DESC_ALIGN_SIZE_def al small Let_def indirect_ok_def)
qed

lemma chain_descs_in_indirect:
  assumes "dc_is_indirect c"
  shows "chain_descs mem c = within (unat (dc_yielded_bytes c)) (takeWhile direct
    (table_walk (desc_at mem (dc_desc_table c)) (dc_queue_size c) (unat (dc_ttl c)) (dc_next_index c)))"
  using assms
proof (induction "unat (dc_ttl c)" arbitrary: c)
  case 0
  then show ?case by (simp add: chain_descs_stop unat_eq_0)
next
  case (Suc n)
  have ttl: "dc_ttl c \<noteq> 0" "unat (dc_ttl c - 1) = n" using Suc(2) word_pred [of "dc_ttl c"] by fastforce+
  show ?case
  proof (cases "dc_next_index c < dc_queue_size c")
    case idx: True
    show ?thesis
    proof (cases "desc_at mem (dc_desc_table c) (dc_next_index c)")
      case (Some d)
      show ?thesis
      proof (cases "direct d")
        case True
        have y: "unat (dc_yielded_bytes c + d_len d) = unat (dc_yielded_bytes c) + unat (d_len d)"
          if "unat (dc_yielded_bytes c) + unat (d_len d) < 2 ^ 32"
          using that by (simp add: unat_word_ariths)
        show ?thesis
          unfolding chain_descs_direct [OF ttl(1) idx Some True]
          using Suc(1) [of "c\<lparr>dc_yielded_bytes := dc_yielded_bytes c + d_len d, dc_next_index := d_next d,
              dc_ttl := dc_ttl c - 1\<rparr>"] ttl(2) Suc(3) y idx Some True
          by (simp add: chain_descs_stop Let_def flip: Suc(2))
      next
        case False
        then show ?thesis
          unfolding chain_descs_indirect [OF ttl(1) idx Some False]
          using Suc(3) idx Some by (simp add: switch_to_indirect_table_def flip: Suc(2))
      qed
    qed (simp add: chain_descs_stop flip: Suc(2))
  qed (simp add: chain_descs_stop leI flip: Suc(2))
qed

lemma chain_descs_eq:
  assumes "\<not> dc_is_indirect c"
  shows "chain_descs mem c = within (unat (dc_yielded_bytes c)) (chain_walk mem
    (table_walk (desc_at mem (dc_desc_table c)) (dc_queue_size c) (unat (dc_ttl c)) (dc_next_index c)))"
  using assms
proof (induction "unat (dc_ttl c)" arbitrary: c)
  case 0
  then show ?case by (simp add: chain_descs_stop unat_eq_0 chain_walk_def)
next
  case (Suc n)
  have ttl: "dc_ttl c \<noteq> 0" "unat (dc_ttl c - 1) = n" using Suc(2) word_pred [of "dc_ttl c"] by fastforce+
  show ?case
  proof (cases "dc_next_index c < dc_queue_size c")
    case idx: True
    show ?thesis
    proof (cases "desc_at mem (dc_desc_table c) (dc_next_index c)")
      case (Some d)
      show ?thesis
      proof (cases "direct d")
        case True
        have y: "unat (dc_yielded_bytes c + d_len d) = unat (dc_yielded_bytes c) + unat (d_len d)"
          if "unat (dc_yielded_bytes c) + unat (d_len d) < 2 ^ 32"
          using that by (simp add: unat_word_ariths)
        show ?thesis
          unfolding chain_descs_direct [OF ttl(1) idx Some True]
          using Suc(1) [of "c\<lparr>dc_yielded_bytes := dc_yielded_bytes c + d_len d, dc_next_index := d_next d,
              dc_ttl := dc_ttl c - 1\<rparr>"] ttl(2) Suc(3) y idx Some True
          by (simp add: chain_descs_stop Let_def chain_walk_def flip: Suc(2))
      next
        case False
        have n: "unat (of_nat (unat (d_len d) div 16) :: u16) = unat (d_len d) div 16" if "indirect_ok d"
          using that by (simp add: indirect_ok_def unat_of_nat)
        show ?thesis
          unfolding chain_descs_indirect [OF ttl(1) idx Some False]
          using Suc(3) idx Some False n
          by (simp add: switch_eq chain_descs_in_indirect chain_walk_def indirect_walk_def Let_def flip: Suc(2))
      qed
    qed (simp add: chain_descs_stop chain_walk_def flip: Suc(2))
  qed (simp add: chain_descs_stop chain_walk_def leI flip: Suc(2))
qed

lemma rw_descs_filter: "rw_descs mem w c = filter (\<lambda>d. is_write_only d = w) (chain_descs mem c)"
proof (induction mem c rule: chain_descs.induct)
  case (1 mem c)
  obtain x c' where n: "chain_next mem c = (x, c')" by (cases "chain_next mem c")
  show ?case
  proof (cases x)
    case None
    then show ?thesis
      using n by (simp add: chain_descs.simps [of mem c] rw_descs.simps [of mem w c] rw_next.simps [of mem w c])
  next
    case (Some d)
    have ih: "rw_descs mem w c' = filter (\<lambda>d. is_write_only d = w) (chain_descs mem c')"
      using 1 n Some by auto
    show ?thesis
    proof (cases "is_write_only d = w")
      case True
      then show ?thesis
        using n Some ih
        by (simp add: chain_descs.simps [of mem c] rw_descs.simps [of mem w c] rw_next.simps [of mem w c])
    next
      case False
      then have "rw_next mem w c = rw_next mem w c'" using n Some by (simp add: rw_next.simps [of mem w c])
      then have "rw_descs mem w c = rw_descs mem w c'" by (simp add: rw_descs.simps [of mem w c] rw_descs.simps [of mem w c'])
      then show ?thesis using n Some ih False by (simp add: chain_descs.simps [of mem c])
    qed
  qed
qed

lemma length_table_walk: "length (table_walk tab sz n i) \<le> n"
  by (induction tab sz n i rule: table_walk.induct) (auto split: option.split)

lemma length_within: "length (within acc ds) \<le> length ds"
  by (induction ds arbitrary: acc) auto

lemma within_bytes: "acc < 2 ^ 32 \<Longrightarrow> acc + sum_list (map (\<lambda>d. unat (d_len d)) (within acc ds)) < 2 ^ 32"
proof (induction ds arbitrary: acc)
  case (Cons d ds)
  then show ?case using Cons.IH [of "acc + unat (d_len d)"] by (simp add: add.assoc)
qed simp

lemma set_within: "set (within acc ds) \<subseteq> set ds"
  by (induction ds arbitrary: acc) auto

lemma chain_walk_direct: "d \<in> set (chain_walk mem ds) \<Longrightarrow> direct d"
  by (auto simp: chain_walk_def indirect_walk_def Let_def dest: set_takeWhileD split: list.splits if_splits)

lemma length_chain_walk: "length (chain_walk mem ds) \<le> length ds + 0xFFFF"
proof -
  have "length (indirect_walk mem d) \<le> 0xFFFF" for d
  proof (cases "indirect_ok d")
    case True
    have "length (takeWhile direct (table_walk (desc_at mem (d_addr d)) sz n 0)) \<le> n" for sz n
      using length_takeWhile_le length_table_walk by (rule le_trans)
    then have "length (indirect_walk mem d) \<le> unat (d_len d) div 16" using True by (simp add: indirect_walk_def Let_def)
    then show ?thesis using True by (simp add: indirect_ok_def)
  qed (simp add: indirect_walk_def)
  moreover have "length (takeWhile direct ds) \<le> length ds" by (rule length_takeWhile_le)
  ultimately show ?thesis
    by (auto simp: chain_walk_def add_mono split: list.split)
qed

section \<open>Powers of two and alignment\<close>

lemma and_pred_nat: "0 < m \<Longrightarrow> and m (m - 1) = 0 \<longleftrightarrow> (\<exists>n. m = 2 ^ n)" for m :: nat
proof (induction m rule: less_induct)
  case (less m)
  show ?case
  proof (cases "even m")
    case True
    then obtain j where j: "m = 2 * j" by blast
    then have "0 < j" using less(2) by simp
    then have "(m - 1) div 2 = j - 1" "odd (m - 1)" using j by auto
    then have "and m (m - 1) = 2 * and j (j - 1)" using j by (subst and_rec) simp
    moreover have "(\<exists>n. m = 2 ^ n) \<longleftrightarrow> (\<exists>n. j = 2 ^ n)"
    proof
      assume "\<exists>n. m = 2 ^ n"
      then obtain n where "m = 2 ^ n" by blast
      moreover have "n \<noteq> 0" using True \<open>m = 2 ^ n\<close> by (cases n) auto
      ultimately have "j = 2 ^ (n - 1)" using j by (cases n) auto
      then show "\<exists>n. j = 2 ^ n" by blast
    next
      assume "\<exists>n. j = 2 ^ n"
      then show "\<exists>n. m = 2 ^ n" using j by (metis power_Suc)
    qed
    ultimately show ?thesis using less(1) [of j] \<open>0 < j\<close> j by auto
  next
    case False
    then obtain j where j: "m = 2 * j + 1" by (rule oddE)
    then have "and m (m - 1) = 2 * j" by (subst and_rec) simp
    moreover have "(\<exists>n. m = 2 ^ n) \<longleftrightarrow> j = 0"
    proof
      assume "\<exists>n. m = 2 ^ n"
      then obtain n where "m = 2 ^ n" by blast
      then have "n = 0" using False by (cases n) auto
      then show "j = 0" using \<open>m = 2 ^ n\<close> j by simp
    next
      assume "j = 0"
      then have "m = 2 ^ 0" using j by simp
      then show "\<exists>n. m = 2 ^ n" by blast
    qed
    ultimately show ?thesis by simp
  qed
qed

lemma power_of_two_test:
  fixes x :: "'a::len word"
  assumes "x \<noteq> 0"
  shows "and x (x - 1) = 0 \<longleftrightarrow> (\<exists>n. unat x = 2 ^ n)"
proof -
  have "unat (and x (x - 1)) = and (unat x) (unat x - 1)"
    using assms by (simp add: unsigned_and_eq unat_minus_one)
  moreover have "0 < unat x" using assms by (simp add: unat_gt_0)
  ultimately show ?thesis using and_pred_nat [of "unat x"] by (simp add: unat_eq_0 [symmetric])
qed

lemma unat_mask_aligned:
  fixes a :: u64
  shows "addr_mask a (2 ^ k - 1) = 0 \<longleftrightarrow> 2 ^ k dvd unat a"
proof -
  have "addr_mask a (2 ^ k - 1) = take_bit k a"
    by (simp add: addr_mask_def take_bit_eq_mask mask_eq_exp_minus_1)
  moreover have "unat (take_bit k a) = take_bit k (unat a)" by (simp add: unsigned_take_bit_eq)
  ultimately show ?thesis by (simp add: unat_eq_0 [symmetric] take_bit_eq_mod dvd_eq_mod_eq_0)
qed

lemma aligned_iffs:
  fixes a :: u64
  shows "addr_mask a 0xf = 0 \<longleftrightarrow> 16 dvd unat a" "addr_mask a 0x1 = 0 \<longleftrightarrow> 2 dvd unat a"
    "addr_mask a 0x3 = 0 \<longleftrightarrow> 4 dvd unat a"
  using unat_mask_aligned [of a 4] unat_mask_aligned [of a 1] unat_mask_aligned [of a 2] by simp_all

section \<open>Configurations of the queue\<close>

text \<open>What the setters guarantee: sizes are powers of two within the limits, addresses are aligned.\<close>

definition size_ok :: "u16 \<Rightarrow> u16 \<Rightarrow> bool" where
  "size_ok limit sz \<longleftrightarrow> sz \<le> limit \<and> (\<exists>n. unat sz = 2 ^ n)"

definition queue_ok :: "queue \<Rightarrow> bool" where
  "queue_ok q \<longleftrightarrow> size_ok MAX_QUEUE_SIZE (q_max_size q) \<and> size_ok (q_max_size q) (q_size q) \<and>
     16 dvd unat (q_desc_table q) \<and> 2 dvd unat (q_avail_ring q) \<and> 4 dvd unat (q_used_ring q)"

lemma size_ok_iff: "size_ok limit sz \<longleftrightarrow> \<not> (limit < sz \<or> sz = 0 \<or> and sz (sz - 1) \<noteq> 0)"
  using power_of_two_test [of sz] by (cases "sz = 0") (auto simp: size_ok_def not_less)

lemma setters:
  "try_set_size sz q = (if size_ok (q_max_size q) sz then Ok (q\<lparr>q_size := sz\<rparr>) else Err InvalidSize)"
  "try_set_desc_table_address a q =
     (if 16 dvd unat a then Ok (q\<lparr>q_desc_table := a\<rparr>) else Err InvalidDescTableAlign)"
  "try_set_avail_ring_address a q =
     (if 2 dvd unat a then Ok (q\<lparr>q_avail_ring := a\<rparr>) else Err InvalidAvailRingAlign)"
  "try_set_used_ring_address a q =
     (if 4 dvd unat a then Ok (q\<lparr>q_used_ring := a\<rparr>) else Err InvalidUsedRingAlign)"
  by (auto simp: try_set_size_def size_ok_iff try_set_desc_table_address_def try_set_avail_ring_address_def
      try_set_used_ring_address_def aligned_iffs)

lemma queue_new_eq:
  "queue_new m = (if size_ok MAX_QUEUE_SIZE m
     then Ok \<lparr>q_max_size = m, q_next_avail = 0, q_next_used = 0, q_event_idx_enabled = False, q_num_added = 0,
              q_size = m, q_ready = False, q_desc_table = 0, q_avail_ring = 0, q_used_ring = 0\<rparr>
     else Err InvalidMaxSize)"
  by (auto simp: queue_new_def size_ok_iff DEFAULT_DESC_TABLE_ADDR_def DEFAULT_AVAIL_RING_ADDR_def DEFAULT_USED_RING_ADDR_def)

lemma queue_new_ok: "queue_new m = Ok q \<Longrightarrow> queue_ok q"
  by (auto simp: queue_new_eq queue_ok_def size_ok_def split: if_splits)

lemma queue_try_from_eq:
  "queue_try_from s =
     (if \<not> size_ok MAX_QUEUE_SIZE (qs_max_size s) then Err InvalidMaxSize
      else if \<not> size_ok (qs_max_size s) (qs_size s) then Err InvalidSize
      else if \<not> 16 dvd unat (qs_desc_table s) then Err InvalidDescTableAlign
      else if \<not> 2 dvd unat (qs_avail_ring s) then Err InvalidAvailRingAlign
      else if \<not> 4 dvd unat (qs_used_ring s) then Err InvalidUsedRingAlign
      else Ok \<lparr>q_max_size = qs_max_size s, q_next_avail = qs_next_avail s, q_next_used = qs_next_used s,
               q_event_idx_enabled = qs_event_idx_enabled s, q_num_added = 0, q_size = qs_size s, q_ready = qs_ready s,
               q_desc_table = qs_desc_table s, q_avail_ring = qs_avail_ring s, q_used_ring = qs_used_ring s\<rparr>)"
  by (simp add: queue_try_from_def queue_new_eq setters set_ready_def set_event_idx_def set_next_avail_def
      set_next_used_def Let_def)

text \<open>Every operation on the queue.\<close>

datatype queue_op =
  SetSize u16 | SetReady bool | SetEventIdx bool | SetNextAvail u16 | SetNextUsed u16
| SetDescTable "u32 option" "u32 option" | SetAvailRing "u32 option" "u32 option"
| SetUsedRing "u32 option" "u32 option" | Reset | GoBack | Pop | AddUsed u16 u32 | NeedsNotification
| EnableNotification | DisableNotification | SaveRestore

primrec queue_step :: "queue_op \<Rightarrow> queue \<times> gmem \<Rightarrow> queue \<times> gmem" where
  "queue_step (SetSize n) s = (set_size n (fst s), snd s)"
| "queue_step (SetReady b) s = (set_ready b (fst s), snd s)"
| "queue_step (SetEventIdx b) s = (set_event_idx b (fst s), snd s)"
| "queue_step (SetNextAvail i) s = (set_next_avail i (fst s), snd s)"
| "queue_step (SetNextUsed i) s = (set_next_used i (fst s), snd s)"
| "queue_step (SetDescTable l h) s = (set_desc_table_address l h (fst s), snd s)"
| "queue_step (SetAvailRing l h) s = (set_avail_ring_address l h (fst s), snd s)"
| "queue_step (SetUsedRing l h) s = (set_used_ring_address l h (fst s), snd s)"
| "queue_step Reset s = (queue_reset (fst s), snd s)"
| "queue_step GoBack s = (go_to_previous_position (fst s), snd s)"
| "queue_step Pop s = (snd (pop_descriptor_chain (snd s) (fst s)), snd s)"
| "queue_step (AddUsed h n) s = snd (add_used h n s)"
| "queue_step NeedsNotification s = (snd (needs_notification (snd s) (fst s)), snd s)"
| "queue_step EnableNotification s = snd (enable_notification s)"
| "queue_step DisableNotification s = snd (disable_notification s)"
| "queue_step SaveRestore s = ((case queue_try_from (queue_save (fst s)) of Ok q \<Rightarrow> q | _ \<Rightarrow> fst s), snd s)"

text \<open>The part of the queue that only the setters change.\<close>

definition config :: "queue \<Rightarrow> u16 \<times> u16 \<times> u64 \<times> u64 \<times> u64" where
  "config q = (q_max_size q, q_size q, q_desc_table q, q_avail_ring q, q_used_ring q)"

lemma queue_ok_config: "config q' = config q \<Longrightarrow> queue_ok q \<Longrightarrow> queue_ok q'"
  by (simp add: config_def queue_ok_def)

lemma on_memory_fst [simp]: "fst (snd (on_memory f s)) = fst s"
  by (simp add: on_memory_def split: prod.split)

lemma add_used_config: "config (fst (snd (add_used h n s))) = config (fst s)"
proof -
  have sub: "config (fst (snd (abind f g s))) = config (fst s)"
    if "\<And>s. config (fst (snd (f s))) = config (fst s)" "\<And>x s. config (fst (snd (g x s))) = config (fst s)"
    for f :: "(queue \<times> gmem, 'b, queue_error) act" and g :: "'b \<Rightarrow> (queue \<times> gmem, unit, queue_error) act" and s
    using that(1) [of s] that(2) by (auto simp: abind_def split: prod.splits result.splits)
  have bump: "config (q\<lparr>q_next_used := u, q_num_added := k\<rparr>) = config q" for q u k by (simp add: config_def)
  show ?thesis
    unfolding add_used_def Let_def
    by (auto simp: alift_def bump intro!: sub sub [THEN trans])
qed

lemma queue_step_ok: "queue_ok (fst s) \<Longrightarrow> queue_ok (fst (queue_step op s))"
proof (cases op)
  case (SetSize n)
  assume "queue_ok (fst s)"
  then show ?thesis using SetSize by (simp add: set_size_def keep_if_err_def setters queue_ok_def)
next
  case (SetDescTable l h)
  assume "queue_ok (fst s)"
  then show ?thesis using SetDescTable by (simp add: set_desc_table_address_def keep_if_err_def setters queue_ok_def)
next
  case (SetAvailRing l h)
  assume "queue_ok (fst s)"
  then show ?thesis using SetAvailRing by (simp add: set_avail_ring_address_def keep_if_err_def setters queue_ok_def)
next
  case (SetUsedRing l h)
  assume "queue_ok (fst s)"
  then show ?thesis using SetUsedRing by (simp add: set_used_ring_address_def keep_if_err_def setters queue_ok_def)
next
  case Reset
  assume "queue_ok (fst s)"
  then show ?thesis
    using Reset by (simp add: queue_reset_def queue_ok_def size_ok_def DEFAULT_DESC_TABLE_ADDR_def
        DEFAULT_AVAIL_RING_ADDR_def DEFAULT_USED_RING_ADDR_def)
next
  case SaveRestore
  assume "queue_ok (fst s)"
  then show ?thesis using SaveRestore by (simp add: queue_try_from_eq queue_save_def queue_ok_def)
next
  case Pop
  assume "queue_ok (fst s)"
  moreover have "config (snd (pop_descriptor_chain (snd s) (fst s))) = config (fst s)"
    by (cases "queue_iter (snd s) (fst s)")
      (simp_all add: pop_descriptor_chain_def Let_def config_def case_prod_beta)
  ultimately show ?thesis using Pop by (auto dest: queue_ok_config)
next
  case NeedsNotification
  assume "queue_ok (fst s)"
  moreover have "config (snd (needs_notification (snd s) (fst s))) = config (fst s)"
    by (cases "used_event (fst s) (snd s)") (simp_all add: needs_notification_def config_def Let_def alift_def abind_def)
  ultimately show ?thesis using NeedsNotification by (auto dest: queue_ok_config)
next
  case (AddUsed h n)
  assume "queue_ok (fst s)"
  then show ?thesis using AddUsed queue_ok_config [OF add_used_config] by simp
next
  case EnableNotification
  assume "queue_ok (fst s)"
  moreover have "fst (snd (enable_notification s)) = fst s"
    by (auto simp: enable_notification_def abind_def on_memory_def split: prod.splits result.splits)
  ultimately show ?thesis using EnableNotification by simp
qed (simp_all add: disable_notification_def set_ready_def set_event_idx_def
    set_next_avail_def set_next_used_def go_to_previous_position_def queue_ok_def)

section \<open>Rings in guest memory\<close>

text \<open>
  Mappings are page-aligned, in particular even in the guest and on the host, which atomic access to
  16-bit cells relies on.
\<close>

definition even_mem :: "gmem \<Rightarrow> bool" where
  "even_mem mem \<longleftrightarrow> list_all (\<lambda>r. even (unat (rg_start r)) \<and> even (rg_host r) \<and> even (length (rg_bytes r))) mem"

definition u16_at :: "gmem \<Rightarrow> nat \<Rightarrow> u16" where
  "u16_at mem x = of_le_bytes (bytes_at mem x 2)"

lemma even_mem_shape: "shape mem' = shape mem \<Longrightarrow> even_mem mem' = even_mem mem"
proof -
  have "even_mem mem \<longleftrightarrow> list_all (\<lambda>(s, h, n). even (unat s) \<and> even h \<and> even n) (shape mem)" for mem
    by (simp add: even_mem_def shape_def list.pred_map comp_def)
  then show "shape mem' = shape mem \<Longrightarrow> even_mem mem' = even_mem mem" by simp
qed

lemma atomic_even:
  assumes "mem_ok mem" "even_mem mem" "even (unat a)" "mapped mem a 2"
  shows "atomic_ok mem a 2"
proof -
  obtain i where i: "i < length mem" "unat a \<in> region_addrs (mem ! i)"
    using mapped_head [OF assms(4)] byte_at_None_iff [of mem "unat a"] by auto
  let ?r = "mem ! i"
  have e: "even (unat (rg_start ?r))" "even (rg_host ?r)" "even (region_end ?r)"
    using assms(2) i(1) by (simp_all add: even_mem_def list_all_length region_end_def)
  have lo: "unat (rg_start ?r) \<le> unat a" and hi: "unat a < region_end ?r"
    using i(2) by (auto simp: region_addrs_def)
  then have "unat a + 2 \<le> region_end ?r" using e(3) assms(3) by presburger
  moreover have "even (rg_host ?r + (unat a - unat (rg_start ?r)))" using e assms(3) by simp
  then have "and (of_nat (rg_host ?r + (unat a - unat (rg_start ?r)))) (of_nat (2 - 1)) = (0 :: u64)"
    by (simp add: and_one_eq mod_2_eq_odd)
  ultimately show ?thesis unfolding atomic_ok_def using i by blast
qed

lemma byte_at_bound:
  assumes "mem_ok mem" "byte_at mem x \<noteq> None"
  shows "x < 2 ^ 64"
proof -
  obtain i where i: "i < length mem" "x \<in> region_addrs (mem ! i)"
    using assms(2) byte_at_None_iff [of mem x] by auto
  then show ?thesis using mem_okD [OF assms(1) i(1)] by (simp add: region_ok_def region_addrs_def)
qed

lemma mapped_sub:
  assumes "mem_ok mem" "mapped mem a n" "off + k \<le> n" "0 < k"
  shows "checked_add a (of_nat off) = Some (a + of_nat off)" "unat (a + of_nat off) = unat a + off"
    "mapped mem (a + of_nat off) k"
proof -
  have in_bound: "unat a + off < 2 ^ 64"
    using byte_at_bound [OF assms(1), of "unat a + off"] assms(2-4) by (auto simp: mapped_def)
  then have o: "unat (of_nat off :: u64) = off" by (simp add: unat_of_nat)
  show "checked_add a (of_nat off) = Some (a + of_nat off)"
    using in_bound o by (simp add: checked_add_def)
  show u: "unat (a + of_nat off) = unat a + off"
    using unat_add_no_overflow [of a "of_nat off"] in_bound o by simp
  show "mapped mem (a + of_nat off) k"
    unfolding mapped_def u
  proof (intro allI impI)
    fix j assume "j < k"
    then have "off + j < n" using assms(3) by simp
    then show "byte_at mem (unat a + off + j) \<noteq> None" using assms(2) unfolding mapped_def add.assoc by blast
  qed
qed

lemma load_u16_eq:
  assumes "mem_ok mem" "even_mem mem" "even (unat a)" "mapped mem a 2"
  shows "load_u16 a mem = Ok (u16_at mem (unat a))"
  using gm_load_eq(1) [OF assms(1) _ _ atomic_even [OF assms]] by (simp add: load_u16_def u16_at_def USIZE_MAX_def)

lemma store_u16_eq:
  assumes "mem_ok mem" "even_mem mem" "even (unat a)" "mapped mem a 2"
  shows "\<exists>mem'. store_u16 v a mem = (Ok (), mem') \<and> updated mem mem' (unat a) (le_bytes 2 v)"
proof -
  have ne: "le_bytes 2 v \<noteq> []" using length_le_bytes [of 2 v] by (metis list.size(3) zero_neq_numeral)
  obtain mem' where "gm_store (le_bytes 2 v) a mem = (Ok (), mem')" "updated mem mem' (unat a) (le_bytes 2 v)"
    using gm_store_eq(1) [OF assms(1) ne, of a] atomic_even [OF assms] by (auto simp: USIZE_MAX_def)
  then show ?thesis by (simp add: store_u16_def)
qed

lemma bytes_at_updated:
  assumes "updated mem mem' x v"
  shows "bytes_at mem' x (length v) = v"
    and "y + n \<le> x \<or> x + length v \<le> y \<Longrightarrow> bytes_at mem' y n = bytes_at mem y n"
proof -
  have b: "byte_at mem' y = (if x \<le> y \<and> y < x + length v then Some (v ! (y - x)) else byte_at mem y)" for y
    using assms unfolding updated_def by blast
  show "bytes_at mem' x (length v) = v"
    by (rule nth_equalityI) (simp_all add: bytes_at_def b)
  show "bytes_at mem' y n = bytes_at mem y n" if "y + n \<le> x \<or> x + length v \<le> y"
    using that by (auto simp: bytes_at_def b)
qed

lemma u16_at_updated:
  assumes "updated mem mem' x (le_bytes 2 v)"
  shows "u16_at mem' x = v"
  using bytes_at_updated(1) [OF assms] of_le_le_bytes [of 2 v] by (simp add: u16_at_def)

lemma is_valid_iff:
  assumes "mem_ok mem"
  shows "is_valid mem q \<longleftrightarrow> q_ready q \<and> mapped mem (q_desc_table q) (16 * unat (q_size q)) \<and>
    mapped mem (q_avail_ring q) (6 + 2 * unat (q_size q)) \<and> mapped mem (q_used_ring q) (6 + 8 * unat (q_size q))"
proof -
  have s: "unat (q_size q) < 65536" using unsigned_less [of "q_size q"] by simp
  have "unat (16 * ucast (q_size q) :: u64) = 16 * unat (q_size q)"
    "unat (6 + 2 * ucast (q_size q) :: u64) = 6 + 2 * unat (q_size q)"
    "unat (6 + 8 * ucast (q_size q) :: u64) = 6 + 8 * unat (q_size q)"
    using s by (simp_all add: unat_word_ariths)
  then show ?thesis
    by (simp add: is_valid_def Let_def gm_check_range_iff assms VIRTQ_AVAIL_RING_META_SIZE_def VIRTQ_USED_RING_META_SIZE_def
        VIRTQ_AVAIL_RING_HEADER_SIZE_def VIRTQ_USED_RING_HEADER_SIZE_def VIRTQ_AVAIL_ELEMENT_SIZE_def VIRTQ_USED_ELEMENT_SIZE_def)
qed

lemma valid_rings:
  assumes "mem_ok mem" "queue_ok q" "is_valid mem q"
  shows "mapped mem (q_avail_ring q) (6 + 2 * unat (q_size q))" "mapped mem (q_used_ring q) (6 + 8 * unat (q_size q))"
    "even (unat (q_avail_ring q))" "even (unat (q_used_ring q))" "0 < unat (q_size q)" "q_size q \<noteq> 0"
proof -
  show "mapped mem (q_avail_ring q) (6 + 2 * unat (q_size q))" "mapped mem (q_used_ring q) (6 + 8 * unat (q_size q))"
    using assms(3) is_valid_iff [OF assms(1)] by auto
  show "even (unat (q_avail_ring q))" using assms(2) by (simp add: queue_ok_def)
  have "4 dvd unat (q_used_ring q)" using assms(2) by (simp add: queue_ok_def)
  then show "even (unat (q_used_ring q))" by (rule dvd_trans [rotated]) simp
  obtain n where "unat (q_size q) = 2 ^ n" using assms(2) by (auto simp: queue_ok_def size_ok_def)
  then show "0 < unat (q_size q)" "q_size q \<noteq> 0" by auto
qed

lemma updated_then:
  assumes "updated mem mem1 x v" "updated mem1 mem2 y w"
  shows "mem_ok mem2" "shape mem2 = shape mem"
    "byte_at mem2 z = (if y \<le> z \<and> z < y + length w then Some (w ! (z - y))
       else if x \<le> z \<and> z < x + length v then Some (v ! (z - x)) else byte_at mem z)"
  using assms by (auto simp: updated_def)

definition used_slot :: "queue \<Rightarrow> nat" where
  "used_slot q = unat (q_used_ring q) + 4 + 8 * (unat (q_next_used q) mod unat (q_size q))"

lemma length_used_elem [simp]: "length (used_elem_bytes i n) = 8"
  by (simp add: used_elem_bytes_def)

lemma used_offset:
  assumes "q_size q \<noteq> 0"
  shows "VIRTQ_USED_RING_HEADER_SIZE + ucast (q_next_used q mod q_size q) * VIRTQ_USED_ELEMENT_SIZE =
    (of_nat (4 + 8 * (unat (q_next_used q) mod unat (q_size q))) :: u64)"
proof -
  have "unat (q_next_used q mod q_size q) = unat (q_next_used q) mod unat (q_size q)" by (simp add: unat_mod_distrib)
  then have "ucast (q_next_used q mod q_size q) = (of_nat (unat (q_next_used q) mod unat (q_size q)) :: u64)"
    by (metis of_nat_unat)
  then show ?thesis by (simp add: VIRTQ_USED_RING_HEADER_SIZE_def VIRTQ_USED_ELEMENT_SIZE_def)
qed

lemma add_used_ok:
  assumes m: "mem_ok mem" "even_mem mem" and q: "queue_ok q" "is_valid mem q" and h: "h < q_size q"
  shows "\<exists>mem1 mem2. add_used h n (q, mem) =
      (Ok (), q\<lparr>q_next_used := q_next_used q + 1, q_num_added := q_num_added q + 1\<rparr>, mem2) \<and>
    updated mem mem1 (used_slot q) (used_elem_bytes (ucast h) n) \<and>
    updated mem1 mem2 (unat (q_used_ring q) + 2) (le_bytes 2 (q_next_used q + 1))"
proof -
  note r = valid_rings [OF m(1) q]
  let ?off = "4 + 8 * (unat (q_next_used q) mod unat (q_size q))"
  have "unat (q_next_used q) mod unat (q_size q) < unat (q_size q)" using r(5) by simp
  then have "?off + 8 \<le> 6 + 8 * unat (q_size q)" by simp
  note slot = mapped_sub [OF m(1) r(2) this zero_less_numeral]
  have u: "unat (q_used_ring q + of_nat ?off) = used_slot q" using slot(2) by (simp add: used_slot_def)
  obtain mem1 where w: "gm_write_obj (used_elem_bytes (ucast h) n) (q_used_ring q + of_nat ?off) mem = (Ok (), mem1)"
    "updated mem mem1 (used_slot q) (used_elem_bytes (ucast h) n)"
    using gm_write_slice_ok [OF m(1), of "used_elem_bytes (ucast h) n"] slot(3) u length_used_elem [of "ucast h" n]
    unfolding gm_write_obj_def by (metis list.size(3) zero_neq_numeral)
  have sh: "shape mem1 = shape mem" "mem_ok mem1" using w(2) by (auto simp: updated_def)
  have "2 + 2 \<le> 6 + 8 * unat (q_size q)" by simp
  note idx = mapped_sub [OF m(1) r(2) this zero_less_numeral]
  have ev: "even_mem mem1" "mapped mem1 (q_used_ring q + 2) 2" "even (unat (q_used_ring q + 2))"
    using even_mem_shape [OF sh(1)] mapped_shape [OF sh(1)] m(2) idx r(4) by auto
  obtain mem2 where s: "store_u16 (q_next_used q + 1) (q_used_ring q + 2) mem1 = (Ok (), mem2)"
    "updated mem1 mem2 (unat (q_used_ring q) + 2) (le_bytes 2 (q_next_used q + 1))"
    using store_u16_eq [OF sh(2) ev(1,3,2)] idx(2) by auto
  have "add_used h n (q, mem) =
      (Ok (), q\<lparr>q_next_used := q_next_used q + 1, q_num_added := q_num_added q + 1\<rparr>, mem2)"
    using h w(1) s(1) idx(1) slot(1)
    by (simp add: add_used_def used_offset [OF r(6)] abind_def alift_def on_memory_def Let_def not_le)
  then show ?thesis using w(2) s(2) by blast
qed

lemma add_used_keeps_valid:
  assumes "mem_ok mem" "even_mem mem" "queue_ok q" "is_valid mem q" "h < q_size q"
    and "add_used h n (q, mem) = (Ok (), q', mem')"
  shows "mem_ok mem'" "even_mem mem'" "queue_ok q'" "is_valid mem' q'" "q_size q' = q_size q"
    "q_next_used q' = q_next_used q + 1" "q_num_added q' = q_num_added q + 1"
    "q_event_idx_enabled q' = q_event_idx_enabled q" "q_used_ring q' = q_used_ring q"
proof -
  obtain mem1 where u: "q' = q\<lparr>q_next_used := q_next_used q + 1, q_num_added := q_num_added q + 1\<rparr>"
    "updated mem mem1 (used_slot q) (used_elem_bytes (ucast h) n)"
    "updated mem1 mem' (unat (q_used_ring q) + 2) (le_bytes 2 (q_next_used q + 1))"
    using add_used_ok [OF assms(1-5), of n] assms(6) by auto
  note t = updated_then [OF u(2,3)]
  show ok: "mem_ok mem'" by (rule t(1))
  show "even_mem mem'" using even_mem_shape [OF t(2)] assms(2) by simp
  show "queue_ok q'" using assms(3) u(1) by (simp add: queue_ok_def)
  show "is_valid mem' q'"
    using is_valid_iff [OF ok, of q'] is_valid_iff [OF assms(1), of q] assms(4) u(1) mapped_shape [OF t(2)] by simp
  show "q_size q' = q_size q" "q_next_used q' = q_next_used q + 1" "q_num_added q' = q_num_added q + 1"
    "q_event_idx_enabled q' = q_event_idx_enabled q" "q_used_ring q' = q_used_ring q"
    using u(1) by simp_all
qed

section \<open>Notifications\<close>

lemma event_window: "u - ev - 1 < n \<longleftrightarrow> (\<exists>k < unat n. ev = u - n + of_nat k)" for u ev n :: u16
proof
  assume less: "u - ev - 1 < n"
  let ?d = "unat (u - ev - 1)"
  have d: "?d < unat n" using less by (simp add: word_less_nat_alt)
  have "(of_nat (unat n - 1 - ?d) :: u16) = of_nat (unat n) - 1 - of_nat ?d"
    using d by (simp add: of_nat_diff)
  then have "u - n + of_nat (unat n - 1 - ?d) = ev" by (simp add: algebra_simps)
  then show "\<exists>k < unat n. ev = u - n + of_nat k" using d by (intro exI [of _ "unat n - 1 - ?d"]) auto
next
  assume "\<exists>k < unat n. ev = u - n + of_nat k"
  then obtain k where k: "k < unat n" "ev = u - n + of_nat k" by blast
  have "(of_nat (unat n - k - 1) :: u16) = of_nat (unat n) - of_nat k - 1"
    using k(1) by (simp add: of_nat_diff)
  then have "of_nat (unat n - k - 1) = n - of_nat k - 1" by simp
  then have "u - ev - 1 = of_nat (unat n - k - 1)" unfolding k(2) by simp
  moreover have "unat n < 2 ^ 16" using unsigned_less [of n] by simp
  then have "unat (of_nat (unat n - k - 1) :: u16) = unat n - k - 1" by (simp add: unat_of_nat)
  ultimately have "unat (u - ev - 1) = unat n - k - 1" by metis
  then show "u - ev - 1 < n" unfolding word_less_nat_alt using k(1) by linarith
qed

primrec add_all :: "(u16 \<times> u32) list \<Rightarrow> (queue \<times> gmem, unit, queue_error) act" where
  "add_all [] s = (Ok (), s)"
| "add_all (e # es) s = abind (add_used (fst e) (snd e)) (\<lambda>_. add_all es) s"

lemma add_all_ok:
  assumes "mem_ok mem" "even_mem mem" "queue_ok q" "is_valid mem q" "list_all (\<lambda>e. fst e < q_size q) es"
  shows "\<exists>q' mem'. add_all es (q, mem) = (Ok (), q', mem') \<and> mem_ok mem' \<and> even_mem mem' \<and> queue_ok q' \<and>
    is_valid mem' q' \<and> q_next_used q' = q_next_used q + of_nat (length es) \<and>
    q_num_added q' = q_num_added q + of_nat (length es) \<and> q_event_idx_enabled q' = q_event_idx_enabled q"
  using assms
proof (induction es arbitrary: q mem)
  case (Cons e es)
  have h: "fst e < q_size q" using Cons.prems(5) by simp
  obtain q1 mem1 where a: "add_used (fst e) (snd e) (q, mem) = (Ok (), q1, mem1)"
    using add_used_ok [OF Cons.prems(1-4) h] by blast
  note k = add_used_keeps_valid [OF Cons.prems(1-4) h a]
  obtain q' mem' where r: "add_all es (q1, mem1) = (Ok (), q', mem')" "mem_ok mem'" "even_mem mem'" "queue_ok q'"
    "is_valid mem' q'" "q_next_used q' = q_next_used q1 + of_nat (length es)"
    "q_num_added q' = q_num_added q1 + of_nat (length es)" "q_event_idx_enabled q' = q_event_idx_enabled q1"
    using Cons.IH [OF k(1-4)] Cons.prems(5) k(5) by auto
  then have "add_all (e # es) (q, mem) = (Ok (), q', mem')" using a by (simp add: abind_def)
  then show ?case using r(2-) k(6-8) by auto
qed simp

lemma ring_offset:
  "unat (s :: u16) < 65536" "ucast s * VIRTQ_AVAIL_ELEMENT_SIZE = (of_nat (2 * unat s) :: u64)"
  using unsigned_less [of s] by (simp_all add: VIRTQ_AVAIL_ELEMENT_SIZE_def)

lemma avail_cell:
  assumes "mem_ok mem" "even_mem mem" "queue_ok q" "is_valid mem q" "even off" "off + 2 \<le> 6 + 2 * unat (q_size q)"
  shows "checked_add (q_avail_ring q) (of_nat off) = Some (q_avail_ring q + of_nat off)"
    "load_u16 (q_avail_ring q + of_nat off) mem = Ok (u16_at mem (unat (q_avail_ring q) + off))"
proof -
  note r = valid_rings [OF assms(1,3,4)]
  note c = mapped_sub [OF assms(1) r(1) assms(6) zero_less_numeral]
  show "checked_add (q_avail_ring q) (of_nat off) = Some (q_avail_ring q + of_nat off)" by (rule c(1))
  show "load_u16 (q_avail_ring q + of_nat off) mem = Ok (u16_at mem (unat (q_avail_ring q) + off))"
    using load_u16_eq [OF assms(1,2) _ c(3)] r(3) assms(5) c(2) by simp
qed

lemma used_event_eq:
  assumes "mem_ok mem" "even_mem mem" "queue_ok q" "is_valid mem q"
  shows "used_event q mem = Ok (u16_at mem (unat (q_avail_ring q) + (4 + 2 * unat (q_size q))))"
  using avail_cell [OF assms, of "4 + 2 * unat (q_size q)"]
  by (simp add: used_event_def Let_def VIRTQ_AVAIL_RING_HEADER_SIZE_def VIRTQ_AVAIL_ELEMENT_SIZE_def mult.commute)

lemma avail_idx_eq:
  assumes "mem_ok mem" "even_mem mem" "queue_ok q" "is_valid mem q"
  shows "avail_idx q mem = Ok (u16_at mem (unat (q_avail_ring q) + 2))"
  using avail_cell [OF assms, of 2] by (simp add: avail_idx_def)

section \<open>The available ring\<close>

lemma avail_iter_next_moves:
  "avail_iter_next mem it i = (Some c, j) \<Longrightarrow> j = i + 1 \<and> i \<noteq> ai_last_index it"
  by (auto simp: avail_iter_next_def split: if_splits option.splits)

text \<open>All the chains the iterator gives, and the position where it stops.\<close>

function avail_drain :: "gmem \<Rightarrow> avail_iter \<Rightarrow> u16 \<Rightarrow> chain list \<times> u16" where
  "avail_drain mem it i =
     (case avail_iter_next mem it i of
        (None, j) \<Rightarrow> ([], j)
      | (Some c, j) \<Rightarrow> (let (cs, last) = avail_drain mem it j in (c # cs, last)))"
  by auto
termination
proof (relation "measure (\<lambda>(_, it, i). unat (ai_last_index it - i))", goal_cases)
  case (2 mem it i x j c)
  then have j: "j = i + 1" "i \<noteq> ai_last_index it" using avail_iter_next_moves [of mem it i c j] by auto
  have "ai_last_index it - j = (ai_last_index it - i) - 1" using j(1) by simp
  moreover have "ai_last_index it - i \<noteq> 0" using j(2) by auto
  ultimately have "unat (ai_last_index it - j) < unat (ai_last_index it - i)"
    using word_pred [of "ai_last_index it - i"] by (metis lessI)
  then show ?case by simp
qed simp

declare avail_drain.simps [simp del]

definition ring_entry :: "gmem \<Rightarrow> queue \<Rightarrow> nat \<Rightarrow> u16" where
  "ring_entry mem q i = u16_at mem (unat (q_avail_ring q) + (4 + 2 * (i mod unat (q_size q))))"

lemma size_dvd: "queue_ok q \<Longrightarrow> unat (q_size q) dvd 65536"
proof -
  assume "queue_ok q"
  then obtain n where n: "unat (q_size q) = 2 ^ n" by (auto simp: queue_ok_def size_ok_def)
  then have "(2 :: nat) ^ n < 2 ^ 16" using ring_offset(1) [of "q_size q"] by simp
  then have "n < 16" by (rule power_less_imp_less_exp [rotated]) simp
  then have "(2 :: nat) ^ n dvd 2 ^ 16" by (intro le_imp_power_dvd) simp
  then show ?thesis using n by simp
qed

lemma unat_add_mod:
  assumes "s dvd 65536"
  shows "unat (i + of_nat k :: u16) mod s = (unat i + k) mod s"
proof -
  have "unat (i + of_nat k :: u16) = (unat i + k) mod 65536"
    by (simp add: unat_word_ariths unat_of_nat mod_add_right_eq)
  then show ?thesis using assms by (simp add: mod_mod_cancel)
qed

definition iter_of :: "u16 \<Rightarrow> queue \<Rightarrow> avail_iter" where
  "iter_of idx q = \<lparr>ai_desc_table = q_desc_table q, ai_avail_ring = q_avail_ring q, ai_queue_size = q_size q,
     ai_last_index = idx\<rparr>"

lemma avail_iter_next_eq:
  assumes "mem_ok mem" "even_mem mem" "queue_ok q" "is_valid mem q" "i \<noteq> idx"
  shows "avail_iter_next mem (iter_of idx q) i =
    (Some (chain_new (q_desc_table q) (q_size q) (ring_entry mem q (unat i))), i + 1)"
proof -
  note r = valid_rings [OF assms(1,3,4)]
  have "unat i mod unat (q_size q) < unat (q_size q)" using r(5) by simp
  then have le: "4 + 2 * (unat i mod unat (q_size q)) + 2 \<le> 6 + 2 * unat (q_size q)" by simp
  have off: "VIRTQ_AVAIL_RING_HEADER_SIZE + ucast (i mod q_size q) * VIRTQ_AVAIL_ELEMENT_SIZE =
      (of_nat (4 + 2 * (unat i mod unat (q_size q))) :: u64)"
    unfolding ring_offset(2) by (simp add: VIRTQ_AVAIL_RING_HEADER_SIZE_def unat_mod_distrib)
  show ?thesis
    using avail_cell [OF assms(1-4) _ le] assms(5) r(6)
    unfolding avail_iter_next_def iter_of_def checked_rem_def
    by (simp add: Let_def off ring_entry_def del: of_nat_add of_nat_mult)
qed

lemma avail_drain_eq:
  assumes "mem_ok mem" "even_mem mem" "queue_ok q" "is_valid mem q"
  shows "avail_drain mem (iter_of idx q) i =
    (map (\<lambda>k. chain_new (q_desc_table q) (q_size q) (ring_entry mem q (unat i + k))) [0..<unat (idx - i)], idx)"
proof (induction "unat (idx - i)" arbitrary: i)
  case 0
  then have "i = idx" by (simp add: unat_eq_0)
  then show ?case by (simp add: avail_drain.simps [of mem "iter_of idx q"] avail_iter_next_def) (simp add: iter_of_def)
next
  case (Suc n)
  have ne: "idx - i \<noteq> 0" using Suc(2) by auto
  have n: "unat (idx - (i + 1)) = n" using word_pred [OF ne] Suc(2) by (simp add: diff_diff_eq)
  have e: "ring_entry mem q (unat (i + 1) + k) = ring_entry mem q (Suc (unat i + k))" for k
    using unat_add_mod [OF size_dvd [OF assms(3)], of i 1] mod_add_left_eq [of "unat (i + 1)" "unat (q_size q)" k]
      mod_add_left_eq [of "unat i + 1" "unat (q_size q)" k]
    by (simp add: ring_entry_def)
  have "avail_drain mem (iter_of idx q) (i + 1) =
      (map (\<lambda>k. chain_new (q_desc_table q) (q_size q) (ring_entry mem q (Suc (unat i + k)))) [0..<n], idx)"
    using Suc(1) [of "i + 1"] n e by simp
  moreover have "[0..<unat (idx - i)] = 0 # map Suc [0..<n]"
    using Suc(2) [symmetric] by (simp add: upt_conv_Cons map_Suc_upt del: upt_Suc)
  ultimately show ?case
    using avail_iter_next_eq [OF assms, of i idx] ne
    by (simp add: avail_drain.simps [of mem "iter_of idx q" i] comp_def)
qed

lemma queue_iter_eq:
  assumes "mem_ok mem" "even_mem mem" "queue_ok q" "is_valid mem q" "q_avail_ring q \<noteq> 0"
    "idx = u16_at mem (unat (q_avail_ring q) + 2)"
  shows "queue_iter mem q =
    (if q_size q < idx - q_next_avail q then Err InvalidAvailRingIndex else Ok (iter_of idx q))"
  using assms(5,6) assms(4) [unfolded is_valid_iff [OF assms(1)]]
  by (simp add: queue_iter_def avail_idx_eq [OF assms(1-4)] avail_iter_new_def iter_of_def)

section \<open>Properties\<close>

text \<open>
  C8. Walking a descriptor chain ends, whatever the guest wrote into its tables.  The descriptors are
  those of the main table, followed through \<open>next\<close> for at most the size of the queue, up to an indirect
  descriptor, whose table continues the walk with its own length as the limit; nested indirect
  descriptors, malformed tables, indices out of range, unreadable entries and a total of \<open>2 ^ 32\<close> bytes
  or more end it.  So there are at most 65535 descriptors more than the queue has entries, and the
  caller never sees an indirect one.
\<close>

theorem descriptor_chain_walks_tables:
  "let ds = chain_descs mem (chain_new desc_table sz head) in
     ds = within 0 (chain_walk mem (table_walk (desc_at mem desc_table) sz (unat sz) head)) \<and>
     length ds \<le> unat sz + 0xFFFF \<and> sum_list (map (\<lambda>d. unat (d_len d)) ds) < 2 ^ 32 \<and> list_all direct ds"
proof -
  let ?w = "chain_walk mem (table_walk (desc_at mem desc_table) sz (unat sz) head)"
  have eq: "chain_descs mem (chain_new desc_table sz head) = within 0 ?w"
    using chain_descs_eq [of "chain_new desc_table sz head" mem] by (simp add: chain_new_def with_ttl_def)
  have "length (within 0 ?w) \<le> unat sz + 0xFFFF"
    using length_within [of 0 ?w] length_chain_walk [of mem "table_walk (desc_at mem desc_table) sz (unat sz) head"]
      length_table_walk [of "desc_at mem desc_table" sz "unat sz" head] by linarith
  moreover have "list_all direct (within 0 ?w)"
    using set_within [of 0 ?w] chain_walk_direct by (auto simp: list_all_iff)
  ultimately show ?thesis using within_bytes [of 0 ?w] by (simp add: eq)
qed

text \<open>
  C25. A queue never leaves its configuration type.  After \<open>Queue::new\<close> and any sequence of operations,
  accepted or refused, the maximal size is a power of two up to 32768, the size is a power of two up
  to the maximal size, and the three ring addresses are aligned to 16, 2 and 4 bytes.
\<close>

theorem queue_stays_well_typed:
  assumes "queue_new max_size = Ok q"
  shows "queue_ok (fst (fold queue_step ops (q, mem)))"
proof -
  have "queue_ok (fst (fold queue_step ops s))" if "queue_ok (fst s)" for s
    using that by (induction ops arbitrary: s) (simp_all add: queue_step_ok)
  then show ?thesis using queue_new_ok [OF assms] by simp
qed

definition sample_queue :: queue where
  "sample_queue = \<lparr>q_max_size = 4, q_next_avail = 0xFFFF, q_next_used = 0xFFFF, q_event_idx_enabled = True,
     q_num_added = 0, q_size = 2, q_ready = True, q_desc_table = 0x1000, q_avail_ring = 0x1100, q_used_ring = 0x1200\<rparr>"

definition queue_mem :: gmem where
  "queue_mem = [sample_region 0x1000 0x7000 0x1000]"

lemma queue_new_4: "queue_new 4 = Ok \<lparr>q_max_size = 4, q_next_avail = 0, q_next_used = 0, q_event_idx_enabled = False,
    q_num_added = 0, q_size = 4, q_ready = False, q_desc_table = 0, q_avail_ring = 0, q_used_ring = 0\<rparr>"
  by (simp add: queue_new_def MAX_QUEUE_SIZE_def DEFAULT_DESC_TABLE_ADDR_def DEFAULT_AVAIL_RING_ADDR_def DEFAULT_USED_RING_ADDR_def)

theorem queue_stays_well_typed_witness:
  "\<exists>q. queue_new 4 = Ok q \<and> queue_ok (fst (fold queue_step [SetSize 3, SetSize 2, SetUsedRing (Some 0x1202) None, SetReady True, Pop] (q, queue_mem)))"
  using queue_stays_well_typed [OF queue_new_4] queue_new_4 by blast

text \<open>
  Saving and restoring.  A saved queue can be restored, and the restored queue is the original
  except that the count of used entries not yet announced is lost.  Conversely a state from an
  untrusted source is accepted only if the queue it gives is well-formed, and that queue saves to the
  same state.
\<close>

theorem queue_state_roundtrip:
  assumes "queue_ok q"
  shows "queue_try_from (queue_save q) = Ok (q\<lparr>q_num_added := 0\<rparr>) \<and>
    (case queue_try_from s of Ok q' \<Rightarrow> queue_ok q' \<and> queue_save q' = s | _ \<Rightarrow> True)"
  using assms by (auto simp: queue_try_from_eq queue_save_def queue_ok_def)

lemma sample_queue_ok: "queue_ok sample_queue"
proof -
  have "\<exists>n. (4 :: nat) = 2 ^ n" "\<exists>n. (2 :: nat) = 2 ^ n"
    by (rule exI [of _ 2], simp) (rule exI [of _ 1], simp)
  then show ?thesis by (simp add: queue_ok_def size_ok_def sample_queue_def MAX_QUEUE_SIZE_def)
qed

theorem queue_state_roundtrip_witness:
  "queue_try_from (queue_save sample_queue) = Ok (sample_queue\<lparr>q_num_added := 0\<rparr>)"
  using queue_state_roundtrip [OF sample_queue_ok] by simp

lemma queue_mem_ok: "mem_ok queue_mem" "even_mem queue_mem"
proof -
  show "mem_ok queue_mem" by (simp add: queue_mem_def mem_ok_def sample_region_ok USIZE_MAX_def)
  show "even_mem queue_mem" by (simp add: queue_mem_def even_mem_def sample_region_def)
qed

lemma queue_mem_byte: "byte_at queue_mem x = (if 0x1000 \<le> x \<and> x < 0x2000 then Some 0 else None)"
  by (auto simp: byte_at_def region_at_def queue_mem_def sample_region_def region_addrs_def region_end_def)

lemma sample_queue_valid: "is_valid queue_mem sample_queue"
  by (simp add: is_valid_iff [OF queue_mem_ok(1)] mapped_def queue_mem_byte sample_queue_def)



text \<open>
  C12. Announcing used entries.  With the event index negotiated, after fewer than \<open>2 ^ 16\<close> entries
  added since the last announcement, \<open>needs_notification\<close> says yes exactly when the position the driver
  asked to be told about is among the positions of these entries, wrapping around included, and starts
  counting anew; the driver may have changed the memory in between.
\<close>

theorem needs_notification_exact:
  assumes "mem_ok mem" "even_mem mem" "queue_ok q" "is_valid mem q"
    and "q_event_idx_enabled q" "q_num_added q = 0"
    and "list_all (\<lambda>e. fst e < q_size q) es" "length es < 2 ^ 16"
  shows "\<exists>q' mem'. add_all es (q, mem) = (Ok (), q', mem') \<and> is_valid mem' q' \<and>
    (\<forall>drv. mem_ok drv \<and> even_mem drv \<and> is_valid drv q' \<longrightarrow>
       needs_notification drv q' =
         (Ok (\<exists>k < length es. used_event q' drv = Ok (q_next_used q + of_nat k)), q'\<lparr>q_num_added := 0\<rparr>))"
proof -
  obtain q' mem' where a: "add_all es (q, mem) = (Ok (), q', mem')" "is_valid mem' q'" "queue_ok q'"
    "q_next_used q' = q_next_used q + of_nat (length es)" "q_num_added q' = of_nat (length es)" "q_event_idx_enabled q'"
    using add_all_ok [OF assms(1-4,7)] assms(5,6) by auto
  have n: "unat (of_nat (length es) :: u16) = length es" using assms(8) by (simp add: unat_of_nat)
  have "needs_notification drv q' =
      (Ok (\<exists>k < length es. used_event q' drv = Ok (q_next_used q + of_nat k)), q'\<lparr>q_num_added := 0\<rparr>)"
    if d: "mem_ok drv" "even_mem drv" "is_valid drv q'" for drv
  proof -
    obtain ev where ev: "used_event q' drv = Ok ev" using used_event_eq [OF d(1,2) a(3) d(3)] by blast
    have "q_next_used q' - (of_nat (length es) :: u16) = q_next_used q" using a(4) by simp
    then show ?thesis
      using ev a(5,6) event_window [of "q_next_used q'" ev "of_nat (length es)"] n
      by (simp add: needs_notification_def abind_def alift_def Let_def)
  qed
  then show ?thesis using a(1,2) by blast
qed

theorem needs_notification_exact_witness:
  "\<exists>q' mem'. add_all [(0, 0), (1, 0)] (sample_queue, queue_mem) = (Ok (), q', mem') \<and>
     (\<forall>drv. mem_ok drv \<and> even_mem drv \<and> is_valid drv q' \<longrightarrow>
        fst (needs_notification drv q') = Ok (used_event q' drv = Ok 0xFFFF \<or> used_event q' drv = Ok 0))"
proof -
  have ex: "(\<exists>k < Suc (Suc 0). P k) \<longleftrightarrow> P 0 \<or> P (Suc 0)" for P :: "nat \<Rightarrow> bool"
    by (auto simp: less_Suc_eq)
  show ?thesis
    using needs_notification_exact [OF queue_mem_ok sample_queue_ok sample_queue_valid, of "[(0, 0), (1, 0)]"]
    by (auto simp: sample_queue_def ex)
qed

text \<open>
  C3. Reading the available ring.  On a valid queue \<open>iter\<close> refuses a ring whose index is further ahead
  of \<open>next_avail\<close> than the queue has entries; otherwise its iterator gives, in order and each once, the
  entries from \<open>next_avail\<close> to the index, at most as many as the queue has, and stops there, wrapping
  around the ring and around 16 bits.
\<close>

theorem available_ring_drained_once:
  assumes "mem_ok mem" "even_mem mem" "queue_ok q" "is_valid mem q" "q_avail_ring q \<noteq> 0"
    and "avail_idx q mem = Ok idx"
  shows "if q_size q < idx - q_next_avail q then queue_iter mem q = Err InvalidAvailRingIndex
    else \<exists>it cs. queue_iter mem q = Ok it \<and> avail_drain mem it (q_next_avail q) = (cs, idx) \<and>
      map dc_head_index cs = map (\<lambda>k. ring_entry mem q (unat (q_next_avail q) + k)) [0..<unat (idx - q_next_avail q)] \<and>
      length cs \<le> unat (q_size q)"
proof -
  have idx: "idx = u16_at mem (unat (q_avail_ring q) + 2)" using avail_idx_eq [OF assms(1-4)] assms(6) by simp
  show ?thesis
    using queue_iter_eq [OF assms(1-5) idx] avail_drain_eq [OF assms(1-4), of idx "q_next_avail q"]
    by (auto simp: chain_new_def with_ttl_def comp_def word_less_nat_alt)
qed

theorem available_ring_drained_once_witness:
  "\<exists>it. queue_iter queue_mem sample_queue = Ok it \<and>
     map dc_head_index (fst (avail_drain queue_mem it (q_next_avail sample_queue))) = [0]"
proof -
  have z: "bytes_at queue_mem x 2 = [0, 0]" if "0x1000 \<le> x" "x < 0x1F00" for x
    using that by (simp add: bytes_at_def queue_mem_byte upt_rec)
  have i: "avail_idx sample_queue queue_mem = Ok 0"
    using avail_idx_eq [OF queue_mem_ok sample_queue_ok sample_queue_valid] z [of "0x1102"]
    by (simp add: u16_at_def sample_queue_def)
  have e: "ring_entry queue_mem sample_queue 65535 = 0"
    using z [of "0x1106"] by (simp add: ring_entry_def u16_at_def sample_queue_def)
  show ?thesis
    using available_ring_drained_once [OF queue_mem_ok sample_queue_ok sample_queue_valid _ i] e
    by (auto simp: sample_queue_def)
qed

text \<open>A queue that is saved after an entry was added but before it was announced never announces it.\<close>

lemma restore_loses_notification:
  assumes "mem_ok mem" "even_mem mem" "queue_ok q" "is_valid mem q" "q_event_idx_enabled q" "q_num_added q = 1"
    and "used_event q mem = Ok (q_next_used q - 1)" "queue_try_from (queue_save q) = Ok q'"
  shows "fst (needs_notification mem q) = Ok True \<and> fst (needs_notification mem q') = Ok False"
proof -
  have "q' = q\<lparr>q_num_added := 0\<rparr>"
    using assms(3,8) by (auto simp: queue_try_from_eq queue_save_def queue_ok_def)
  moreover have "used_event (q\<lparr>q_num_added := 0\<rparr>) mem = used_event q mem" by (simp add: used_event_def)
  ultimately show ?thesis
    using assms(5-7) by (simp add: needs_notification_def abind_def alift_def Let_def)
qed

end
