(* ===== verification/VirtBuffers.thy ===== *)
theory VirtBuffers
  imports VirtRings
begin

text \<open>
  Reading and writing the buffers of a descriptor chain:
  \<^verbatim>\<open>vm-virtio/virtio-queue/src/descriptor_utils.rs\<close>.  A consumer is a queue of volatile slices with a count
  of the bytes used up.  \<open>consume\<close> is generic in what is done with the slices, so it acts on a pair of the
  consumer and that other state: the destination buffer for \<open>Reader\<close>, guest memory for \<open>Writer\<close>.
\<close>

section \<open>Consumers\<close>

record consumer =
  co_buffers :: "vslice list"
  co_bytes_consumed :: nat

datatype io_error = InvalidData queue_error | UnexpectedEof | WriteZero

definition available_bytes :: "consumer \<Rightarrow> nat" where
  "available_bytes co = foldl (\<lambda>count vs. count + vs_size vs) 0 (co_buffers co)"

text \<open>The slices that \<open>consume\<close> passes on: the first ones, until they hold \<open>count\<close> bytes.\<close>

fun select_bufs :: "nat \<Rightarrow> nat \<Rightarrow> vslice list \<Rightarrow> vslice list" where
  "select_bufs count buflen [] = []"
| "select_bufs count buflen (vs # rest) =
     (if count \<le> buflen then []
      else let rem = count - buflen in
        vs # select_bufs count (if rem < vs_size vs then buflen + rem else buflen + vs_size vs) rest)"

fun expect :: "('a, 'e) result \<Rightarrow> ('a, 'f) result" where
  "expect (Ok x) = Ok x"
| "expect (Err e) = Panic"
| "expect Panic = Panic"

fun advance :: "gmem \<Rightarrow> nat \<Rightarrow> vslice list \<Rightarrow> (vslice list, 'e) result" where
  "advance mem rem [] = Ok []"
| "advance mem rem (vs # rest) =
     (if rem < vs_size vs then rbind (expect (slice_offset mem rem vs)) (\<lambda>v. Ok (v # rest))
      else advance mem (rem - vs_size vs) rest)"

definition consume :: "gmem \<Rightarrow> nat \<Rightarrow> (vslice list \<Rightarrow> ('s, nat, io_error) act) \<Rightarrow> (consumer \<times> 's, nat, io_error) act" where
  "consume mem count f s =
     (let co = fst s; bufs = select_bufs count 0 (co_buffers co) in
      if bufs = [] then (Ok 0, s)
      else case f bufs (snd s) of
          (Ok n, t) \<Rightarrow>
            if USIZE_MAX < co_bytes_consumed co + n then (Err (InvalidData DescriptorChainOverflow), co, t)
            else (case advance mem n (co_buffers co) of
                Ok bs \<Rightarrow> (Ok n, \<lparr>co_buffers = bs, co_bytes_consumed = co_bytes_consumed co + n\<rparr>, t)
              | Err e \<Rightarrow> (Err e, co, t)
              | Panic \<Rightarrow> (Panic, co, t))
        | (Err e, t) \<Rightarrow> (Err e, co, t)
        | (Panic, t) \<Rightarrow> (Panic, co, t))"

text \<open>\<open>position\<close> with its counter, and \<open>split_at\<close>, which leaves the first part in place.\<close>

fun split_position :: "nat \<Rightarrow> vslice list \<Rightarrow> nat option \<times> nat" where
  "split_position rem [] = (None, rem)"
| "split_position rem (vs # rest) =
     (if rem < vs_size vs then (Some 0, rem)
      else let (p, r) = split_position (rem - vs_size vs) rest in (map_option Suc p, r))"

definition split_at :: "gmem \<Rightarrow> nat \<Rightarrow> (consumer, consumer, queue_error) act" where
  "split_at mem off co =
     (case split_position off (co_buffers co) of
        (Some i, rem) \<Rightarrow>
          (let other = drop i (co_buffers co); co = co\<lparr>co_buffers := take i (co_buffers co)\<rparr> in
           if 0 < rem then
             case other of
               [] \<Rightarrow> (Panic, co)
             | front # rest \<Rightarrow>
                 abind (alift (map_err VolatileMemoryError (subslice 0 rem front))) (\<lambda>a.
                 \<lambda>co. abind (alift (map_err VolatileMemoryError (slice_offset mem rem front))) (\<lambda>b.
                   alift (Ok \<lparr>co_buffers = b # rest, co_bytes_consumed = 0\<rparr>))
                   (co\<lparr>co_buffers := co_buffers co @ [a]\<rparr>)) co
           else (Ok \<lparr>co_buffers = other, co_bytes_consumed = 0\<rparr>, co))
      | (None, rem) \<Rightarrow>
          if rem = 0 then (Ok \<lparr>co_buffers = [], co_bytes_consumed = 0\<rparr>, co)
          else (Err (SplitOutOfBounds off), co))"

section \<open>Readers and writers\<close>

fun push_slices :: "vslice list \<Rightarrow> (vslice, guest_memory_error) result list \<Rightarrow> (vslice list, queue_error) result" where
  "push_slices bufs [] = Ok bufs"
| "push_slices bufs (Ok s # items) = push_slices (bufs @ [s]) items"
| "push_slices bufs (Err e # items) = Err (GuestMemoryError e)"
| "push_slices bufs (Panic # items) = Panic"

fun push_descs :: "gmem \<Rightarrow> nat \<Rightarrow> vslice list \<Rightarrow> descriptor list \<Rightarrow> (vslice list, queue_error) result" where
  "push_descs mem total_len bufs [] = Ok bufs"
| "push_descs mem total_len bufs (d # ds) =
     (if USIZE_MAX < total_len + unat (d_len d) then Err DescriptorChainOverflow
      else rbind (push_slices bufs (gm_get_slices mem (d_addr d) (unat (d_len d)))) (\<lambda>bufs.
        push_descs mem (total_len + unat (d_len d)) bufs ds))"

definition reader_new :: "gmem \<Rightarrow> chain \<Rightarrow> (consumer, queue_error) result" where
  "reader_new mem c =
     rbind (push_descs mem 0 [] (rw_descs mem False c)) (\<lambda>bufs. Ok \<lparr>co_buffers = bufs, co_bytes_consumed = 0\<rparr>)"

definition writer_new :: "gmem \<Rightarrow> chain \<Rightarrow> (consumer, queue_error) result" where
  "writer_new mem c =
     rbind (push_descs mem 0 [] (rw_descs mem True c)) (\<lambda>bufs. Ok \<lparr>co_buffers = bufs, co_bytes_consumed = 0\<rparr>)"

text \<open>\<open>DescriptorChain::reader\<close> and \<open>writer\<close>.\<close>

definition chain_reader :: "gmem \<Rightarrow> chain \<Rightarrow> (consumer, queue_error) result" where
  "chain_reader mem c = map_err (\<lambda>_. InvalidChain) (reader_new mem c)"

definition chain_writer :: "gmem \<Rightarrow> chain \<Rightarrow> (consumer, queue_error) result" where
  "chain_writer mem c = map_err (\<lambda>_. InvalidChain) (writer_new mem c)"

fun read_bufs :: "gmem \<Rightarrow> nat \<Rightarrow> vslice list \<Rightarrow> (u8 list, nat, io_error) act" where
  "read_bufs mem pos [] buf = (Ok pos, buf)"
| "read_bufs mem pos (vs # rest) buf =
     (let copy_len = min (length buf - pos) (vs_size vs) in
      read_bufs mem (pos + copy_len) rest (overwrite_at pos (take copy_len (slice_bytes mem vs)) buf))"

definition reader_read :: "gmem \<Rightarrow> (consumer \<times> u8 list, nat, io_error) act" where
  "reader_read mem s = consume mem (length (snd s)) (read_bufs mem 0) s"

fun write_bufs :: "u8 list \<Rightarrow> nat \<Rightarrow> vslice list \<Rightarrow> (gmem, nat, io_error) act" where
  "write_bufs buf pos [] mem = (Ok pos, mem)"
| "write_bufs buf pos (vs # rest) mem =
     (let copy_len = min (length buf - pos) (vs_size vs) in
      write_bufs buf (pos + copy_len) rest (snd (copy_to_volatile_slice vs (drop pos buf) copy_len mem)))"

definition writer_write :: "u8 list \<Rightarrow> (consumer \<times> gmem, nat, io_error) act" where
  "writer_write buf s = consume (snd s) (length buf) (write_bufs buf 0) s"

text \<open>\<open>read_exact\<close> and \<open>write_all\<close>, which \<open>read_obj\<close> and \<open>write_obj\<close> call.\<close>

function read_exact :: "gmem \<Rightarrow> nat \<Rightarrow> u8 list \<Rightarrow> (consumer, u8 list, io_error) act" where
  "read_exact mem need got co =
     (if need = 0 then (Ok got, co)
      else case reader_read mem (co, replicate need 0) of
          (Ok n, co', buf) \<Rightarrow>
            if n = 0 then (Err UnexpectedEof, co') else read_exact mem (need - n) (got @ take n buf) co'
        | (Err e, co', _) \<Rightarrow> (Err e, co')
        | (Panic, co', _) \<Rightarrow> (Panic, co'))"
  by pat_completeness auto
termination by (relation "measure (\<lambda>(_, need, _). need)") auto

function write_all :: "u8 list \<Rightarrow> (consumer \<times> gmem, unit, io_error) act" where
  "write_all buf s =
     (if buf = [] then (Ok (), s)
      else case writer_write buf s of
          (Ok n, s') \<Rightarrow> if n = 0 then (Err WriteZero, s') else write_all (drop n buf) s'
        | (Err e, s') \<Rightarrow> (Err e, s')
        | (Panic, s') \<Rightarrow> (Panic, s'))"
  by pat_completeness auto
termination by (relation "measure (\<lambda>(buf, _). length buf)") auto

declare read_exact.simps [simp del] write_all.simps [simp del]

definition reader_read_obj :: "gmem \<Rightarrow> nat \<Rightarrow> (consumer, u8 list, io_error) act" where
  "reader_read_obj mem n = read_exact mem n []"

definition writer_write_obj :: "u8 list \<Rightarrow> (consumer \<times> gmem, unit, io_error) act" where
  "writer_write_obj v = write_all v"

section \<open>The addresses behind a list of slices\<close>

definition slice_addrs :: "gmem \<Rightarrow> vslice \<Rightarrow> nat list" where
  "slice_addrs mem s = [slice_addr mem s..<slice_addr mem s + vs_size s]"

definition addrs :: "gmem \<Rightarrow> vslice list \<Rightarrow> nat list" where
  "addrs mem bs = concat (map (slice_addrs mem) bs)"

definition peek :: "gmem \<Rightarrow> nat list \<Rightarrow> u8 list" where
  "peek mem xs = map (\<lambda>x. the (byte_at mem x)) xs"

lemma length_slice_addrs [simp]: "length (slice_addrs mem s) = vs_size s"
  by (simp add: slice_addrs_def)

lemma addrs_simps [simp]: "addrs mem [] = []" "addrs mem (s # bs) = slice_addrs mem s @ addrs mem bs"
  "addrs mem (bs @ cs) = addrs mem bs @ addrs mem cs"
  by (simp_all add: addrs_def)

lemma peek_simps [simp]: "peek mem [] = []" "peek mem (xs @ ys) = peek mem xs @ peek mem ys" "length (peek mem xs) = length xs"
  "take n (peek mem xs) = peek mem (take n xs)" "drop n (peek mem xs) = peek mem (drop n xs)"
  by (simp_all add: peek_def take_map drop_map)

lemma peek_slice: "mem_ok mem \<Longrightarrow> slice_in mem s \<Longrightarrow> slice_bytes mem s = peek mem (slice_addrs mem s)"
  by (rule nth_equalityI) (simp_all add: slice_bytes_eq bytes_at_def peek_def slice_addrs_def)

lemma available_bytes_eq: "available_bytes co = length (addrs mem (co_buffers co))"
proof -
  have "foldl (\<lambda>count vs. count + vs_size vs) n bs = n + length (addrs mem bs)" for n bs
    by (induction bs arbitrary: n) simp_all
  then show ?thesis by (simp add: available_bytes_def)
qed

lemma addrs_shape:
  assumes "shape mem' = shape mem" "list_all (slice_in mem) bs"
  shows "addrs mem' bs = addrs mem bs" "list_all (slice_in mem') bs"
  using assms(2) shape_slice [OF assms(1)]
  by (induction bs) (auto simp: slice_addrs_def)

section \<open>Advancing\<close>

lemma slice_offset_ok:
  assumes "mem_ok mem" "slice_in mem s" "n \<le> vs_size s"
  shows "slice_offset mem n s = Ok (s\<lparr>vs_start := vs_start s + n, vs_size := vs_size s - n\<rparr>)"
    "slice_in mem (s\<lparr>vs_start := vs_start s + n, vs_size := vs_size s - n\<rparr>)"
    "slice_addrs mem (s\<lparr>vs_start := vs_start s + n, vs_size := vs_size s - n\<rparr>) = drop n (slice_addrs mem s)"
  using slice_offset_eq [OF assms] assms(3) by (simp_all add: slice_addrs_def slice_addr_def drop_upt add.assoc)

lemma advance_ok:
  assumes "mem_ok mem" "list_all (slice_in mem) bs"
  shows "\<exists>bs'. advance mem n bs = Ok bs' \<and> list_all (slice_in mem) bs' \<and> addrs mem bs' = drop n (addrs mem bs)"
  using assms(2)
proof (induction bs arbitrary: n)
  case (Cons s bs)
  show ?case
  proof (cases "n < vs_size s")
    case True
    then show ?thesis using slice_offset_ok [OF assms(1), of s n] Cons.prems by simp
  next
    case False
    then show ?thesis using Cons.IH [of "n - vs_size s"] Cons.prems by simp
  qed
qed simp

lemma select_bufs_addrs:
  "list_all P bs \<Longrightarrow> list_all P (select_bufs count b bs)"
  "take (count - b) (addrs mem (select_bufs count b bs)) = take (count - b) (addrs mem bs)"
  "length (addrs mem (select_bufs count b bs)) \<le> length (addrs mem bs)"
proof -
  show "list_all P bs \<Longrightarrow> list_all P (select_bufs count b bs)"
    by (induction count b bs rule: select_bufs.induct) (auto simp: Let_def)
  show "take (count - b) (addrs mem (select_bufs count b bs)) = take (count - b) (addrs mem bs)"
  proof (induction count b bs rule: select_bufs.induct)
    case (2 count b vs rest)
    show ?case
    proof (cases "count \<le> b")
      case False
      then show ?thesis
        using 2 [OF False refl] by (cases "count - b < vs_size vs") (simp_all add: Let_def diff_diff_add)
    qed simp
  qed simp
  show "length (addrs mem (select_bufs count b bs)) \<le> length (addrs mem bs)"
    by (induction count b bs rule: select_bufs.induct) (auto simp: Let_def)
qed

lemma select_bufs_length: "min (count - b) (length (addrs mem bs)) \<le> length (addrs mem (select_bufs count b bs))"
  using arg_cong [OF select_bufs_addrs(2) [of count b mem bs], of length] by simp

lemma select_bufs_Nil: "select_bufs count 0 bs = [] \<longleftrightarrow> count = 0 \<or> bs = []"
  by (cases bs) (auto simp: Let_def)

section \<open>Consuming\<close>

text \<open>
  What a consumer is: slices within guest memory, and a count of the bytes used so far that does not
  overflow when the rest is used.
\<close>

definition consumer_ok :: "gmem \<Rightarrow> consumer \<Rightarrow> bool" where
  "consumer_ok mem co \<longleftrightarrow> list_all (slice_in mem) (co_buffers co) \<and>
     co_bytes_consumed co + length (addrs mem (co_buffers co)) \<le> USIZE_MAX"

abbreviation stream :: "gmem \<Rightarrow> consumer \<Rightarrow> nat list" where
  "stream mem co \<equiv> addrs mem (co_buffers co)"

text \<open>
  If the callback handles the bytes of any slices it is given, up to \<open>count\<close>, then \<open>consume\<close> handles the
  next bytes of the stream and moves past them.
\<close>

lemma consume_ok:
  assumes mem: "mem_ok mem" "consumer_ok mem co"
    and f: "\<And>bufs. list_all (slice_in mem) bufs \<Longrightarrow>
      \<exists>t. f bufs s = (Ok (min count (length (addrs mem bufs))), t) \<and> Q (take count (addrs mem bufs)) t"
    and nil: "Q [] s"
  shows "\<exists>co' t. consume mem count f (co, s) = (Ok (min count (length (stream mem co))), co', t) \<and>
    Q (take count (stream mem co)) t \<and> consumer_ok mem co' \<and> stream mem co' = drop count (stream mem co) \<and>
    co_bytes_consumed co' = co_bytes_consumed co + min count (length (stream mem co))"
proof (cases "select_bufs count 0 (co_buffers co) = []")
  case True
  then have "count = 0 \<or> co_buffers co = []" by (simp add: select_bufs_Nil)
  then show ?thesis using True nil mem(2) by (auto simp: consume_def)
next
  case False
  let ?bufs = "select_bufs count 0 (co_buffers co)" and ?n = "min count (length (stream mem co))"
  have co: "list_all (slice_in mem) (co_buffers co)" "co_bytes_consumed co + length (stream mem co) \<le> USIZE_MAX"
    using mem(2) by (auto simp: consumer_ok_def)
  have n: "min count (length (addrs mem ?bufs)) = ?n"
    using select_bufs_addrs(3) [of mem count 0 "co_buffers co"] select_bufs_length [of count 0 mem "co_buffers co"] by simp
  obtain t where t: "f ?bufs s = (Ok ?n, t)" "Q (take count (stream mem co)) t"
    using f [OF select_bufs_addrs(1) [OF co(1), of count 0]] False n select_bufs_addrs(2) [of count 0 mem "co_buffers co"]
    by auto
  obtain bs where bs: "advance mem ?n (co_buffers co) = (Ok bs :: (_, io_error) result)" "list_all (slice_in mem) bs"
    "addrs mem bs = drop ?n (stream mem co)"
    using advance_ok [OF mem(1) co(1), of ?n] by blast
  have "drop ?n (stream mem co) = drop count (stream mem co)" by (simp add: min_def)
  moreover have "\<not> USIZE_MAX < co_bytes_consumed co + ?n" using co(2) by simp
  ultimately show ?thesis
    using False t bs co(2) by (auto simp: consume_def consumer_ok_def Let_def)
qed

section \<open>Reading\<close>

lemma read_bufs_eq:
  assumes "mem_ok mem" "list_all (slice_in mem) bs" "pos \<le> length buf"
  shows "read_bufs mem pos bs buf = (Ok (min (length buf) (pos + length (addrs mem bs))),
    take pos buf @ peek mem (take (length buf - pos) (addrs mem bs)) @ drop (pos + length (addrs mem bs)) buf)"
  using assms(2,3)
proof (induction bs arbitrary: pos buf)
  case (Cons s bs)
  let ?n = "min (length buf - pos) (vs_size s)"
  let ?buf = "overwrite_at pos (take ?n (slice_bytes mem s)) buf"
  have sb: "take ?n (slice_bytes mem s) = peek mem (take ?n (slice_addrs mem s))"
    using peek_slice [OF assms(1)] Cons.prems(1) by simp
  have len: "length ?buf = length buf" using Cons.prems(2) sb by (simp add: overwrite_at_def)
  have tk: "take (pos + ?n) ?buf = take pos buf @ peek mem (take ?n (slice_addrs mem s))"
    using Cons.prems(2) sb by (simp add: overwrite_at_def)
  have dr: "drop (pos + ?n + k) ?buf = drop (pos + ?n + k) buf" for k
    using Cons.prems(2) sb by (simp add: overwrite_at_def ac_simps)
  have ih: "read_bufs mem (pos + ?n) bs ?buf = (Ok (min (length buf) (pos + ?n + length (addrs mem bs))),
    take (pos + ?n) ?buf @ peek mem (take (length buf - (pos + ?n)) (addrs mem bs)) @ drop (pos + ?n + length (addrs mem bs)) ?buf)"
    using Cons.IH [of "pos + ?n" ?buf] Cons.prems len by simp
  show ?case
  proof (cases "vs_size s \<le> length buf - pos")
    case True
    then have n: "?n = vs_size s" by simp
    have sa: "take (length buf - pos) (slice_addrs mem s) = slice_addrs mem s" using True by simp
    show ?thesis using ih unfolding tk dr unfolding n by (simp add: Let_def n sa diff_diff_add add.assoc)
  next
    case False
    then have n: "?n = length buf - pos" by simp
    have "min (length buf) (pos + (length buf - pos) + l) = length buf" for l using Cons.prems(2) by simp
    then show ?thesis
      using ih Cons.prems(2) False unfolding tk dr unfolding n by (simp add: Let_def n)
  qed
qed simp

lemma reader_read_ok:
  assumes "mem_ok mem" "consumer_ok mem co"
  shows "\<exists>co'. reader_read mem (co, buf) = (Ok (min (length buf) (length (stream mem co))), co',
      peek mem (take (length buf) (stream mem co)) @ drop (length (stream mem co)) buf) \<and>
    consumer_ok mem co' \<and> stream mem co' = drop (length buf) (stream mem co) \<and>
    co_bytes_consumed co' = co_bytes_consumed co + min (length buf) (length (stream mem co))"
proof -
  let ?Q = "\<lambda>xs t. t = peek mem xs @ drop (length xs) buf"
  have dr: "drop (min (length buf) k) buf = drop k buf" for k by (cases "length buf \<le> k") simp_all
  have "\<exists>t. read_bufs mem 0 bufs buf = (Ok (min (length buf) (length (addrs mem bufs))), t) \<and>
      ?Q (take (length buf) (addrs mem bufs)) t" if "list_all (slice_in mem) bufs" for bufs
    using read_bufs_eq [OF assms(1) that, of 0 buf] by (simp add: dr min.commute)
  from consume_ok [where Q = ?Q and f = "read_bufs mem 0" and count = "length buf" and s = buf, OF assms this]
  show ?thesis by (auto simp: reader_read_def dr min.commute)
qed

section \<open>Writing\<close>

text \<open>The values \<open>v\<close> are written to the addresses \<open>xs\<close>, one after the other.\<close>

definition wrote :: "gmem \<Rightarrow> gmem \<Rightarrow> nat list \<Rightarrow> u8 list \<Rightarrow> bool" where
  "wrote mem mem' xs v \<longleftrightarrow> mem_ok mem' \<and> shape mem' = shape mem \<and> byte_at mem' = (byte_at mem)(xs [\<mapsto>] v) \<and>
     (\<forall>x. x \<in> set xs \<or> addr_dirty mem x \<longrightarrow> addr_dirty mem' x)"

lemma wrote_Nil: "mem_ok mem \<Longrightarrow> wrote mem mem [] v"
  by (simp add: wrote_def)

lemma wrote_append:
  assumes "wrote mem mem1 xs v" "wrote mem1 mem2 ys w" "length xs = length v"
  shows "wrote mem mem2 (xs @ ys) (v @ w)"
  using assms by (auto simp: wrote_def map_upds_def)

lemma map_upds_interval:
  "(m([x..<x + length v] [\<mapsto>] v)) y = (if x \<le> y \<and> y < x + length v then Some (v ! (y - x)) else m y)"
proof (induction v arbitrary: m x)
  case (Cons b v)
  have eq: "[x..<x + length (b # v)] = x # [Suc x..<Suc x + length v]" by (simp add: upt_rec)
  show ?case unfolding eq map_upds_Cons Cons.IH by (auto simp: nth_Cons' Suc_le_eq)
qed auto

lemma updated_wrote:
  assumes "updated mem mem' x v"
  shows "wrote mem mem' [x..<x + length v] v"
  using assms by (auto simp: wrote_def updated_def map_upds_interval fun_eq_iff)

lemma copy_to_slice_wrote:
  assumes "mem_ok mem" "slice_in mem s" "n \<le> vs_size s" "n \<le> length src"
  shows "wrote mem (snd (copy_to_volatile_slice s src n mem)) (take n (slice_addrs mem s)) (take n src)"
proof -
  have r: "vs_region s < length mem" "vs_start s + n \<le> length (rg_bytes (mem ! vs_region s))"
    using assms(2,3) by (auto simp: slice_in_def)
  moreover have "take n (slice_addrs mem s) = [slice_addr mem s..<slice_addr mem s + length (take n src)]"
    using assms(3,4) by (simp add: slice_addrs_def)
  ultimately show ?thesis
    using updated_wrote [OF write_at_updated [OF assms(1) r(1), of "vs_start s" "take n src"]] r(2) assms(4)
    by (simp add: slice_addr_def copy_to_volatile_slice_eq [OF assms])
qed

lemma write_bufs_ok:
  assumes "mem_ok mem" "list_all (slice_in mem) bs" "pos \<le> length buf"
  shows "\<exists>mem'. write_bufs buf pos bs mem = (Ok (min (length buf) (pos + length (addrs mem bs))), mem') \<and>
    wrote mem mem' (take (length buf - pos) (addrs mem bs)) (take (length (addrs mem bs)) (drop pos buf))"
  using assms
proof (induction bs arbitrary: pos mem)
  case Nil
  then show ?case by (simp add: wrote_Nil)
next
  case (Cons s bs)
  let ?n = "min (length buf - pos) (vs_size s)"
  let ?mem = "snd (copy_to_volatile_slice s (drop pos buf) ?n mem)"
  have w: "wrote mem ?mem (take ?n (slice_addrs mem s)) (take ?n (drop pos buf))"
    using Cons.prems by (intro copy_to_slice_wrote) simp_all
  then have sh: "shape ?mem = shape mem" "mem_ok ?mem" by (simp_all add: wrote_def)
  have bs: "addrs ?mem bs = addrs mem bs" "list_all (slice_in ?mem) bs"
    using addrs_shape [OF sh(1)] Cons.prems(2) by simp_all
  have fit: "pos + ?n \<le> length buf" using Cons.prems(3) by simp
  obtain mem' where m: "write_bufs buf (pos + ?n) bs ?mem = (Ok (min (length buf) (pos + ?n + length (addrs mem bs))), mem')"
    "wrote ?mem mem' (take (length buf - (pos + ?n)) (addrs mem bs)) (take (length (addrs mem bs)) (drop (pos + ?n) buf))"
    using Cons.IH [OF sh(2) bs(2) fit] unfolding bs(1) by blast
  have "length (take ?n (slice_addrs mem s)) = length (take ?n (drop pos buf))" by simp
  note all = wrote_append [OF w m(2) this]
  show ?case
  proof (cases "vs_size s \<le> length buf - pos")
    case True
    then have n: "?n = vs_size s" by simp
    have sa: "take (length buf - pos) (slice_addrs mem s) = slice_addrs mem s" using True by simp
    show ?thesis
      using m(1) all unfolding n
      by (simp add: Let_def n sa diff_diff_add add.assoc take_add flip: drop_drop) (simp add: drop_drop add.commute)
  next
    case False
    then have n: "?n = length buf - pos" by simp
    have "min (length buf) (pos + (length buf - pos) + l) = length buf" for l using Cons.prems(3) by simp
    moreover have "min (length buf) (pos + (vs_size s + l)) = length buf" for l using False by simp
    ultimately show ?thesis
      using m(1) all False Cons.prems(3) unfolding n by (simp add: Let_def n)
  qed
qed

lemma writer_write_ok:
  assumes "mem_ok mem" "consumer_ok mem co"
  shows "\<exists>co' mem'. writer_write buf (co, mem) = (Ok (min (length buf) (length (stream mem co))), co', mem') \<and>
    wrote mem mem' (take (length buf) (stream mem co)) (take (length (stream mem co)) buf) \<and>
    consumer_ok mem' co' \<and> stream mem' co' = drop (length buf) (stream mem co) \<and>
    co_bytes_consumed co' = co_bytes_consumed co + min (length buf) (length (stream mem co))"
proof -
  let ?Q = "\<lambda>xs t. wrote mem t xs (take (length xs) buf)"
  have "\<exists>t. write_bufs buf 0 bufs mem = (Ok (min (length buf) (length (addrs mem bufs))), t) \<and>
      ?Q (take (length buf) (addrs mem bufs)) t" if "list_all (slice_in mem) bufs" for bufs
    using write_bufs_ok [OF assms(1) that, of 0 buf] by (auto simp: take_all_iff min_def split: if_splits)
  from consume_ok [where Q = ?Q and f = "write_bufs buf 0" and count = "length buf" and s = mem, OF assms this wrote_Nil [OF assms(1)]]
  obtain co' mem' where c: "writer_write buf (co, mem) = (Ok (min (length buf) (length (stream mem co))), co', mem')"
    "?Q (take (length buf) (stream mem co)) mem'" "consumer_ok mem co'" "stream mem co' = drop (length buf) (stream mem co)"
    "co_bytes_consumed co' = co_bytes_consumed co + min (length buf) (length (stream mem co))"
    by (auto simp: writer_write_def)
  have sh: "shape mem' = shape mem" using c(2) by (simp add: wrote_def)
  have "consumer_ok mem' co'" "stream mem' co' = stream mem co'"
    using addrs_shape [OF sh, of "co_buffers co'"] c(3) by (auto simp: consumer_ok_def)
  moreover have "take (min (length (stream mem co)) (length buf)) buf = take (length (stream mem co)) buf"
    by (cases "length buf \<le> length (stream mem co)") simp_all
  ultimately show ?thesis using c by auto
qed

section \<open>Buffers of a chain\<close>

definition desc_addrs :: "descriptor \<Rightarrow> nat list" where
  "desc_addrs d = [unat (d_addr d)..<unat (d_addr d) + unat (d_len d)]"

abbreviation desc_mapped :: "gmem \<Rightarrow> descriptor \<Rightarrow> bool" where
  "desc_mapped mem d \<equiv> mapped mem (d_addr d) (unat (d_len d))"

lemma push_slices_ok:
  assumes "mem_ok mem"
  shows "mapped_prefix mem (unat a) c = c \<Longrightarrow> \<exists>ss. push_slices bufs (gm_get_slices mem a c) = Ok (bufs @ ss) \<and>
      list_all (slice_in mem) ss \<and> addrs mem ss = [unat a..<unat a + c]"
    and "mapped_prefix mem (unat a) c \<noteq> c \<Longrightarrow> \<exists>e. push_slices bufs (gm_get_slices mem a c) = Err (GuestMemoryError e)"
proof (induction c arbitrary: a bufs rule: less_induct)
  case (less c)
  {
    case 1
    consider (zero) "c = 0" | (hole) "0 < c" "find_region mem a = None"
      | (head) i where "0 < c" "find_region mem a = Some i" by fastforce
    then show ?case
    proof cases
      case zero
      then show ?thesis by (simp add: get_slices_eqs(1) [OF assms])
    next
      case hole
      then have False using 1 prefix_hole [OF assms hole(2), of c] by linarith
      then show ?thesis ..
    next
      case (head i)
      note h = head_facts [OF assms head(2)]
      let ?n = "head_len mem i a c"
      have lt: "c - ?n < c" using h(4) [OF head(1)] head(1) by simp
      have "mapped_prefix mem (unat (a + of_nat ?n)) (c - ?n) = c - ?n"
        using 1 prefix_head [OF assms head(2), of c] h(5) [of c] by linarith
      from less(1) [OF lt this, of "bufs @ [head_slice mem i a c]"]
      obtain ss where ss: "push_slices (bufs @ [head_slice mem i a c]) (gm_get_slices mem (a + of_nat ?n) (c - ?n)) =
          Ok ((bufs @ [head_slice mem i a c]) @ ss)" "list_all (slice_in mem) ss"
        "addrs mem ss = [unat (a + of_nat ?n)..<unat (a + of_nat ?n) + (c - ?n)]" by blast
      have "slice_addrs mem (head_slice mem i a c) = [unat a..<unat a + ?n]"
        using h(3) by (simp add: slice_addrs_def) (simp add: head_slice_def)
      moreover have "[unat a..<unat a + ?n] @ [unat a + ?n..<unat a + ?n + (c - ?n)] = [unat a..<unat a + c]"
        using h(5) [of c] by (subst upt_add_eq_append [symmetric]) simp_all
      ultimately show ?thesis
        using ss h(2,6) by (simp add: get_slices_eqs(3) [OF assms head])
    qed
  next
    case 2
    consider (zero) "c = 0" | (hole) "0 < c" "find_region mem a = None"
      | (head) i where "0 < c" "find_region mem a = Some i" by fastforce
    then show ?case
    proof cases
      case zero
      then show ?thesis using 2 by simp
    next
      case hole
      then show ?thesis by (simp add: get_slices_eqs(2) [OF assms hole])
    next
      case (head i)
      note h = head_facts [OF assms head(2)]
      let ?n = "head_len mem i a c"
      have lt: "c - ?n < c" using h(4) [OF head(1)] head(1) by simp
      have "mapped_prefix mem (unat (a + of_nat ?n)) (c - ?n) \<noteq> c - ?n"
        using 2 prefix_head [OF assms head(2), of c] h(5) [of c] by linarith
      from less(2) [OF lt this] show ?thesis by (simp add: get_slices_eqs(3) [OF assms head])
    qed
  }
qed

lemma push_descs_ok:
  assumes "mem_ok mem" "tot + sum_list (map (\<lambda>d. unat (d_len d)) ds) \<le> USIZE_MAX"
  shows "if list_all (desc_mapped mem) ds
    then \<exists>ss. push_descs mem tot bufs ds = Ok (bufs @ ss) \<and> list_all (slice_in mem) ss \<and>
      addrs mem ss = concat (map desc_addrs ds)
    else \<exists>e. push_descs mem tot bufs ds = Err (GuestMemoryError e)"
  using assms(2)
proof (induction ds arbitrary: tot bufs)
  case (Cons d ds)
  show ?case
  proof (cases "desc_mapped mem d")
    case True
    obtain ss where ss: "push_slices bufs (gm_get_slices mem (d_addr d) (unat (d_len d))) = Ok (bufs @ ss)"
      "list_all (slice_in mem) ss" "addrs mem ss = desc_addrs d"
      using push_slices_ok(1) [OF assms(1), of "d_addr d" "unat (d_len d)" bufs] True
      by (auto simp: mapped_iff desc_addrs_def)
    show ?thesis
      using Cons.IH [of "tot + unat (d_len d)" "bufs @ ss"] Cons.prems True ss by (auto simp: add.assoc split: if_splits)
  next
    case False
    then show ?thesis
      using push_slices_ok(2) [OF assms(1), of "d_addr d" "unat (d_len d)" bufs] Cons.prems
      by (auto simp: mapped_iff)
  qed
qed simp

text \<open>The buffers of one direction, as the reader or writer sees them.\<close>

definition side :: "gmem \<Rightarrow> bool \<Rightarrow> chain \<Rightarrow> descriptor list" where
  "side mem w c = filter (\<lambda>d. is_write_only d = w) (chain_descs mem c)"

lemma sum_filter_le: "sum_list (map f (filter P xs)) \<le> sum_list (map f xs)" for f :: "_ \<Rightarrow> nat"
  by (induction xs) auto

lemma side_bytes:
  assumes "dc_is_indirect c = False"
  shows "sum_list (map (\<lambda>d. unat (d_len d)) (side mem w c)) < 2 ^ 32"
proof -
  have "unat (dc_yielded_bytes c) < 2 ^ 32" using unsigned_less [of "dc_yielded_bytes c"] by simp
  then have "sum_list (map (\<lambda>d. unat (d_len d)) (chain_descs mem c)) < 2 ^ 32"
    using chain_descs_eq [of c mem] within_bytes [of "unat (dc_yielded_bytes c)"] assms by (metis add_lessD1 add.commute)
  then show ?thesis unfolding side_def using sum_filter_le by (rule le_less_trans [rotated])
qed

lemma consumer_new:
  assumes "mem_ok mem" "\<not> dc_is_indirect c"
  shows "if list_all (desc_mapped mem) (side mem w c)
    then \<exists>co. rbind (push_descs mem 0 [] (rw_descs mem w c)) (\<lambda>b. Ok \<lparr>co_buffers = b, co_bytes_consumed = 0\<rparr>) = Ok co \<and>
      consumer_ok mem co \<and> co_bytes_consumed co = 0 \<and> stream mem co = concat (map desc_addrs (side mem w c))
    else \<exists>e. rbind (push_descs mem 0 [] (rw_descs mem w c)) (\<lambda>b. Ok \<lparr>co_buffers = b, co_bytes_consumed = 0\<rparr>) =
      Err (GuestMemoryError e)"
proof -
  have small: "sum_list (map (\<lambda>d. unat (d_len d)) (side mem w c)) \<le> USIZE_MAX"
    using side_bytes [of c mem w] assms(2) by (simp add: USIZE_MAX_def)
  moreover have "length (concat (map desc_addrs ds)) = sum_list (map (\<lambda>d. unat (d_len d)) ds)" for ds
    by (simp add: length_concat comp_def desc_addrs_def)
  ultimately show ?thesis
    using push_descs_ok [OF assms(1), of 0 "side mem w c" "[]"]
    by (auto simp: rw_descs_filter side_def consumer_ok_def split: if_splits)
qed

section \<open>Splitting\<close>

lemma split_position_spec:
  "split_position rem bs = (p, r) \<Longrightarrow>
     (case p of None \<Rightarrow> rem = length (addrs mem bs) + r
      | Some i \<Rightarrow> i < length bs \<and> r < vs_size (bs ! i) \<and> rem = length (addrs mem (take i bs)) + r)"
proof (induction rem bs arbitrary: p r rule: split_position.induct)
  case (2 rem s bs)
  show ?case
  proof (cases "rem < vs_size s")
    case False
    obtain p' r' where s: "split_position (rem - vs_size s) bs = (p', r')" by (meson surj_pair)
    note ih = "2.IH" [OF False s]
    have "p = map_option Suc p'" "r = r'" using 2(2) s False by auto
    then show ?thesis using ih False by (cases p') auto
  qed (use 2(2) in auto)
qed simp

lemma split_at_ok:
  assumes "mem_ok mem" "consumer_ok mem co"
  shows "if off \<le> length (stream mem co)
    then \<exists>other co'. split_at mem off co = (Ok other, co') \<and> consumer_ok mem other \<and> consumer_ok mem co' \<and>
      stream mem co' = take off (stream mem co) \<and> stream mem other = drop off (stream mem co) \<and>
      co_bytes_consumed co' = co_bytes_consumed co \<and> co_bytes_consumed other = 0
    else split_at mem off co = (Err (SplitOutOfBounds off), co)"
proof -
  let ?bs = "co_buffers co"
  have ok: "list_all (slice_in mem) ?bs" "co_bytes_consumed co + length (stream mem co) \<le> USIZE_MAX"
    using assms(2) by (auto simp: consumer_ok_def)
  obtain p r where s: "split_position off ?bs = (p, r)" by (meson surj_pair)
  note sp = split_position_spec [OF s, of mem]
  show ?thesis
  proof (cases p)
    case None
    then show ?thesis
      using s sp assms(2) by (auto simp: split_at_def consumer_ok_def)
  next
    case (Some i)
    let ?f = "?bs ! i"
    have i: "i < length ?bs" "r < vs_size ?f" "off = length (addrs mem (take i ?bs)) + r" using sp Some by auto
    have bs: "?bs = take i ?bs @ ?f # drop (Suc i) ?bs" by (rule id_take_nth_drop [OF i(1)])
    have str: "stream mem co = addrs mem (take i ?bs) @ slice_addrs mem ?f @ addrs mem (drop (Suc i) ?bs)"
      by (subst bs) simp
    have dr: "drop i ?bs = ?f # drop (Suc i) ?bs" using i(1) by (simp add: Cons_nth_drop_Suc)
    have f: "slice_in mem ?f" "list_all (slice_in mem) (take i ?bs)" "list_all (slice_in mem) (drop (Suc i) ?bs)"
      using ok(1) i(1) by (auto simp: list_all_iff dest: in_set_takeD in_set_dropD)
    have le: "off \<le> length (stream mem co)" unfolding str using i(2,3) by simp
    show ?thesis
    proof (cases "0 < r")
      case True
      let ?a = "?f\<lparr>vs_size := r\<rparr>" and ?b = "?f\<lparr>vs_start := vs_start ?f + r, vs_size := vs_size ?f - r\<rparr>"
      have "vs_size ?f \<le> USIZE_MAX"
        using f(1) length_usize [OF mem_okD [OF assms(1)], of "vs_region ?f" "vs_size ?f"] by (simp add: slice_in_def)
      then have sub: "subslice 0 r ?f = Ok ?a"
        using i(2) by (simp add: subslice_def compute_end_offset_def compute_offset_def)
      note o = slice_offset_ok [OF assms(1) f(1), of r]
      have a: "slice_in mem ?a" "slice_addrs mem ?a = take r (slice_addrs mem ?f)"
        using f(1) i(2) by (simp_all add: slice_in_def slice_addrs_def slice_addr_def)
      have "split_at mem off co = (Ok \<lparr>co_buffers = ?b # drop (Suc i) ?bs, co_bytes_consumed = 0\<rparr>,
          co\<lparr>co_buffers := take i ?bs @ [?a]\<rparr>)"
        using s Some True sub o(1) i(2) dr by (simp add: split_at_def abind_def alift_def)
      then show ?thesis
        using le o(2,3) a f ok(2) i(2,3) unfolding str by (simp add: consumer_ok_def)
    next
      case False
      then have "split_at mem off co = (Ok \<lparr>co_buffers = drop i ?bs, co_bytes_consumed = 0\<rparr>,
          co\<lparr>co_buffers := take i ?bs\<rparr>)"
        using s Some by (simp add: split_at_def)
      then show ?thesis
        using le f ok(2) False i(3) dr unfolding str by (simp add: consumer_ok_def)
    qed
  qed
qed

section \<open>Sequences of reads and writes\<close>

text \<open>The bytes that reads into buffers of the given lengths return.\<close>

primrec read_seq :: "gmem \<Rightarrow> nat list \<Rightarrow> consumer \<Rightarrow> u8 list" where
  "read_seq mem [] co = []"
| "read_seq mem (n # ns) co =
     (case reader_read mem (co, replicate n 0) of
        (Ok k, co', buf) \<Rightarrow> take k buf @ read_seq mem ns co'
      | _ \<Rightarrow> [])"

lemma read_seq_eq:
  assumes "mem_ok mem" "consumer_ok mem co"
  shows "read_seq mem ns co = peek mem (take (sum_list ns) (stream mem co))"
  using assms(2)
proof (induction ns arbitrary: co)
  case (Cons n ns)
  obtain co' where r: "reader_read mem (co, replicate n 0) = (Ok (min n (length (stream mem co))), co',
      peek mem (take n (stream mem co)) @ drop (length (stream mem co)) (replicate n 0))"
    "consumer_ok mem co'" "stream mem co' = drop n (stream mem co)"
    using reader_read_ok [OF assms(1) Cons.prems, of "replicate n 0"] by auto
  have "take (min n (length (stream mem co))) (peek mem (take n (stream mem co)) @ drop (length (stream mem co)) (replicate n 0)) =
      peek mem (take n (stream mem co))" by (cases "n \<le> length (stream mem co)") simp_all
  then show ?case using r Cons.IH [OF r(2)] by (simp add: take_add)
qed simp

primrec write_seq :: "u8 list list \<Rightarrow> consumer \<times> gmem \<Rightarrow> consumer \<times> gmem" where
  "write_seq [] s = s"
| "write_seq (b # bs) s = write_seq bs (snd (writer_write b s))"

lemma write_seq_wrote:
  assumes "mem_ok mem" "consumer_ok mem co"
  shows "wrote mem (snd (write_seq bs (co, mem))) (take (length (concat bs)) (stream mem co))
      (take (length (stream mem co)) (concat bs)) \<and>
    co_bytes_consumed (fst (write_seq bs (co, mem))) =
      co_bytes_consumed co + min (length (concat bs)) (length (stream mem co))"
  using assms
proof (induction bs arbitrary: co mem)
  case (Cons b bs)
  let ?xs = "stream mem co"
  obtain co' mem' where w: "writer_write b (co, mem) = (Ok (min (length b) (length ?xs)), co', mem')"
    "wrote mem mem' (take (length b) ?xs) (take (length ?xs) b)" "consumer_ok mem' co'" "stream mem' co' = drop (length b) ?xs"
    "co_bytes_consumed co' = co_bytes_consumed co + min (length b) (length ?xs)"
    using writer_write_ok [OF Cons.prems] by blast
  have ok: "mem_ok mem'" using w(2) by (simp add: wrote_def)
  note ih = Cons.IH [OF ok w(3)]
  have len: "length (take (length b) ?xs) = length (take (length ?xs) b)" by simp
  show ?case
    using wrote_append [OF w(2) conjunct1 [OF ih] len] conjunct2 [OF ih] w(1,4,5)
    by (simp add: take_add [symmetric])
qed (simp add: wrote_Nil)

lemma read_exact_eq:
  assumes "mem_ok mem" "consumer_ok mem co"
  shows "if n \<le> available_bytes co
    then \<exists>co'. read_exact mem n got co = (Ok (got @ read_seq mem [n] co), co') \<and> consumer_ok mem co' \<and>
      stream mem co' = drop n (stream mem co)
    else \<exists>co'. read_exact mem n got co = (Err UnexpectedEof, co') \<and> stream mem co' = []"
proof -
  let ?l = "length (stream mem co)"
  obtain co' where r: "reader_read mem (co, replicate n 0) = (Ok (min n ?l), co',
      peek mem (take n (stream mem co)) @ drop ?l (replicate n 0))" "consumer_ok mem co'" "stream mem co' = drop n (stream mem co)"
    using reader_read_ok [OF assms, of "replicate n 0"] by auto
  show ?thesis
  proof (cases "n \<le> ?l")
    case True
    have "read_exact mem 0 g c = (Ok g, c)" for g c by (simp add: read_exact.simps)
    moreover have "read_seq mem [n] co = peek mem (take n (stream mem co))" using read_seq_eq [OF assms, of "[n]"] by simp
    ultimately have "read_exact mem n got co = (Ok (got @ read_seq mem [n] co), if n = 0 then co else co')"
      using True r(1) by (simp add: read_exact.simps [of mem n] min_def del: read_seq.simps)
    then show ?thesis using True r(2,3) assms(2) by (auto simp: available_bytes_eq [of _ mem] simp del: read_seq.simps)
  next
    case False
    obtain co'' where r2: "reader_read mem (co', replicate (n - ?l) 0) = (Ok 0, co'', replicate (n - ?l) 0)" "stream mem co'' = []"
      using reader_read_ok [OF assms(1) r(2), of "replicate (n - ?l) 0"] r(3) False by auto
    have "read_exact mem (n - ?l) g co' = (Err UnexpectedEof, co'')" for g
      using r2(1) False by (simp add: read_exact.simps [of mem "n - ?l"])
    then have "\<exists>co'. read_exact mem n got co = (Err UnexpectedEof, co') \<and> stream mem co' = []"
      using r(1,3) r2(2) False by (auto simp: read_exact.simps [of mem n] min_def)
    then show ?thesis using False by (simp add: available_bytes_eq [of _ mem])
  qed
qed

lemma write_all_eq:
  assumes "mem_ok mem" "consumer_ok mem co"
  shows "\<exists>co' mem'. write_all buf (co, mem) = (if length buf \<le> available_bytes co then Ok () else Err WriteZero, co', mem') \<and>
    wrote mem mem' (take (length buf) (stream mem co)) (take (length (stream mem co)) buf)"
proof (cases "buf = []")
  case True
  then show ?thesis using wrote_Nil [OF assms(1)] by (simp add: write_all.simps)
next
  case ne: False
  let ?l = "length (stream mem co)"
  obtain co' mem' where w: "writer_write buf (co, mem) = (Ok (min (length buf) ?l), co', mem')"
    "wrote mem mem' (take (length buf) (stream mem co)) (take ?l buf)" "consumer_ok mem' co'"
    "stream mem' co' = drop (length buf) (stream mem co)"
    using writer_write_ok [OF assms, of buf] by blast
  show ?thesis
  proof (cases "length buf \<le> ?l")
    case True
    have "write_all [] s = (Ok (), s)" for s by (simp add: write_all.simps)
    then have "write_all buf (co, mem) = (Ok (), co', mem')"
      using True ne w(1) by (simp add: write_all.simps [of buf] min_def)
    then show ?thesis using True w(2) by (simp add: available_bytes_eq [of _ mem])
  next
    case False
    have ok: "mem_ok mem'" using w(2) by (simp add: wrote_def)
    have z: "stream mem' co' = []" using w(4) False by simp
    obtain co'' mem'' where w2: "writer_write (drop ?l buf) (co', mem') = (Ok 0, co'', mem'')" "wrote mem' mem'' [] []"
      using writer_write_ok [OF ok w(3), of "drop ?l buf"] z by auto
    have "write_all (drop ?l buf) (co', mem') = (Err WriteZero, co'', mem'')"
      using False w2(1) by (simp add: write_all.simps [of "drop ?l buf"])
    then have "\<exists>c m. write_all buf (co, mem) = (Err WriteZero, c, m) \<and> (m = mem'' \<or> m = mem')"
      using ne w(1) False by (auto simp: write_all.simps [of buf] min_def)
    moreover have "wrote mem mem'' (take (length buf) (stream mem co)) (take ?l buf)"
      using wrote_append [OF w(2) w2(2)] by simp
    ultimately show ?thesis using False w(2) by (auto simp: available_bytes_eq [of _ mem])
  qed
qed

section \<open>Properties\<close>



text \<open>
  Splitting a reader or writer.  \<open>split_at\<close> fails, changing nothing, exactly when the offset is beyond
  the bytes that are left.  Otherwise the first part keeps the first bytes and the result has the rest,
  also when the offset falls inside a buffer; neither part leaves guest memory.
\<close>

theorem split_at_exact:
  assumes "mem_ok mem" "consumer_ok mem co"
  shows "if off \<le> available_bytes co
    then \<exists>other co'. split_at mem off co = (Ok other, co') \<and> consumer_ok mem other \<and> consumer_ok mem co' \<and>
      available_bytes co' = off \<and> (\<forall>ms. read_seq mem [off] co' @ read_seq mem ms other = read_seq mem (off # ms) co)
    else split_at mem off co = (Err (SplitOutOfBounds off), co)"
proof -
  note av = available_bytes_eq [of _ mem]
  show ?thesis
  proof (cases "off \<le> available_bytes co")
    case True
    then obtain other co' where s: "split_at mem off co = (Ok other, co')" "consumer_ok mem other" "consumer_ok mem co'"
      "stream mem co' = take off (stream mem co)" "stream mem other = drop off (stream mem co)"
      using split_at_ok [OF assms, of off] by (auto simp: av)
    have "available_bytes co' = off" using True s(4) by (simp add: av)
    moreover have "read_seq mem [off] co' @ read_seq mem ms other = read_seq mem (off # ms) co" for ms
      unfolding read_seq_eq [OF assms(1) s(3)] read_seq_eq [OF assms(1) s(2)] read_seq_eq [OF assms] s(4,5)
      by (simp add: take_add)
    ultimately show ?thesis using True s(1-3) by auto
  next
    case False
    then show ?thesis using split_at_ok [OF assms, of off] by (simp add: av)
  qed
qed

subsection \<open>An example\<close>

definition demo_bytes :: "u8 list" where
  "demo_bytes =
     descriptor_bytes \<lparr>d_addr = 0x1020, d_len = 4, d_flags = 1, d_next = 1\<rparr> @
     descriptor_bytes \<lparr>d_addr = 0x1024, d_len = 4, d_flags = 2, d_next = 0\<rparr> @ [1, 2, 3, 4, 0, 0, 0, 0]"

definition demo_mem :: gmem where
  "demo_mem = [(sample_region 0x1000 0x7000 40)\<lparr>rg_bytes := demo_bytes\<rparr>]"

lemma demo_mem_ok: "mem_ok demo_mem"
proof -
  have "length demo_bytes = 40" by (simp add: demo_bytes_def)
  moreover have "region_ok (sample_region 0x1000 0x7000 40)" by (simp add: sample_region_ok USIZE_MAX_def)
  moreover have "demo_bytes \<noteq> []" by (simp add: demo_bytes_def)
  ultimately show ?thesis by (simp add: demo_mem_def mem_ok_def region_ok_def region_end_def sample_region_def)
qed

lemma demo_byte: "byte_at demo_mem x = (if 0x1000 \<le> x \<and> x < 0x1028 then Some (demo_bytes ! (x - 0x1000)) else None)"
proof -
  have "length demo_bytes = 40" by (simp add: demo_bytes_def)
  then show ?thesis
    by (auto simp: byte_at_def region_at_def demo_mem_def sample_region_def region_addrs_def region_end_def)
qed

lemma demo_bytes_at:
  assumes "k + n \<le> 40"
  shows "bytes_at demo_mem (0x1000 + k) n = take n (drop k demo_bytes)" "0x1000 + k < 2 ^ 64"
    "unat a = 0x1000 + k \<Longrightarrow> mapped demo_mem a n"
proof -
  have "length demo_bytes = 40" by (simp add: demo_bytes_def)
  then show "bytes_at demo_mem (0x1000 + k) n = take n (drop k demo_bytes)"
    using assms by (intro nth_equalityI) (simp_all add: bytes_at_def demo_byte add.commute add.left_commute)
  show "unat a = 0x1000 + k \<Longrightarrow> mapped demo_mem a n" using assms by (auto simp: mapped_def demo_byte)
  show "0x1000 + k < 2 ^ 64" using assms by simp
qed

lemma demo_descs:
  "desc_at demo_mem 0x1000 0 = Some \<lparr>d_addr = 0x1020, d_len = 4, d_flags = 1, d_next = 1\<rparr>"
  "desc_at demo_mem 0x1000 1 = Some \<lparr>d_addr = 0x1024, d_len = 4, d_flags = 2, d_next = 0\<rparr>"
proof -
  have "mapped demo_mem 0x1000 16" "mapped demo_mem 0x1010 16"
    using demo_bytes_at(3) [of 0 16 "0x1000"] demo_bytes_at(3) [of 16 16 "0x1010"] by simp_all
  moreover have "bytes_at demo_mem 0x1000 16 = descriptor_bytes \<lparr>d_addr = 0x1020, d_len = 4, d_flags = 1, d_next = 1\<rparr>"
    "bytes_at demo_mem 0x1010 16 = descriptor_bytes \<lparr>d_addr = 0x1024, d_len = 4, d_flags = 2, d_next = 0\<rparr>"
    using demo_bytes_at(1) [of 0 16] demo_bytes_at(1) [of 16 16] by (simp_all add: demo_bytes_def)
  ultimately show "desc_at demo_mem 0x1000 0 = Some \<lparr>d_addr = 0x1020, d_len = 4, d_flags = 1, d_next = 1\<rparr>"
    "desc_at demo_mem 0x1000 1 = Some \<lparr>d_addr = 0x1024, d_len = 4, d_flags = 2, d_next = 0\<rparr>"
    by (simp_all add: desc_at_def checked_add_def gm_read_obj_eq [OF demo_mem_ok] descriptor_of_descriptor_bytes)
qed

lemma demo_chain:
  "chain_descs demo_mem (chain_new 0x1000 2 0) =
     [\<lparr>d_addr = 0x1020, d_len = 4, d_flags = 1, d_next = 1\<rparr>, \<lparr>d_addr = 0x1024, d_len = 4, d_flags = 2, d_next = 0\<rparr>]"
proof -
  have two: "table_walk tab sz 2 i = table_walk tab sz (Suc (Suc 0)) i" for tab sz i by (simp add: numeral_2_eq_2)
  show ?thesis
    using chain_descs_eq [of "chain_new 0x1000 2 0" demo_mem]
    by (simp add: chain_new_def with_ttl_def two demo_descs chain_walk_def refers_to_indirect_table_def has_next_def
        VRING_DESC_F_INDIRECT_def VRING_DESC_F_NEXT_def)
qed

lemma demo_sides:
  "side demo_mem False (chain_new 0x1000 2 0) = [\<lparr>d_addr = 0x1020, d_len = 4, d_flags = 1, d_next = 1\<rparr>]"
  "side demo_mem True (chain_new 0x1000 2 0) = [\<lparr>d_addr = 0x1024, d_len = 4, d_flags = 2, d_next = 0\<rparr>]"
  "mapped demo_mem 0x1020 4" "mapped demo_mem 0x1024 4" "bytes_at demo_mem 0x1020 4 = [1, 2, 3, 4]"
  using demo_bytes_at(3) [of 32 4 "0x1020"] demo_bytes_at(3) [of 36 4 "0x1024"] demo_bytes_at(1) [of 32 4]
  by (simp_all add: side_def demo_chain is_write_only_def VRING_DESC_F_WRITE_def demo_bytes_def)



theorem split_at_exact_witness:
  "\<exists>other co'. split_at demo_mem 1 \<lparr>co_buffers = [\<lparr>vs_region = 0, vs_start = 32, vs_size = 4\<rparr>], co_bytes_consumed = 0\<rparr> =
     (Ok other, co') \<and> available_bytes co' = 1"
proof -
  have "length demo_bytes = 40" by (simp add: demo_bytes_def)
  then have "consumer_ok demo_mem \<lparr>co_buffers = [\<lparr>vs_region = 0, vs_start = 32, vs_size = 4\<rparr>], co_bytes_consumed = 0\<rparr>"
    by (simp add: consumer_ok_def slice_in_def demo_mem_def USIZE_MAX_def)
  from split_at_exact [OF demo_mem_ok this, of 1] show ?thesis by (auto simp: available_bytes_def)
qed

end
