(* ===== verification/GuestIo.thy ===== *)
theory GuestIo
  imports GuestAccess
begin

text \<open>
  Transfers between guest memory and files, sockets and buffers: the traits of \<^verbatim>\<open>vm-memory/src/io.rs\<close>
  with their implementations for byte slices, vectors, cursors and file descriptors, and the transfer
  operations of volatile slices and guest memory that use them.  An implementation of
  \<^verbatim>\<open>ReadVolatile\<close> is a function that acts on its own state and on guest memory; an implementation of
  \<^verbatim>\<open>WriteVolatile\<close> acts on its own state and gets the bytes of the slice.  The system calls \<^verbatim>\<open>read\<close> and
  \<^verbatim>\<open>write\<close> are arguments.  An operation may be interrupted again and again, so the loops that retry are
  partial; not returning is \<open>None\<close>.
\<close>

type_synonym ('s, 'a, 'e) pact = "'s \<Rightarrow> (('a, 'e) result \<times> 's) option"

definition pbind :: "('s, 'a, 'e) pact \<Rightarrow> ('a \<Rightarrow> ('s, 'b, 'e) pact) \<Rightarrow> ('s, 'b, 'e) pact" where
  "pbind f g s =
     (case f s of
        None \<Rightarrow> None
      | Some (Ok x, s') \<Rightarrow> g x s'
      | Some (Err e, s') \<Rightarrow> Some (Err e, s')
      | Some (Panic, s') \<Rightarrow> Some (Panic, s'))"

definition plift :: "('a, 'e) result \<Rightarrow> ('s, 'a, 'e) pact" where
  "plift r s = Some (r, s)"

definition pmap_err :: "('e \<Rightarrow> 'f) \<Rightarrow> ('s, 'a, 'e) pact \<Rightarrow> ('s, 'a, 'f) pact" where
  "pmap_err g f s = map_option (\<lambda>(r, s'). (map_err g r, s')) (f s)"

type_synonym 's reader = "vslice \<Rightarrow> ('s \<times> gmem, nat, volatile_error) act"
type_synonym 's writer = "u8 list \<Rightarrow> ('s, nat, volatile_error) act"

section \<open>The traits (io.rs)\<close>

partial_function (option) retry_eintr :: "('s, 'a, volatile_error) act \<Rightarrow> ('s, 'a, volatile_error) pact" where
  "retry_eintr io_call s =
     (let (r, s') = io_call s in if r = Err (VIOError KInterrupted) then retry_eintr io_call s' else Some (r, s'))"

text \<open>The default of \<open>read_exact_volatile\<close>: the loop over what is left of the buffer.\<close>

partial_function (option) read_exact_loop :: "'s reader \<Rightarrow> vslice \<Rightarrow> ('s \<times> gmem, unit, volatile_error) pact" where
  "read_exact_loop rd partial_buf st =
     (if vs_size partial_buf = 0 then Some (Ok (), st)
      else case retry_eintr (rd partial_buf) st of
          None \<Rightarrow> None
        | Some (r, st') \<Rightarrow>
            (case r of
               Ok n \<Rightarrow>
                 if n = 0 then Some (Err (VIOError KUnexpectedEof), st')
                 else (case slice_offset (snd st') n partial_buf of
                         Ok p \<Rightarrow> read_exact_loop rd p st'
                       | Err e \<Rightarrow> Some (Err e, st')
                       | Panic \<Rightarrow> Some (Panic, st'))
             | Err e \<Rightarrow> Some (Err e, st')
             | Panic \<Rightarrow> Some (Panic, st')))"

definition read_exact_volatile :: "'s reader \<Rightarrow> vslice \<Rightarrow> ('s \<times> gmem, unit, volatile_error) pact" where
  "read_exact_volatile rd buf st =
     (case slice_offset (snd st) 0 buf of
        Ok p \<Rightarrow> read_exact_loop rd p st
      | Err e \<Rightarrow> Some (Err e, st)
      | Panic \<Rightarrow> Some (Panic, st))"

partial_function (option) write_all_loop :: "gmem \<Rightarrow> 's writer \<Rightarrow> vslice \<Rightarrow> ('s, unit, volatile_error) pact" where
  "write_all_loop mem wr partial_buf s =
     (if vs_size partial_buf = 0 then Some (Ok (), s)
      else case retry_eintr (wr (slice_bytes mem partial_buf)) s of
          None \<Rightarrow> None
        | Some (r, s') \<Rightarrow>
            (case r of
               Ok n \<Rightarrow>
                 if n = 0 then Some (Err (VIOError KWriteZero), s')
                 else (case slice_offset mem n partial_buf of
                         Ok p \<Rightarrow> write_all_loop mem wr p s'
                       | Err e \<Rightarrow> Some (Err e, s')
                       | Panic \<Rightarrow> Some (Panic, s'))
             | Err e \<Rightarrow> Some (Err e, s')
             | Panic \<Rightarrow> Some (Panic, s')))"

definition write_all_volatile :: "gmem \<Rightarrow> 's writer \<Rightarrow> vslice \<Rightarrow> ('s, unit, volatile_error) pact" where
  "write_all_volatile mem wr buf s =
     (case slice_offset mem 0 buf of
        Ok p \<Rightarrow> write_all_loop mem wr p s
      | Err e \<Rightarrow> Some (Err e, s)
      | Panic \<Rightarrow> Some (Panic, s))"

section \<open>Their implementations\<close>

text \<open>Byte slices advance as they are read or written; of a slice written to, the part already filled is kept.\<close>

definition slice_read_volatile :: "u8 list reader" where
  "slice_read_volatile buf st =
     (let (src, mem) = st; (n, mem') = copy_to_volatile_slice buf src (min (vs_size buf) (length src)) mem in
      (Ok n, (drop n src, mem')))"

definition slice_read_exact_volatile :: "vslice \<Rightarrow> (u8 list \<times> gmem, unit, volatile_error) act" where
  "slice_read_exact_volatile buf st =
     (if length (fst st) < vs_size buf then (Err (VIOError KUnexpectedEof), st)
      else abind (slice_read_volatile buf) (\<lambda>_. alift (Ok ())) st)"

definition slice_write_volatile :: "(u8 list \<times> u8 list) writer" where
  "slice_write_volatile buf dst =
     (let n = min (length buf) (length (snd dst)) in (Ok n, (fst dst @ take n buf, drop n (snd dst))))"

definition slice_write_all_volatile :: "u8 list \<Rightarrow> (u8 list \<times> u8 list, unit, volatile_error) act" where
  "slice_write_all_volatile buf =
     abind (slice_write_volatile buf) (\<lambda>n. alift (if n = length buf then Ok () else Err (VIOError KWriteZero)))"

definition vec_write_volatile :: "u8 list writer" where
  "vec_write_volatile buf v = (Ok (length buf), v @ buf)"

text \<open>A position only grows while it is within the data, so it needs no bound.\<close>

record cursor =
  cu_data :: "u8 list"
  cu_pos :: nat

definition cursor_read_volatile :: "cursor reader" where
  "cursor_read_volatile buf st =
     (let (c, mem) = st; len = min (cu_pos c) (length (cu_data c)) in
      case slice_read_volatile buf (drop len (cu_data c), mem) of
        (Ok n, (_, mem')) \<Rightarrow> (Ok n, (c\<lparr>cu_pos := cu_pos c + n\<rparr>, mem'))
      | (Err e, (_, mem')) \<Rightarrow> (Err e, (c, mem'))
      | (Panic, (_, mem')) \<Rightarrow> (Panic, (c, mem')))"

definition cursor_read_exact_volatile :: "vslice \<Rightarrow> (cursor \<times> gmem, unit, volatile_error) act" where
  "cursor_read_exact_volatile buf st =
     (let (c, mem) = st; len = min (cu_pos c) (length (cu_data c)) in
      case slice_read_exact_volatile buf (drop len (cu_data c), mem) of
        (Ok _, (_, mem')) \<Rightarrow> (Ok (), (c\<lparr>cu_pos := cu_pos c + vs_size buf\<rparr>, mem'))
      | (Err e, (_, mem')) \<Rightarrow> (Err e, (c, mem'))
      | (Panic, (_, mem')) \<Rightarrow> (Panic, (c, mem')))"

definition cursor_write_volatile :: "cursor writer" where
  "cursor_write_volatile buf c =
     (let pos = min (cu_pos c) (length (cu_data c)) in
      case slice_write_volatile buf ([], drop pos (cu_data c)) of
        (Ok n, (front, rest)) \<Rightarrow> (Ok n, c\<lparr>cu_data := take pos (cu_data c) @ front @ rest, cu_pos := cu_pos c + n\<rparr>)
      | (Err e, _) \<Rightarrow> (Err e, c)
      | (Panic, _) \<Rightarrow> (Panic, c))"

text \<open>
  File descriptors.  The system call \<^verbatim>\<open>read\<close> is given the length of the buffer; it stores bytes at the
  start of it and succeeds or, having possibly stored some, fails with an error.
\<close>

type_synonym 's sys_read = "nat \<Rightarrow> 's \<Rightarrow> (u8 list \<times> io_kind option) \<times> 's"
type_synonym 's sys_write = "u8 list \<Rightarrow> 's \<Rightarrow> (nat, io_kind) result \<times> 's"

definition mark_slice_dirty :: "vslice \<Rightarrow> nat \<Rightarrow> gmem \<Rightarrow> gmem" where
  "mark_slice_dirty s n mem =
     (let r = mem ! vs_region s in
      mem[vs_region s := r\<lparr>rg_bitmap := bs_inner (slice_mark_dirty 0 n (bitmap_slice_at (vs_start s) (rg_bitmap r)))\<rparr>])"

definition store_bytes :: "vslice \<Rightarrow> u8 list \<Rightarrow> gmem \<Rightarrow> gmem" where
  "store_bytes s v mem =
     (let r = mem ! vs_region s in mem[vs_region s := r\<lparr>rg_bytes := overwrite_at (vs_start s) v (rg_bytes r)\<rparr>])"

definition read_volatile_raw_fd :: "'s sys_read \<Rightarrow> 's reader" where
  "read_volatile_raw_fd sys_read buf st =
     (let (s, mem) = st; ((v, err), s') = sys_read (vs_size buf) s; mem = store_bytes buf v mem in
      case err of
        Some e \<Rightarrow> (Err (VIOError e), (s', mark_slice_dirty buf (vs_size buf) mem))
      | None \<Rightarrow> (Ok (length v), (s', mark_slice_dirty buf (length v) mem)))"

definition write_volatile_raw_fd :: "'s sys_write \<Rightarrow> 's writer" where
  "write_volatile_raw_fd sys_write buf s = (let (r, s') = sys_write buf s in (map_err VIOError r, s'))"

section \<open>Transfers of slices (volatile_memory.rs) and guest memory (guest_memory.rs)\<close>

definition first_part :: "gmem \<Rightarrow> nat \<Rightarrow> nat \<Rightarrow> vslice \<Rightarrow> (vslice, volatile_error) result" where
  "first_part mem addr count s =
     rbind (slice_offset mem addr s) (\<lambda>s'.
       case subslice 0 (min (vs_size s') count) s' of Ok p \<Rightarrow> Ok p | _ \<Rightarrow> Panic)"

definition vs_read_volatile_from ::
    "'s reader \<Rightarrow> nat \<Rightarrow> nat \<Rightarrow> vslice \<Rightarrow> ('s \<times> gmem, nat, volatile_error) pact" where
  "vs_read_volatile_from rd addr count s st =
     pbind (plift (first_part (snd st) addr count s)) (\<lambda>p. retry_eintr (rd p)) st"

definition vs_read_exact_volatile_from ::
    "(vslice \<Rightarrow> ('s \<times> gmem, unit, volatile_error) pact) \<Rightarrow> nat \<Rightarrow> nat \<Rightarrow> vslice \<Rightarrow> ('s \<times> gmem, unit, volatile_error) pact" where
  "vs_read_exact_volatile_from rd_exact addr count s = pbind (plift (subslice addr count s)) rd_exact"

definition vs_write_volatile_to ::
    "gmem \<Rightarrow> 's writer \<Rightarrow> nat \<Rightarrow> nat \<Rightarrow> vslice \<Rightarrow> ('s, nat, volatile_error) pact" where
  "vs_write_volatile_to mem wr addr count s =
     pbind (plift (first_part mem addr count s)) (\<lambda>p. retry_eintr (wr (slice_bytes mem p)))"

definition vs_write_all_volatile_to ::
    "(vslice \<Rightarrow> ('s, unit, volatile_error) pact) \<Rightarrow> nat \<Rightarrow> nat \<Rightarrow> vslice \<Rightarrow> ('s, unit, volatile_error) pact" where
  "vs_write_all_volatile_to wr_all addr count s = pbind (plift (subslice addr count s)) wr_all"

fun read_volatile_fold :: "'s reader \<Rightarrow> nat \<Rightarrow> (vslice, guest_memory_error) result list
    \<Rightarrow> ('s \<times> gmem, nat, guest_memory_error) pact" where
  "read_volatile_fold rd acc [] = plift (Ok acc)"
| "read_volatile_fold rd acc (Ok s # items) =
     pbind (pmap_err from_volatile_error (vs_read_volatile_from rd 0 (vs_size s) s)) (\<lambda>n.
       read_volatile_fold rd (acc + n) items)"
| "read_volatile_fold rd acc (Err e # items) = plift (Err e)"
| "read_volatile_fold rd acc (Panic # items) = plift Panic"

definition gm_read_volatile_from :: "'s reader \<Rightarrow> u64 \<Rightarrow> nat \<Rightarrow> ('s \<times> gmem, nat, guest_memory_error) pact" where
  "gm_read_volatile_from rd a count st =
     pbind (plift (stop_on_error (gm_get_slices (snd st) a count))) (read_volatile_fold rd 0) st"

definition gm_read_exact_volatile_from :: "'s reader \<Rightarrow> u64 \<Rightarrow> nat \<Rightarrow> ('s \<times> gmem, unit, guest_memory_error) pact" where
  "gm_read_exact_volatile_from rd a count =
     pbind (gm_read_volatile_from rd a count) (\<lambda>res.
       plift (if res \<noteq> count then Err (PartialBuffer count res) else Ok ()))"

fun write_volatile_fold :: "(vslice \<Rightarrow> ('s, unit, volatile_error) pact) \<Rightarrow> nat
    \<Rightarrow> (vslice, guest_memory_error) result list \<Rightarrow> ('s, nat, guest_memory_error) pact" where
  "write_volatile_fold wr_all acc [] = plift (Ok acc)"
| "write_volatile_fold wr_all acc (Ok s # items) =
     pbind (pmap_err from_volatile_error (vs_write_all_volatile_to wr_all 0 (vs_size s) s)) (\<lambda>_.
       write_volatile_fold wr_all (acc + vs_size s) items)"
| "write_volatile_fold wr_all acc (Err e # items) = plift (Err e)"
| "write_volatile_fold wr_all acc (Panic # items) = plift Panic"

definition gm_write_volatile_to ::
    "gmem \<Rightarrow> (vslice \<Rightarrow> ('s, unit, volatile_error) pact) \<Rightarrow> u64 \<Rightarrow> nat \<Rightarrow> ('s, nat, guest_memory_error) pact" where
  "gm_write_volatile_to mem wr_all a count =
     pbind (plift (stop_on_error (gm_get_slices mem a count))) (write_volatile_fold wr_all 0)"

definition gm_write_all_volatile_to ::
    "gmem \<Rightarrow> (vslice \<Rightarrow> ('s, unit, volatile_error) pact) \<Rightarrow> u64 \<Rightarrow> nat \<Rightarrow> ('s, unit, guest_memory_error) pact" where
  "gm_write_all_volatile_to mem wr_all a count =
     pbind (gm_write_volatile_to mem wr_all a count) (\<lambda>res.
       plift (if res \<noteq> count then Err (PartialBuffer count res) else Ok ()))"

section \<open>Partial actions\<close>

lemma pbind_plift [simp]: "pbind (plift (Ok x)) g s = g x s" "pbind (plift (Err e)) g s = Some (Err e, s)"
  by (simp_all add: plift_def pbind_def)

lemma pmap_err_Ok: "f s = Some (Ok x, s') \<Longrightarrow> pmap_err h f s = Some (Ok x, s')"
  by (simp add: pmap_err_def)

lemma retry_eintr_done: "io s = (r, s') \<Longrightarrow> r \<noteq> Err (VIOError KInterrupted) \<Longrightarrow> retry_eintr io s = Some (r, s')"
  by (simp add: retry_eintr.simps)

text \<open>Retrying ends with the first outcome that is not an interruption.\<close>

lemma retry_eintr_ends:
  "\<forall>k < n. io (st k) = (Err (VIOError KInterrupted), st (Suc k)) \<Longrightarrow> io (st n) = (r, s') \<Longrightarrow>
     r \<noteq> Err (VIOError KInterrupted) \<Longrightarrow> retry_eintr io (st 0) = Some (r, s')"
proof (induction n arbitrary: st)
  case (Suc n)
  have "retry_eintr io (st (Suc 0)) = Some (r, s')"
    using Suc.IH [of "\<lambda>k. st (Suc k)"] Suc.prems by simp
  then show ?case using Suc.prems(1) by (simp add: retry_eintr.simps [of io "st 0"])
qed (simp add: retry_eintr_done)

section \<open>Sources of bytes\<close>

text \<open>
  The contract of a source that is read without gaps: a read fills the slice, or as much of it as there
  are bytes left.  \<open>moved n s s'\<close> says that \<open>s'\<close> is \<open>s\<close> after the next \<open>n\<close> bytes.
\<close>

lemma updated_Nil: "updated mem mem' x [] \<Longrightarrow> updated mem mem' y []"
  by (auto simp: updated_def)

lemma first_part_all:
  assumes "mem_ok mem" "slice_in mem sl"
  shows "first_part mem 0 (vs_size sl) sl = Ok sl"
proof -
  have "vs_size sl \<le> USIZE_MAX"
    using length_usize [OF mem_okD [OF assms(1)], of "vs_region sl" "vs_size sl"] assms(2) by (simp add: slice_in_def)
  then show ?thesis using slice_offset_eq(1) [OF assms, of 0]
    by (simp add: first_part_def subslice_def compute_end_offset_def compute_offset_def)
qed

locale byte_source =
  fixes rd :: "'s reader"
    and rest :: "'s \<Rightarrow> u8 list"
    and moved :: "nat \<Rightarrow> 's \<Rightarrow> 's \<Rightarrow> bool"
  assumes read_next: "mem_ok mem \<Longrightarrow> slice_in mem sl \<Longrightarrow> n = min (vs_size sl) (length (rest s)) \<Longrightarrow>
      \<exists>s' mem'. rd sl (s, mem) = (Ok n, (s', mem')) \<and> updated mem mem' (slice_addr mem sl) (take n (rest s)) \<and> moved n s s'"
    and moved_none: "moved 0 s s"
    and moved_on: "moved n s s' \<Longrightarrow> moved m s' s'' \<Longrightarrow> moved (n + m) s s''"
    and rest_moved: "moved n s s' \<Longrightarrow> rest s' = drop n (rest s)"
begin

lemma vs_read_volatile_from_ok:
  assumes "mem_ok mem" "slice_in mem sl" "n = min (vs_size sl) (length (rest s))"
  shows "\<exists>s' mem'. vs_read_volatile_from rd 0 (vs_size sl) sl (s, mem) = Some (Ok n, (s', mem')) \<and>
    updated mem mem' (slice_addr mem sl) (take n (rest s)) \<and> moved n s s'"
proof -
  obtain s' mem' where r: "rd sl (s, mem) = (Ok n, (s', mem'))"
    "updated mem mem' (slice_addr mem sl) (take n (rest s))" "moved n s s'"
    using read_next [OF assms] by blast
  have "vs_read_volatile_from rd 0 (vs_size sl) sl (s, mem) = Some (Ok n, (s', mem'))"
    using retry_eintr_done [of "rd sl", OF r(1)] by (simp add: vs_read_volatile_from_def first_part_all [OF assms(1,2)])
  then show ?thesis using r(2,3) by blast
qed

lemma read_volatile_fold_ok:
  assumes "mem_ok mem"
  shows "mem_ok mem' \<Longrightarrow> shape mem' = shape mem \<Longrightarrow> n = min (mapped_prefix mem (unat a) c) (length (rest s)) \<Longrightarrow>
    \<exists>s' mem''. read_volatile_fold rd acc (filter not_err (gm_get_slices mem a c)) (s, mem') =
        Some (Ok (acc + n), (s', mem'')) \<and>
      updated mem' mem'' (unat a) (take n (rest s)) \<and> moved n s s'"
proof (induction c arbitrary: a acc mem' s n rule: less_induct)
  case (less c)
  show ?case
  proof (cases "0 < c \<and> find_region mem a \<noteq> None")
    case False
    then have "filter not_err (gm_get_slices mem a c) = []" "mapped_prefix mem (unat a) c = 0"
      using get_slices_eqs(1,2) [OF assms] prefix_hole [OF assms, of a c] by (cases "c = 0"; simp)+
    then show ?thesis using updated_refl [OF less.prems(1)] less.prems(3) moved_none by (simp add: plift_def)
  next
    case True
    then obtain i where i: "find_region mem a = Some i" and c: "0 < c" by auto
    note h = head_facts [OF assms i]
    let ?k = "head_len mem i a c" and ?sl = "head_slice mem i a c"
    let ?b = "a + of_nat ?k" and ?p = "mapped_prefix mem (unat (a + of_nat ?k)) (c - ?k)"
    define n1 where "n1 = min ?k (length (rest s))"
    have sl: "slice_in mem' ?sl" "slice_addr mem' ?sl = unat a" "vs_size ?sl = ?k"
      using h(2,3) shape_slice [OF less.prems(2)] by (auto simp: head_slice_def)
    obtain s1 m1 where m1: "vs_read_volatile_from rd 0 (vs_size ?sl) ?sl (s, mem') = Some (Ok n1, (s1, m1))"
      "updated mem' m1 (unat a) (take n1 (rest s))" "moved n1 s s1"
      using vs_read_volatile_from_ok [OF less.prems(1) sl(1), of n1 s] sl(2,3) n1_def by auto
    have m1ok: "mem_ok m1" "shape m1 = shape mem"
      using m1(2) less.prems(2) by (simp_all add: updated_def)
    have lt: "c - ?k < c" using h(4) c by (metis diff_less)
    define n2 where "n2 = min ?p (length (rest s1))"
    obtain s2 m2 where m2: "read_volatile_fold rd (acc + n1) (filter not_err (gm_get_slices mem ?b (c - ?k))) (s1, m1) =
        Some (Ok (acc + n1 + n2), (s2, m2))"
      "updated m1 m2 (unat ?b) (take n2 (rest s1))" "moved n2 s1 s2"
      using less.IH [OF lt m1ok n2_def] by blast
    have r1: "rest s1 = drop n1 (rest s)" by (rule rest_moved [OF m1(3)])
    have pre: "mapped_prefix mem (unat a) c = ?k + ?p" by (rule prefix_head [OF assms i])
    have "length (rest s1) = length (rest s) - n1" using r1 by simp
    then have n: "n = n1 + n2" using less.prems(3) pre unfolding n1_def n2_def by linarith
    have "updated m1 m2 (unat a + length (take n1 (rest s))) (take n2 (rest s1))"
    proof (cases "?k \<le> length (rest s)")
      case True
      then show ?thesis using m2(2) h(6) [of c] by (simp add: n1_def min_def)
    next
      case False
      then have "take n2 (rest s1) = []" using r1 by (simp add: n1_def)
      then show ?thesis using m2(2) updated_Nil by metis
    qed
    from updated_trans [OF m1(2) this] have "updated mem' m2 (unat a) (take n (rest s))"
      unfolding n r1 take_add .
    moreover have "moved n s s2" unfolding n by (rule moved_on [OF m1(3) m2(3)])
    ultimately show ?thesis
      unfolding get_slices_eqs(3) [OF assms c i] n
      using pmap_err_Ok [where f = "vs_read_volatile_from rd 0 (vs_size ?sl) ?sl" and h = from_volatile_error, OF m1(1)] m2(1)
      by (simp add: pbind_def add.assoc)
  qed
qed

text \<open>A transfer into guest memory stores the next bytes of the source without gaps up to the first hole.\<close>

lemma gm_read_volatile_from_ok:
  assumes "mem_ok mem" "n = min (mapped_prefix mem (unat a) c) (length (rest s))" "c = 0 \<or> byte_at mem (unat a) \<noteq> None"
  shows "\<exists>s' mem'. gm_read_volatile_from rd a c (s, mem) = Some (Ok n, (s', mem')) \<and>
    updated mem mem' (unat a) (take n (rest s)) \<and> moved n s s'"
  using read_volatile_fold_ok [OF assms(1) assms(1) refl, of n a c s 0] assms(2,3) find_region_byte_at [OF assms(1), of a]
  by (auto simp: gm_read_volatile_from_def stop_on_error_slices [OF assms(1)])

lemma gm_read_exact_volatile_from_ok:
  assumes "mem_ok mem" "mapped mem a c" "c \<le> length (rest s)"
  shows "\<exists>s' mem'. gm_read_exact_volatile_from rd a c (s, mem) = Some (Ok (), (s', mem')) \<and>
    updated mem mem' (unat a) (take c (rest s)) \<and> moved c s s'"
proof -
  have p: "c = min (mapped_prefix mem (unat a) c) (length (rest s))" using assms(2,3) by (simp add: mapped_iff)
  have "c = 0 \<or> byte_at mem (unat a) \<noteq> None" using mapped_head [OF assms(2)] by auto
  then obtain s' mem' where "gm_read_volatile_from rd a c (s, mem) = Some (Ok c, (s', mem'))"
    "updated mem mem' (unat a) (take c (rest s))" "moved c s s'"
    using gm_read_volatile_from_ok [OF assms(1) p] by blast
  then show ?thesis by (simp add: gm_read_exact_volatile_from_def plift_def pbind_def)
qed

lemma gm_read_exact_volatile_from_err:
  assumes "mem_ok mem" "\<not> (mapped mem a c \<and> c \<le> length (rest s))"
  shows "\<exists>e n s' mem'. gm_read_exact_volatile_from rd a c (s, mem) = Some (Err e, (s', mem')) \<and>
    n \<le> c \<and> updated mem mem' (unat a) (take n (rest s)) \<and> moved n s s'"
proof (cases "byte_at mem (unat a) = None")
  case True
  have "0 < c" using assms(2) by (cases c) (auto simp: mapped_def)
  moreover have "find_region mem a = None" using True find_region_byte_at [OF assms(1)] by simp
  ultimately have "gm_read_exact_volatile_from rd a c (s, mem) = Some (Err (InvalidGuestAddress a), (s, mem))"
    by (simp add: gm_read_exact_volatile_from_def gm_read_volatile_from_def stop_on_error_slices [OF assms(1)] pbind_def plift_def)
  then show ?thesis using updated_refl [OF assms(1)] moved_none by (metis le0 take0)
next
  case False
  let ?n = "min (mapped_prefix mem (unat a) c) (length (rest s))"
  obtain s' mem' where r: "gm_read_volatile_from rd a c (s, mem) = Some (Ok ?n, (s', mem'))"
    "updated mem mem' (unat a) (take ?n (rest s))" "moved ?n s s'"
    using gm_read_volatile_from_ok [OF assms(1) refl] False by blast
  have "?n \<noteq> c" "?n \<le> c" using assms(2) mapped_prefix_le [of mem "unat a" c] by (auto simp: mapped_iff)
  then show ?thesis using r by (auto simp: gm_read_exact_volatile_from_def pbind_def plift_def)
qed

end

section \<open>Files\<close>

text \<open>
  The contract of a file: a content and a position, which a seek sets; reading stores the bytes from the
  position on, and writing within the content replaces them.
\<close>

lemma overwrite_append:
  "pos + length v + length w \<le> length xs \<Longrightarrow>
     overwrite_at (pos + length v) w (overwrite_at pos v xs) = overwrite_at pos (v @ w) xs"
proof -
  assume "pos + length v + length w \<le> length xs"
  then have "min (length xs) pos = pos" by simp
  then show ?thesis by (simp add: overwrite_at_def ac_simps)
qed

lemma overwrite_Nil [simp]: "overwrite_at pos [] xs = xs"
  by (simp add: overwrite_at_def)

locale positioned_source =
  fixes rd :: "'s reader"
    and pos :: "'s \<Rightarrow> nat"
    and content :: "'s \<Rightarrow> u8 list"
  assumes read_law: "mem_ok mem \<Longrightarrow> slice_in mem sl \<Longrightarrow>
      \<exists>s' mem'. rd sl (s, mem) = (Ok (min (vs_size sl) (length (content s) - pos s)), (s', mem')) \<and>
        updated mem mem' (slice_addr mem sl) (take (vs_size sl) (drop (pos s) (content s))) \<and>
        content s' = content s \<and> pos s' = pos s + min (vs_size sl) (length (content s) - pos s)"

sublocale positioned_source \<subseteq> source: byte_source rd "\<lambda>s. drop (pos s) (content s)"
  "\<lambda>n s s'. content s' = content s \<and> pos s' = pos s + n"
proof
  fix mem sl n s
  assume a: "mem_ok mem" "slice_in mem sl" "n = min (vs_size sl) (length (drop (pos s) (content s)))"
  have "take n (drop (pos s) (content s)) = take (vs_size sl) (drop (pos s) (content s))"
    using a(3) by (simp add: min_def)
  then show "\<exists>s' mem'. rd sl (s, mem) = (Ok n, (s', mem')) \<and>
      updated mem mem' (slice_addr mem sl) (take n (drop (pos s) (content s))) \<and>
      content s' = content s \<and> pos s' = pos s + n"
    using read_law [OF a(1,2), of s] a(3) by simp
qed (simp_all add: add.commute)

context positioned_source
begin

lemma gm_read_exact_ok:
  assumes "mem_ok mem" "mapped mem a c" "pos s + c \<le> length (content s)"
  shows "\<exists>s' mem'. gm_read_exact_volatile_from rd a c (s, mem) = Some (Ok (), (s', mem')) \<and>
    updated mem mem' (unat a) (take c (drop (pos s) (content s))) \<and> content s' = content s \<and> pos s' = pos s + c"
  using source.gm_read_exact_volatile_from_ok [OF assms(1,2), of s] assms(3) by simp

end

locale random_access = positioned_source rd pos content
  for rd :: "'s reader" and pos :: "'s \<Rightarrow> nat" and content :: "'s \<Rightarrow> u8 list" +
  fixes sk :: "u64 \<Rightarrow> ('s, u64, io_kind) act"
    and wr_all :: "gmem \<Rightarrow> vslice \<Rightarrow> ('s, unit, volatile_error) pact"
  assumes seek_law: "\<exists>s'. sk off s = (Ok off, s') \<and> pos s' = unat off \<and> content s' = content s"
    and write_law: "mem_ok mem \<Longrightarrow> slice_in mem sl \<Longrightarrow> pos s + vs_size sl \<le> length (content s) \<Longrightarrow>
      \<exists>s'. wr_all mem sl s = Some (Ok (), s') \<and>
        content s' = overwrite_at (pos s) (slice_bytes mem sl) (content s) \<and> pos s' = pos s + vs_size sl"

context random_access
begin

lemma write_volatile_fold_ok:
  assumes "mem_ok mem"
  shows "pos s + mapped_prefix mem (unat a) c \<le> length (content s) \<Longrightarrow>
    \<exists>s'. write_volatile_fold (wr_all mem) acc (filter not_err (gm_get_slices mem a c)) s =
        Some (Ok (acc + mapped_prefix mem (unat a) c), s') \<and>
      content s' = overwrite_at (pos s) (bytes_at mem (unat a) (mapped_prefix mem (unat a) c)) (content s) \<and>
      pos s' = pos s + mapped_prefix mem (unat a) c"
proof (induction c arbitrary: a acc s rule: less_induct)
  case (less c)
  show ?case
  proof (cases "0 < c \<and> find_region mem a \<noteq> None")
    case False
    then have "filter not_err (gm_get_slices mem a c) = []" "mapped_prefix mem (unat a) c = 0"
      using get_slices_eqs(1,2) [OF assms] prefix_hole [OF assms, of a c] by (cases "c = 0"; simp)+
    then show ?thesis by (simp add: plift_def bytes_at_def)
  next
    case True
    then obtain i where i: "find_region mem a = Some i" and c: "0 < c" by auto
    note h = head_facts [OF assms i]
    let ?n = "head_len mem i a c" and ?sl = "head_slice mem i a c"
    let ?b = "a + of_nat ?n" and ?p = "mapped_prefix mem (unat (a + of_nat ?n)) (c - ?n)"
    have pre: "mapped_prefix mem (unat a) c = ?n + ?p" by (rule prefix_head [OF assms i])
    have sl: "slice_in mem ?sl" "vs_size ?sl = ?n" "slice_bytes mem ?sl = bytes_at mem (unat a) ?n"
      using h(2,3) slice_bytes_eq [OF assms h(2)] by (auto simp: head_slice_def)
    obtain s1 where s1: "wr_all mem ?sl s = Some (Ok (), s1)"
      "content s1 = overwrite_at (pos s) (bytes_at mem (unat a) ?n) (content s)" "pos s1 = pos s + ?n"
      using write_law [OF assms sl(1), of s] less.prems unfolding pre sl(2,3) by auto
    have "?n \<le> USIZE_MAX"
      using length_usize [OF mem_okD [OF assms h(1)], of ?n] sl(1,2) by (simp add: slice_in_def head_slice_def)
    then have "subslice 0 ?n ?sl = Ok ?sl"
      using sl(2) by (simp add: subslice_def compute_end_offset_def compute_offset_def)
    then have w: "pmap_err from_volatile_error (vs_write_all_volatile_to (wr_all mem) 0 ?n ?sl) s = Some (Ok (), s1)"
      by (intro pmap_err_Ok) (simp add: vs_write_all_volatile_to_def s1(1))
    have lt: "c - ?n < c" using h(4) c by (metis diff_less)
    have len: "length (content s1) = length (content s)" using less.prems unfolding pre s1(2) by simp
    obtain s2 where s2: "write_volatile_fold (wr_all mem) (acc + ?n) (filter not_err (gm_get_slices mem ?b (c - ?n))) s1 =
        Some (Ok (acc + ?n + ?p), s2)"
      "content s2 = overwrite_at (pos s1) (bytes_at mem (unat ?b) ?p) (content s1)" "pos s2 = pos s1 + ?p"
      using less.IH [OF lt, of s1 ?b "acc + ?n"] less.prems unfolding pre s1(3) len by (auto simp: add.assoc)
    have "content s2 = overwrite_at (pos s) (bytes_at mem (unat a) (?n + ?p)) (content s)"
      using overwrite_append [of "pos s" "bytes_at mem (unat a) ?n" "bytes_at mem (unat ?b) ?p" "content s"]
        less.prems h(6) [of c] unfolding pre s2(2) s1(2,3) by (simp add: bytes_at_add)
    then show ?thesis
      unfolding pre get_slices_eqs(3) [OF assms c i] using w s2(1,3) s1(3) sl(2) by (simp add: pbind_def add.assoc)
  qed
qed

lemma gm_write_all_volatile_to_ok:
  assumes "mem_ok mem" "mapped mem a c" "pos s + c \<le> length (content s)"
  shows "\<exists>s'. gm_write_all_volatile_to mem (wr_all mem) a c s = Some (Ok (), s') \<and>
    content s' = overwrite_at (pos s) (bytes_at mem (unat a) c) (content s) \<and> pos s' = pos s + c"
proof -
  have p: "mapped_prefix mem (unat a) c = c" using assms(2) by (simp add: mapped_iff)
  have "stop_on_error (gm_get_slices mem a c) = Ok (filter not_err (gm_get_slices mem a c))"
    using mapped_head [OF assms(2)] find_region_byte_at [OF assms(1), of a]
    by (auto simp: stop_on_error_slices [OF assms(1)])
  then show ?thesis
    using write_volatile_fold_ok [OF assms(1), of s a c 0] assms(3) unfolding p
    by (auto simp: gm_write_all_volatile_to_def gm_write_volatile_to_def pbind_def plift_def)
qed

end

section \<open>Slices and cursors meet the contracts\<close>

lemma slice_read_volatile_ok:
  assumes "mem_ok mem" "slice_in mem sl"
  shows "\<exists>mem'. slice_read_volatile sl (src, mem) =
      (Ok (min (vs_size sl) (length src)), (drop (vs_size sl) src, mem')) \<and>
    updated mem mem' (slice_addr mem sl) (take (vs_size sl) src)"
proof -
  let ?n = "min (vs_size sl) (length src)"
  have "drop ?n src = drop (vs_size sl) src" "take ?n src = take (vs_size sl) src" by (auto simp: min_def)
  moreover have "updated mem (write_at (vs_region sl) (vs_start sl) (take ?n src) mem) (slice_addr mem sl) (take ?n src)"
    unfolding slice_addr_def using assms by (intro write_at_updated) (auto simp: slice_in_def)
  ultimately show ?thesis
    using copy_to_volatile_slice_eq [OF assms, of ?n src] by (simp add: slice_read_volatile_def)
qed

interpretation slice: byte_source slice_read_volatile "\<lambda>src. src" "\<lambda>n src src'. src' = drop n src"
proof
  fix mem sl n and src :: "u8 list" assume a: "mem_ok mem" "slice_in mem sl" "n = min (vs_size sl) (length src)"
  have "take n src = take (vs_size sl) src" "drop n src = drop (vs_size sl) src" using a(3) by (auto simp: min_def)
  then show "\<exists>s' mem'. slice_read_volatile sl (src, mem) = (Ok n, (s', mem')) \<and>
      updated mem mem' (slice_addr mem sl) (take n src) \<and> s' = drop n src"
    using slice_read_volatile_ok [OF a(1,2), of src] a(3) by auto
qed (simp_all add: add.commute)

text \<open>\<^verbatim>\<open>Seek\<close> of the standard library for a cursor.\<close>

definition cursor_seek :: "u64 \<Rightarrow> (cursor, u64, io_kind) act" where
  "cursor_seek off c = (Ok off, c\<lparr>cu_pos := unat off\<rparr>)"

lemma cursor_write_all:
  assumes "mem_ok mem" "slice_in mem sl" "cu_pos c + vs_size sl \<le> length (cu_data c)"
  shows "write_all_volatile mem cursor_write_volatile sl c = Some (Ok (),
    \<lparr>cu_data = overwrite_at (cu_pos c) (slice_bytes mem sl) (cu_data c), cu_pos = cu_pos c + vs_size sl\<rparr>)"
proof -
  have len: "length (slice_bytes mem sl) = vs_size sl" using assms(2) by (auto simp: slice_bytes_def slice_in_def)
  have off: "slice_offset mem 0 sl = Ok sl" using slice_offset_eq(1) [OF assms(1,2), of 0] by simp
  show ?thesis
  proof (cases "vs_size sl = 0")
    case True
    then have "slice_bytes mem sl = []" using len by simp
    then show ?thesis using True off by (simp add: write_all_volatile_def write_all_loop.simps)
  next
    case False
    let ?c = "\<lparr>cu_data = overwrite_at (cu_pos c) (slice_bytes mem sl) (cu_data c), cu_pos = cu_pos c + vs_size sl\<rparr>"
    have "cursor_write_volatile (slice_bytes mem sl) c = (Ok (vs_size sl), ?c)"
      using assms(3) len
      by (cases c) (simp add: cursor_write_volatile_def slice_write_volatile_def overwrite_at_def min_absorb1 Let_def add.commute [of "vs_size sl"])
    then have "retry_eintr (cursor_write_volatile (slice_bytes mem sl)) c = Some (Ok (vs_size sl), ?c)"
      by (intro retry_eintr_done) simp_all
    moreover have "slice_offset mem (vs_size sl) sl = Ok (sl\<lparr>vs_start := vs_start sl + vs_size sl, vs_size := 0\<rparr>)"
      using slice_offset_eq(1) [OF assms(1,2), of "vs_size sl"] by simp
    moreover have "write_all_loop mem cursor_write_volatile (sl\<lparr>vs_start := vs_start sl + vs_size sl, vs_size := 0\<rparr>) ?c = Some (Ok (), ?c)"
      by (subst write_all_loop.simps) simp
    ultimately show ?thesis
      using off False by (simp add: write_all_volatile_def write_all_loop.simps [of mem _ sl])
  qed
qed

interpretation cursor: positioned_source cursor_read_volatile cu_pos cu_data
proof
  fix mem sl and c :: cursor assume a: "mem_ok mem" "slice_in mem sl"
  have "drop (min (cu_pos c) (length (cu_data c))) (cu_data c) = drop (cu_pos c) (cu_data c)" by (simp add: min_def)
  then show "\<exists>s' mem'. cursor_read_volatile sl (c, mem) =
      (Ok (min (vs_size sl) (length (cu_data c) - cu_pos c)), (s', mem')) \<and>
      updated mem mem' (slice_addr mem sl) (take (vs_size sl) (drop (cu_pos c) (cu_data c))) \<and>
      cu_data s' = cu_data c \<and> cu_pos s' = cu_pos c + min (vs_size sl) (length (cu_data c) - cu_pos c)"
    using slice_read_volatile_ok [OF a, of "drop (cu_pos c) (cu_data c)"]
    by (auto simp: cursor_read_volatile_def)
qed

interpretation cursor: random_access cursor_read_volatile cu_pos cu_data cursor_seek
  "\<lambda>mem. write_all_volatile mem cursor_write_volatile"
proof
  fix off and c :: cursor
  show "\<exists>s'. cursor_seek off c = (Ok off, s') \<and> cu_pos s' = unat off \<and> cu_data s' = cu_data c"
    by (simp add: cursor_seek_def)
next
  fix mem sl and c :: cursor assume "mem_ok mem" "slice_in mem sl" "cu_pos c + vs_size sl \<le> length (cu_data c)"
  from cursor_write_all [OF this]
  show "\<exists>s'. write_all_volatile mem cursor_write_volatile sl c = Some (Ok (), s') \<and>
      cu_data s' = overwrite_at (cu_pos c) (slice_bytes mem sl) (cu_data c) \<and> cu_pos s' = cu_pos c + vs_size sl"
    by simp
qed

section \<open>Properties\<close>

text \<open>
C24. Filling guest memory from a source of bytes that does not stop short.  \<open>read_volatile_from\<close> fails,
  changing nothing, exactly when the first address is not mapped; otherwise it stores the next bytes of
  the source one after the other, across regions, up to the first hole or the end of the source, reports
  how many, changes no other byte and leaves the source behind the bytes it used.
  \<open>read_exact_volatile_from\<close> succeeds exactly when that is the whole request and otherwise says how far it
  came.
\<close>
theorem guest_filled_from_source:
  assumes "byte_source rd rest moved" "mem_ok mem" "0 < c" "n = min (mapped_prefix mem (unat a) c) (length (rest s))"
  shows "if byte_at mem (unat a) = None
    then gm_read_volatile_from rd a c (s, mem) = Some (Err (InvalidGuestAddress a), (s, mem))
    else \<exists>s' mem'. gm_read_volatile_from rd a c (s, mem) = Some (Ok n, (s', mem')) \<and>
      updated mem mem' (unat a) (take n (rest s)) \<and> moved n s s' \<and>
      gm_read_exact_volatile_from rd a c (s, mem) =
        Some (if n = c then Ok () else Err (PartialBuffer c n), (s', mem'))"
proof (cases "byte_at mem (unat a) = None")
  case True
  then have "find_region mem a = None" using find_region_byte_at [OF assms(2)] by simp
  then show ?thesis using True assms(3)
    by (simp add: gm_read_volatile_from_def stop_on_error_slices [OF assms(2)])
next
  case False
  then obtain s' mem' where "gm_read_volatile_from rd a c (s, mem) = Some (Ok n, (s', mem'))"
    "updated mem mem' (unat a) (take n (rest s))" "moved n s s'"
    using byte_source.gm_read_volatile_from_ok [OF assms(1,2,4)] by blast
  then show ?thesis using False
    by (simp add: gm_read_exact_volatile_from_def pbind_def plift_def)
qed

theorem guest_filled_from_source_witness:
  "\<exists>s' mem'. gm_read_volatile_from slice_read_volatile 0x1003 5 ([7, 8, 9], sample_mem) = Some (Ok 3, (s', mem')) \<and>
     byte_at mem' 0x1003 = Some 7 \<and> byte_at mem' 0x1005 = Some 9 \<and> s' = [] \<and>
     gm_read_exact_volatile_from slice_read_volatile 0x1003 5 ([7, 8, 9], sample_mem) =
       Some (Err (PartialBuffer 5 3), (s', mem'))"
proof -
  have p: "mapped_prefix sample_mem (unat (0x1003 :: u64)) 5 = 5"
    by (simp add: mapped_prefix_full_iff sample_byte_at)
  have "\<exists>s' mem'. gm_read_volatile_from slice_read_volatile 0x1003 5 ([7, 8, 9], sample_mem) = Some (Ok 3, (s', mem')) \<and>
      updated sample_mem mem' 0x1003 [7, 8, 9] \<and> s' = [] \<and>
      gm_read_exact_volatile_from slice_read_volatile 0x1003 5 ([7, 8, 9], sample_mem) = Some (Err (PartialBuffer 5 3), (s', mem'))"
    using guest_filled_from_source [OF slice.byte_source_axioms sample_mem_ok, of 5 3 "0x1003" "[7, 8, 9]"] p
    by (simp add: sample_byte_at)
  then show ?thesis by (fastforce simp: updated_def)
qed

text \<open>
  A source that stops short.  \<open>trickle\<close> gives one byte at a time, as a pipe or a socket may; it behaves as
  the trait asks.  The fold over the regions goes on to the next region after a short read, so the second
  byte lands at the start of the second region, behind a byte that was not written, and the result claims
  two bytes; \<open>read_exact_volatile_from\<close> fails although the source has all the bytes.
\<close>

definition trickle :: "u8 list reader" where
  "trickle sl st = slice_read_volatile (sl\<lparr>vs_size := min 1 (vs_size sl)\<rparr>) st"

lemma short_read_leaves_gap:
  "\<exists>mem'. gm_read_volatile_from trickle 0x1002 4 ([7, 8, 9, 10], sample_mem) = Some (Ok 2, ([9, 10], mem')) \<and>
     byte_at mem' 0x1002 = Some 7 \<and> byte_at mem' 0x1003 = Some 0 \<and> byte_at mem' 0x1004 = Some 8"
proof -
  have i: "find_region sample_mem 0x1002 = Some 0" "find_region sample_mem 0x1004 = Some (Suc 0)"
    by (simp_all add: find_region_def binary_search_by_key_def sample_mem_def sample_region_def region_last_addr_def region_len_def)
  have h: "head_len sample_mem 0 0x1002 4 = 2" "head_len sample_mem (Suc 0) 0x1004 2 = 2"
    by (simp_all add: head_len_def sample_mem_def sample_region_def region_end_def)
  let ?s1 = "\<lparr>vs_region = 0, vs_start = 2, vs_size = 2\<rparr>" and ?s2 = "\<lparr>vs_region = Suc 0, vs_start = 0, vs_size = 2\<rparr>"
  have sl: "head_slice sample_mem 0 0x1002 4 = ?s1" "head_slice sample_mem (Suc 0) 0x1004 2 = ?s2"
    unfolding head_slice_def h by (simp_all add: sample_mem_def sample_region_def)
  have items: "gm_get_slices sample_mem 0x1002 4 = [Ok ?s1, Ok ?s2]"
    using get_slices_eqs(3) [OF sample_mem_ok _ i(1), of 4] get_slices_eqs(3) [OF sample_mem_ok _ i(2), of 2]
      get_slices_eqs(1) [OF sample_mem_ok]
    by (simp add: h sl)
  have step: "\<exists>mem'. vs_read_volatile_from trickle 0 (vs_size sl) sl (x # xs, mem) = Some (Ok 1, (xs, mem')) \<and>
      updated mem mem' (slice_addr mem sl) [x]" if u: "mem_ok mem" "slice_in mem sl" "vs_size sl = 2" for mem sl x xs
  proof -
    have one: "slice_in mem (sl\<lparr>vs_size := 1\<rparr>)" "slice_addr mem (sl\<lparr>vs_size := 1\<rparr>) = slice_addr mem sl"
      using u(2,3) by (auto simp: slice_in_def slice_addr_def)
    obtain mem' where m: "trickle sl (x # xs, mem) = (Ok 1, (xs, mem'))" "updated mem mem' (slice_addr mem sl) [x]"
      using slice_read_volatile_ok [OF u(1) one(1), of "x # xs"] u(3) one(2) by (auto simp: trickle_def)
    then have "retry_eintr (trickle sl) (x # xs, mem) = Some (Ok 1, (xs, mem'))" by (intro retry_eintr_done) simp_all
    then show ?thesis using m(2) by (simp add: vs_read_volatile_from_def first_part_all [OF u(1,2)])
  qed
  have in1: "slice_in sample_mem ?s1" "slice_addr sample_mem ?s1 = 0x1002" "slice_in sample_mem ?s2" "slice_addr sample_mem ?s2 = 0x1004"
    by (simp_all add: slice_in_def slice_addr_def sample_mem_def sample_region_def)
  obtain m1 where m1: "vs_read_volatile_from trickle 0 2 ?s1 ([7, 8, 9, 10], sample_mem) = Some (Ok 1, ([8, 9, 10], m1))"
    "updated sample_mem m1 0x1002 [7]"
    using step [OF sample_mem_ok in1(1), of 7 "[8, 9, 10]"] in1(2) by auto
  then have ok: "mem_ok m1" "shape m1 = shape sample_mem" by (simp_all add: updated_def)
  obtain m2 where m2: "vs_read_volatile_from trickle 0 2 ?s2 ([8, 9, 10], m1) = Some (Ok 1, ([9, 10], m2))"
    "updated m1 m2 0x1004 [8]"
    using step [OF ok(1), of ?s2 8 "[9, 10]"] in1(3,4) shape_slice [OF ok(2)] by auto
  have "gm_read_volatile_from trickle 0x1002 4 ([7, 8, 9, 10], sample_mem) = Some (Ok 2, ([9, 10], m2))"
    using m1(1) m2(1) by (simp add: gm_read_volatile_from_def stop_on_error_def items pbind_def pmap_err_def plift_def)
  moreover have "byte_at m2 0x1002 = Some 7" "byte_at m2 0x1003 = Some 0" "byte_at m2 0x1004 = Some 8"
    using m1(2) m2(2) sample_byte_at by (simp_all add: updated_def)
  ultimately show ?thesis by blast
qed

end
