(* ===== verification/VirtBlock.thy ===== *)
theory VirtBlock
  imports VirtBuffers GuestIo
begin

text \<open>
  The block device: \<^verbatim>\<open>vm-virtio/virtio-blk/src\<close>.  A request is parsed from a descriptor chain
  (\<^verbatim>\<open>request.rs\<close>) and executed on a backend (\<^verbatim>\<open>stdio_executor.rs\<close>).  The backend is a type parameter
  of the code; here it is a state together with the operations of the traits it has to implement.
  Structures in guest memory are little-endian, as on the hosts the code supports.
\<close>

section \<open>Requests (request.rs)\<close>

definition VIRTIO_BLK_T_IN :: u32 where "VIRTIO_BLK_T_IN = 0"
definition VIRTIO_BLK_T_OUT :: u32 where "VIRTIO_BLK_T_OUT = 1"
definition VIRTIO_BLK_T_FLUSH :: u32 where "VIRTIO_BLK_T_FLUSH = 4"
definition VIRTIO_BLK_T_GET_ID :: u32 where "VIRTIO_BLK_T_GET_ID = 8"
definition VIRTIO_BLK_T_DISCARD :: u32 where "VIRTIO_BLK_T_DISCARD = 11"
definition VIRTIO_BLK_T_WRITE_ZEROES :: u32 where "VIRTIO_BLK_T_WRITE_ZEROES = 13"

datatype blk_parse_error =
  DescriptorChainTooShort | DescriptorLengthTooSmall | ParseGuestMemory guest_memory_error | InvalidFlushSector
| UnexpectedReadOnlyDescriptor | UnexpectedWriteOnlyDescriptor

datatype request_type = In | Out | Flush | GetDeviceID | Discard | WriteZeroes | Unsupported u32

definition request_type_from :: "u32 \<Rightarrow> request_type" where
  "request_type_from v =
     (if v = VIRTIO_BLK_T_IN then In
      else if v = VIRTIO_BLK_T_OUT then Out
      else if v = VIRTIO_BLK_T_FLUSH then Flush
      else if v = VIRTIO_BLK_T_GET_ID then GetDeviceID
      else if v = VIRTIO_BLK_T_DISCARD then Discard
      else if v = VIRTIO_BLK_T_WRITE_ZEROES then WriteZeroes
      else Unsupported v)"

record request_header =
  rh_request_type :: u32
  rh_sector :: u64

definition request_header_of_bytes :: "u8 list \<Rightarrow> request_header" where
  "request_header_of_bytes bs =
     \<lparr>rh_request_type = of_le_bytes (take 4 bs), rh_sector = of_le_bytes (take 8 (drop 8 bs))\<rparr>"

record request =
  rq_request_type :: request_type
  rq_data :: "(u64 \<times> u32) list"
  rq_sector :: u64
  rq_status_addr :: u64

definition total_data_len :: "request \<Rightarrow> u64" where
  "total_data_len req = sum_list (map (\<lambda>x. ucast (snd x)) (rq_data req))"

definition check_status_desc :: "gmem \<Rightarrow> descriptor \<Rightarrow> (unit, blk_parse_error) result" where
  "check_status_desc mem d =
     (if \<not> is_write_only d then Err UnexpectedReadOnlyDescriptor
      else if d_len d < 1 then Err DescriptorLengthTooSmall
      else if \<not> gm_check_range mem (d_addr d) 1 then Err (ParseGuestMemory (InvalidGuestAddress (d_addr d)))
      else Ok ())"

definition check_data_desc :: "descriptor \<Rightarrow> request_type \<Rightarrow> (unit, blk_parse_error) result" where
  "check_data_desc d ty = (if \<not> is_write_only d \<and> ty = In then Err UnexpectedReadOnlyDescriptor else Ok ())"

text \<open>The loop over the data descriptors: it ends at a descriptor without a successor.\<close>

function parse_data :: "gmem \<Rightarrow> request_type \<Rightarrow> descriptor \<Rightarrow> (u64 \<times> u32) list \<Rightarrow> chain
    \<Rightarrow> ((u64 \<times> u32) list \<times> descriptor, blk_parse_error) result \<times> chain" where
  "parse_data mem ty d dat c =
     (if \<not> has_next d then (Ok (dat, d), c)
      else case check_data_desc d ty of
          Ok _ \<Rightarrow>
            (case chain_next mem c of
               (None, c') \<Rightarrow> (Err DescriptorChainTooShort, c')
             | (Some d', c') \<Rightarrow> parse_data mem ty d' (dat @ [(d_addr d, d_len d)]) c')
        | Err e \<Rightarrow> (Err e, c)
        | Panic \<Rightarrow> (Panic, c))"
  by auto
termination
proof (relation "measures [\<lambda>(_, _, _, _, c). if dc_is_indirect c then 0 else 1, \<lambda>(_, _, _, _, c). unat (dc_ttl c)]", goal_cases)
  case (2 mem ty d dat c u x c' d')
  then show ?case
    using chain_next_decreases [of mem c d' c'] by (auto simp: word_less_nat_alt)
qed simp

declare parse_data.simps [simp del]

definition blk_next :: "gmem \<Rightarrow> (chain, descriptor, blk_parse_error) act" where
  "blk_next mem c = (let (d, c') = chain_next mem c in (ok_or d DescriptorChainTooShort, c'))"

definition request_parse :: "gmem \<Rightarrow> (chain, request, blk_parse_error) act" where
  "request_parse mem =
     abind (blk_next mem) (\<lambda>chain_head.
       if is_write_only chain_head then alift (Err UnexpectedWriteOnlyDescriptor)
       else abind (alift (map_err ParseGuestMemory (gm_read_obj 16 (d_addr chain_head) mem))) (\<lambda>bs.
         let h = request_header_of_bytes bs in
         if rh_request_type h = VIRTIO_BLK_T_FLUSH \<and> rh_sector h \<noteq> 0 then alift (Err InvalidFlushSector)
         else let ty = request_type_from (rh_request_type h) in
           abind (blk_next mem) (\<lambda>d.
           abind (parse_data mem ty d []) (\<lambda>(dat, status_desc).
           abind (alift (check_status_desc mem status_desc)) (\<lambda>_.
             alift (Ok \<lparr>rq_request_type = ty, rq_data = dat, rq_sector = rh_sector h,
                        rq_status_addr = d_addr status_desc\<rparr>))))))"

section \<open>Execution (stdio_executor.rs, defs.rs)\<close>

definition SECTOR_SHIFT :: nat where "SECTOR_SHIFT = 9"
definition SECTOR_SIZE :: u64 where "SECTOR_SIZE = push_bit SECTOR_SHIFT 1"
definition VIRTIO_BLK_F_RO :: nat where "VIRTIO_BLK_F_RO = 5"
definition VIRTIO_BLK_F_FLUSH :: nat where "VIRTIO_BLK_F_FLUSH = 9"
definition VIRTIO_BLK_F_DISCARD :: nat where "VIRTIO_BLK_F_DISCARD = 13"
definition VIRTIO_BLK_F_WRITE_ZEROES :: nat where "VIRTIO_BLK_F_WRITE_ZEROES = 14"
definition VIRTIO_BLK_ID_BYTES :: nat where "VIRTIO_BLK_ID_BYTES = 20"
definition VIRTIO_BLK_S_OK :: u8 where "VIRTIO_BLK_S_OK = 0"
definition VIRTIO_BLK_S_IOERR :: u8 where "VIRTIO_BLK_S_IOERR = 1"
definition VIRTIO_BLK_S_UNSUPP :: u8 where "VIRTIO_BLK_S_UNSUPP = 2"

record discard_write_zeroes =
  dwz_sector :: u64
  dwz_num_sectors :: u32
  dwz_flags :: u32

definition DWZ_UNMAP :: u32 where "DWZ_UNMAP = 1"
definition DWZ_LEN :: nat where "DWZ_LEN = 16"

definition dwz_of_bytes :: "u8 list \<Rightarrow> discard_write_zeroes" where
  "dwz_of_bytes bs =
     \<lparr>dwz_sector = of_le_bytes (take 8 bs), dwz_num_sectors = of_le_bytes (take 4 (drop 8 bs)),
      dwz_flags = of_le_bytes (take 4 (drop 12 bs))\<rparr>"

datatype exec_error =
  DiscardWriteZeroesError io_kind | FlushError io_kind | ExecGuestMemory guest_memory_error | InvalidAccess
| InvalidFlags | InvalidDataLength | ExecOverflow | ReadError guest_memory_error u32 | ReadOnly
| WriteError guest_memory_error | SeekError io_kind | UnsupportedRequest u32

primrec exec_status :: "exec_error \<Rightarrow> u8" where
  "exec_status (DiscardWriteZeroesError _) = VIRTIO_BLK_S_IOERR"
| "exec_status (FlushError _) = VIRTIO_BLK_S_IOERR"
| "exec_status (ExecGuestMemory _) = VIRTIO_BLK_S_IOERR"
| "exec_status InvalidAccess = VIRTIO_BLK_S_IOERR"
| "exec_status InvalidFlags = VIRTIO_BLK_S_UNSUPP"
| "exec_status InvalidDataLength = VIRTIO_BLK_S_IOERR"
| "exec_status ExecOverflow = VIRTIO_BLK_S_IOERR"
| "exec_status (ReadError _ _) = VIRTIO_BLK_S_IOERR"
| "exec_status ReadOnly = VIRTIO_BLK_S_IOERR"
| "exec_status (WriteError _) = VIRTIO_BLK_S_IOERR"
| "exec_status (SeekError _) = VIRTIO_BLK_S_IOERR"
| "exec_status (UnsupportedRequest _) = VIRTIO_BLK_S_UNSUPP"

datatype process_req_error = ProcessGuestMemory guest_memory_error | ProcessOverflow

text \<open>The operations of the trait \<open>Backend\<close> on a state \<open>'s\<close>.\<close>

record 's backend_ops =
  be_seek :: "u64 \<Rightarrow> ('s, u64, io_kind) act"
  be_seek_end :: "('s, u64, io_kind) act"
  be_read :: "'s reader"
  be_write_all :: "gmem \<Rightarrow> vslice \<Rightarrow> ('s, unit, volatile_error) pact"
  be_fsync :: "('s, unit, io_kind) act"
  be_punch_hole :: "u64 \<Rightarrow> u64 \<Rightarrow> ('s, unit, io_kind) act"
  be_write_all_zeroes_at :: "u64 \<Rightarrow> nat \<Rightarrow> ('s, unit, io_kind) act"

record 's std_io_backend =
  be_inner :: 's
  be_num_sectors :: u64
  be_features :: u64
  be_device_id :: "u8 list option"

definition std_io_backend_new :: "'s backend_ops \<Rightarrow> u64 \<Rightarrow> 's \<Rightarrow> ('s std_io_backend, exec_error) result" where
  "std_io_backend_new ops features inner =
     (let (r, inner) = be_seek_end ops inner in
      rbind (map_err SeekError r) (\<lambda>disk_size.
        Ok \<lparr>be_inner = inner, be_num_sectors = drop_bit SECTOR_SHIFT disk_size, be_features = features, be_device_id = None\<rparr>))"

definition with_device_id :: "u8 list \<Rightarrow> 's std_io_backend \<Rightarrow> 's std_io_backend" where
  "with_device_id ident b = b\<lparr>be_device_id := Some ident\<rparr>"

definition has_feature :: "'s std_io_backend \<Rightarrow> nat \<Rightarrow> bool" where
  "has_feature b feature_pos \<longleftrightarrow> and (be_features b) (push_bit feature_pos 1) \<noteq> 0"

definition check_sectors :: "'s std_io_backend \<Rightarrow> u64 \<Rightarrow> u64 \<Rightarrow> (unit, exec_error) result" where
  "check_sectors b sectors_count sector =
     rbind (ok_or (checked_add sectors_count sector) InvalidAccess) (\<lambda>n.
       if be_num_sectors b < n then Err InvalidAccess else Ok ())"

definition check_request :: "'s std_io_backend \<Rightarrow> request_type \<Rightarrow> (unit, exec_error) result" where
  "check_request b ty =
     (if has_feature b VIRTIO_BLK_F_RO \<and> ty \<noteq> In then Err ReadOnly
      else if ty = Flush \<and> \<not> has_feature b VIRTIO_BLK_F_FLUSH then Err (UnsupportedRequest VIRTIO_BLK_T_FLUSH)
      else if ty = Discard \<and> \<not> has_feature b VIRTIO_BLK_F_DISCARD then Err (UnsupportedRequest VIRTIO_BLK_T_DISCARD)
      else if ty = WriteZeroes \<and> \<not> has_feature b VIRTIO_BLK_F_WRITE_ZEROES
        then Err (UnsupportedRequest VIRTIO_BLK_T_WRITE_ZEROES)
      else Ok ())"

text \<open>\<open>checked_shl\<close> checks the number of places, not the bits that are shifted out.\<close>

definition checked_shl :: "u64 \<Rightarrow> nat \<Rightarrow> u64 option" where
  "checked_shl x n = (if n < 64 then Some (push_bit n x) else None)"

text \<open>Lifting an operation of the backend to the pair of backend and guest memory.\<close>

definition on_backend :: "(io_kind \<Rightarrow> exec_error) \<Rightarrow> ('s, 'a, io_kind) act \<Rightarrow> ('s \<times> gmem, 'a, exec_error) pact" where
  "on_backend f op st = (let (r, s) = op (fst st) in Some (map_err f r, (s, snd st)))"

definition handle_discard_write_zeroes :: "'s backend_ops \<Rightarrow> 's std_io_backend \<Rightarrow> discard_write_zeroes
    \<Rightarrow> request_type \<Rightarrow> ('s \<times> gmem, u32, exec_error) pact" where
  "handle_discard_write_zeroes ops b segment ty =
     (let sector = dwz_sector segment; num = dwz_num_sectors segment; flags = dwz_flags segment;
          valid_flags = (if ty = WriteZeroes then DWZ_UNMAP else 0) in
      if and flags (not valid_flags) \<noteq> 0 then plift (Err InvalidFlags)
      else pbind (plift (ok_or (checked_shl sector SECTOR_SHIFT) InvalidAccess)) (\<lambda>off.
        pbind (plift (ok_or (checked_shl (ucast num) SECTOR_SHIFT) InvalidAccess)) (\<lambda>len.
        pbind (plift (check_sectors b (ucast num) sector)) (\<lambda>_.
        if ty = Discard then
          (\<lambda>st. let (_, s) = be_punch_hole ops off len (fst st) in Some (Ok 0, (s, snd st)))
        else if and flags DWZ_UNMAP = 0 then
          pbind (on_backend DiscardWriteZeroesError (be_write_all_zeroes_at ops off (unat len))) (\<lambda>_. plift (Ok 0))
        else (\<lambda>st. case be_punch_hole ops off len (fst st) of
               (Ok _, s) \<Rightarrow> Some (Ok 0, (s, snd st))
             | (Err _, s) \<Rightarrow>
                 pbind (on_backend DiscardWriteZeroesError (be_write_all_zeroes_at ops off (unat len)))
                   (\<lambda>_. plift (Ok 0)) (s, snd st)
             | (Panic, s) \<Rightarrow> Some (Panic, (s, snd st)))))))"

fun read_segments :: "'s reader \<Rightarrow> (u64 \<times> u32) list \<Rightarrow> u32 \<Rightarrow> ('s \<times> gmem, u32, exec_error) pact" where
  "read_segments rd [] n = plift (Ok n)"
| "read_segments rd ((addr, len) # dat) n =
     pbind (pmap_err (\<lambda>e. ReadError e (case e of PartialBuffer _ completed \<Rightarrow> n + of_nat completed | _ \<Rightarrow> n))
         (gm_read_exact_volatile_from rd addr (unat len))) (\<lambda>_.
       read_segments rd dat (n + len))"

fun write_segments :: "'s backend_ops \<Rightarrow> (u64 \<times> u32) list \<Rightarrow> ('s \<times> gmem, unit, exec_error) pact" where
  "write_segments ops [] = plift (Ok ())"
| "write_segments ops ((addr, len) # dat) =
     pbind (\<lambda>(s, mem). map_option (\<lambda>(r, s'). (map_err WriteError r, (s', mem)))
         (gm_write_all_volatile_to mem (be_write_all ops mem) addr (unat len) s)) (\<lambda>_.
       write_segments ops dat)"

text \<open>The identifier is read from as a byte slice; taking a part outside of it panics.\<close>

fun id_segments :: "u8 list \<Rightarrow> (u64 \<times> u32) list \<Rightarrow> u32 \<Rightarrow> ('s \<times> gmem, u32, exec_error) pact" where
  "id_segments ident [] n = plift (Ok n)"
| "id_segments ident ((addr, len) # dat) n =
     (if len + n < n \<or> length ident < unat (len + n) then plift Panic
      else pbind (\<lambda>(s, mem). map_option (\<lambda>(r, (_, mem')). (map_err (\<lambda>e. ReadError e
             (case e of PartialBuffer _ completed \<Rightarrow> n + of_nat completed | _ \<Rightarrow> n)) r, (s, mem')))
           (gm_read_exact_volatile_from slice_read_volatile addr (unat len) (drop (unat n) (take (unat (len + n)) ident), mem)))
         (\<lambda>_. id_segments ident dat (n + len)))"

function dwz_segment :: "'s backend_ops \<Rightarrow> 's std_io_backend \<Rightarrow> request_type \<Rightarrow> u64 \<Rightarrow> nat
    \<Rightarrow> ('s \<times> gmem, unit, exec_error) pact" where
  "dwz_segment ops b ty crt_addr available =
     (if available < DWZ_LEN then plift (Ok ())
      else pbind (\<lambda>st. plift (map_err ExecGuestMemory (gm_read_obj DWZ_LEN crt_addr (snd st))) st) (\<lambda>bs.
        pbind (handle_discard_write_zeroes ops b (dwz_of_bytes bs) ty) (\<lambda>_.
          dwz_segment ops b ty (crt_addr + of_nat DWZ_LEN) (available - DWZ_LEN))))"
  by auto
termination by (relation "measure (\<lambda>(_, _, _, _, n). n)") (auto simp: DWZ_LEN_def)

declare dwz_segment.simps [simp del]

fun dwz_segments :: "'s backend_ops \<Rightarrow> 's std_io_backend \<Rightarrow> request_type \<Rightarrow> (u64 \<times> u32) list
    \<Rightarrow> ('s \<times> gmem, unit, exec_error) pact" where
  "dwz_segments ops b ty [] = plift (Ok ())"
| "dwz_segments ops b ty ((addr, len) # dat) =
     (if \<not> DWZ_LEN dvd unat len then plift (Err InvalidDataLength)
      else pbind (plift (ok_or (checked_add addr (ucast len)) ExecOverflow)) (\<lambda>_.
        pbind (dwz_segment ops b ty addr (unat len)) (\<lambda>_. dwz_segments ops b ty dat)))"

definition execute_inner :: "'s backend_ops \<Rightarrow> 's std_io_backend \<Rightarrow> request \<Rightarrow> ('s \<times> gmem, u32, exec_error) pact" where
  "execute_inner ops b req =
     pbind (plift (ok_or (checked_shl (rq_sector req) SECTOR_SHIFT) InvalidAccess)) (\<lambda>off.
     pbind (on_backend SeekError (be_seek ops off)) (\<lambda>_.
     pbind (plift (check_request b (rq_request_type req))) (\<lambda>_.
     let total_len = total_data_len req; ty = rq_request_type req in
     if (ty = In \<or> ty = Out) \<and> total_len mod SECTOR_SIZE \<noteq> 0 then plift (Err InvalidDataLength)
     else case ty of
         In \<Rightarrow>
           pbind (plift (check_sectors b (total_len div SECTOR_SIZE) (rq_sector req))) (\<lambda>_.
             if 0xFFFFFFFF < total_len then plift (Err InvalidDataLength)
             else read_segments (be_read ops) (rq_data req) 0)
       | Out \<Rightarrow>
           pbind (plift (check_sectors b (total_len div SECTOR_SIZE) (rq_sector req))) (\<lambda>_.
             pbind (write_segments ops (rq_data req)) (\<lambda>_. plift (Ok 0)))
       | Flush \<Rightarrow> pbind (on_backend FlushError (be_fsync ops)) (\<lambda>_. plift (Ok 0))
       | GetDeviceID \<Rightarrow>
           pbind (plift (ok_or (be_device_id b) (UnsupportedRequest VIRTIO_BLK_T_GET_ID))) (\<lambda>ident.
             if total_len \<noteq> of_nat VIRTIO_BLK_ID_BYTES then plift (Err InvalidDataLength)
             else id_segments ident (rq_data req) 0)
       | Discard \<Rightarrow> pbind (dwz_segments ops b ty (rq_data req)) (\<lambda>_. plift (Ok 0))
       | WriteZeroes \<Rightarrow> pbind (dwz_segments ops b ty (rq_data req)) (\<lambda>_. plift (Ok 0))
       | Unsupported t \<Rightarrow> plift (Err (UnsupportedRequest t)))))"

definition execute :: "'s backend_ops \<Rightarrow> request \<Rightarrow> ('s std_io_backend \<times> gmem, u32, exec_error) pact" where
  "execute ops req st =
     map_option (\<lambda>(r, (s, mem)). (r, ((fst st)\<lparr>be_inner := s\<rparr>, mem)))
       (execute_inner ops (fst st) req (be_inner (fst st), snd st))"

definition process_request :: "'s backend_ops \<Rightarrow> request \<Rightarrow> ('s std_io_backend \<times> gmem, u32, process_req_error) pact" where
  "process_request ops req st =
     (case execute ops req st of
        None \<Rightarrow> None
      | Some (Panic, st') \<Rightarrow> Some (Panic, st')
      | Some (r, (b, mem)) \<Rightarrow>
          (let (status, len) = (case r of Ok len \<Rightarrow> (VIRTIO_BLK_S_OK, len)
               | Err e \<Rightarrow> (exec_status e, case e of ReadError _ n \<Rightarrow> n | _ \<Rightarrow> 0) | Panic \<Rightarrow> (0, 0));
               (w, mem) = gm_write_obj [status] (rq_status_addr req) mem in
           Some (rbind (map_err ProcessGuestMemory w) (\<lambda>_. ok_or (checked_add len 1) ProcessOverflow), (b, mem))))"

section \<open>Parsing\<close>

text \<open>The request a list of descriptors describes.\<close>

definition request_of :: "gmem \<Rightarrow> descriptor list \<Rightarrow> (request, blk_parse_error) result" where
  "request_of mem ds =
     (case ds of
        [] \<Rightarrow> Err DescriptorChainTooShort
      | head # rest \<Rightarrow>
          if is_write_only head then Err UnexpectedWriteOnlyDescriptor
          else rbind (map_err ParseGuestMemory (gm_read_obj 16 (d_addr head) mem)) (\<lambda>bs.
            let h = request_header_of_bytes bs; ty = request_type_from (rh_request_type h);
                dat = takeWhile has_next rest in
            if rh_request_type h = VIRTIO_BLK_T_FLUSH \<and> rh_sector h \<noteq> 0 then Err InvalidFlushSector
            else if ty = In \<and> \<not> list_all is_write_only dat then Err UnexpectedReadOnlyDescriptor
            else if dat = rest then Err DescriptorChainTooShort
            else let status = rest ! length dat in
              rbind (check_status_desc mem status) (\<lambda>_.
                Ok \<lparr>rq_request_type = ty, rq_data = map (\<lambda>d. (d_addr d, d_len d)) dat,
                    rq_sector = rh_sector h, rq_status_addr = d_addr status\<rparr>)))"

lemma parse_data_eq:
  "fst (parse_data mem ty d dat c) =
     (let ds = d # chain_descs mem c; xs = takeWhile has_next ds in
      if ty = In \<and> \<not> list_all is_write_only xs then Err UnexpectedReadOnlyDescriptor
      else if xs = ds then Err DescriptorChainTooShort
      else Ok (dat @ map (\<lambda>d. (d_addr d, d_len d)) xs, ds ! length xs))"
proof (induction mem ty d dat c rule: parse_data.induct)
  case (1 mem ty d dat c)
  show ?case
  proof (cases "has_next d \<and> check_data_desc d ty = Ok ()")
    case False
    then show ?thesis
      by (auto simp: parse_data.simps [of mem ty d] check_data_desc_def Let_def split: if_splits)
  next
    case True
    then have w: "ty = In \<longrightarrow> is_write_only d" by (auto simp: check_data_desc_def split: if_splits)
    obtain x c' where nx: "chain_next mem c = (x, c')" by (cases "chain_next mem c")
    show ?thesis
    proof (cases x)
      case None
      then show ?thesis using True nx w
        by (simp add: parse_data.simps [of mem ty d] chain_descs.simps [of mem c] Let_def)
    next
      case (Some d')
      have ih: "fst (parse_data mem ty d' (dat @ [(d_addr d, d_len d)]) c') =
          (let ds = d' # chain_descs mem c'; xs = takeWhile has_next ds in
           if ty = In \<and> \<not> list_all is_write_only xs then Err UnexpectedReadOnlyDescriptor
           else if xs = ds then Err DescriptorChainTooShort
           else Ok ((dat @ [(d_addr d, d_len d)]) @ map (\<lambda>d. (d_addr d, d_len d)) xs, ds ! length xs))"
        using 1 True nx Some by auto
      have ds: "chain_descs mem c = d' # chain_descs mem c'" using nx Some by (simp add: chain_descs.simps [of mem c])
      show ?thesis unfolding ds using True nx Some w ih
        by (simp add: parse_data.simps [of mem ty d] Let_def)
    qed
  qed
qed


section \<open>Executing reads and writes\<close>

definition seg_addrs :: "(u64 \<times> u32) list \<Rightarrow> nat list" where
  "seg_addrs dat = concat (map (\<lambda>(a, n). [unat a..<unat a + unat n]) dat)"

lemma seg_addrs_simps [simp]: "seg_addrs [] = []"
  "seg_addrs ((a, n) # dat) = [unat a..<unat a + unat n] @ seg_addrs dat"
  by (simp_all add: seg_addrs_def)

definition segs_mapped :: "gmem \<Rightarrow> (u64 \<times> u32) list \<Rightarrow> bool" where
  "segs_mapped mem dat \<longleftrightarrow> list_all (\<lambda>(a, n). mapped mem a (unat n)) dat"

lemma segs_mapped_simps [simp]: "segs_mapped mem []"
  "segs_mapped mem ((a, n) # dat) \<longleftrightarrow> mapped mem a (unat n) \<and> segs_mapped mem dat"
  by (simp_all add: segs_mapped_def)

lemma segs_mapped_shape:
  assumes "shape mem' = shape mem"
  shows "segs_mapped mem' dat = segs_mapped mem dat"
  using mapped_shape [OF assms] by (simp add: segs_mapped_def)

lemma unat_total_data_len:
  "length (seg_addrs dat) < 2 ^ 64 \<Longrightarrow> unat (sum_list (map (\<lambda>x. ucast (snd x)) dat) :: u64) = length (seg_addrs dat)"
  for dat :: "(u64 \<times> u32) list"
proof (induction dat)
  case (Cons x dat)
  obtain a n where x: "x = (a, n)" by (cases x)
  have "unat (ucast n :: u64) = unat n" by (simp add: unsigned_ucast_eq)
  then show ?case using Cons unat_add_no_overflow [of "ucast n :: u64" "sum_list (map (\<lambda>x. ucast (snd x)) dat)"]
    by (simp add: x)
qed simp

lemma read_segments_ok:
  assumes "random_access rd pos content sk wr_all"
  shows "mem_ok mem \<Longrightarrow> segs_mapped mem dat \<Longrightarrow> pos s + length (seg_addrs dat) \<le> length (content s) \<Longrightarrow>
    unat n + length (seg_addrs dat) < 2 ^ 32 \<Longrightarrow>
    \<exists>s' mem'. read_segments rd dat n (s, mem) = Some (Ok (n + of_nat (length (seg_addrs dat))), (s', mem')) \<and>
      wrote mem mem' (seg_addrs dat) (take (length (seg_addrs dat)) (drop (pos s) (content s))) \<and>
      content s' = content s"
proof (induction dat arbitrary: n s mem)
  case Nil
  then show ?case using wrote_Nil by (simp add: plift_def)
next
  case (Cons x dat)
  obtain a k where x: "x = (a, k)" by (cases x)
  obtain s1 m1 where r: "gm_read_exact_volatile_from rd a (unat k) (s, mem) = Some (Ok (), (s1, m1))"
    "updated mem m1 (unat a) (take (unat k) (drop (pos s) (content s)))" "content s1 = content s" "pos s1 = pos s + unat k"
    using positioned_source.gm_read_exact_ok [OF random_access.axioms(1) [OF assms] Cons.prems(1), of a "unat k" s] Cons.prems(2,3) by (auto simp: x)
  have m1: "mem_ok m1" "shape m1 = shape mem" using r(2) by (simp_all add: updated_def)
  let ?v = "take (unat k) (drop (pos s) (content s))"
  have len: "length ?v = unat k" using Cons.prems(3) by (simp add: x)
  have w1: "wrote mem m1 [unat a..<unat a + unat k] ?v" using updated_wrote [OF r(2)] unfolding len .
  have nk: "unat (n + k) = unat n + unat k" using Cons.prems(4) by (intro unat_add_no_overflow) (simp add: x)
  obtain s2 m2 where i: "read_segments rd dat (n + k) (s1, m1) = Some (Ok (n + k + of_nat (length (seg_addrs dat))), (s2, m2))"
    "wrote m1 m2 (seg_addrs dat) (take (length (seg_addrs dat)) (drop (pos s1) (content s1)))" "content s2 = content s1"
    using Cons.IH [OF m1(1), of s1 "n + k"] Cons.prems segs_mapped_shape [OF m1(2)] by (auto simp: x r(3,4) nk)
  have "wrote mem m2 (seg_addrs ((a, k) # dat)) (take (length (seg_addrs ((a, k) # dat))) (drop (pos s) (content s)))"
    using wrote_append [OF w1 i(2)] len by (simp add: r(3,4) take_add add.commute)
  then show ?case
    using i(1,3) r(1,3) unfolding x by (simp add: pbind_def pmap_err_def add.assoc)
qed

lemma write_segments_ok:
  assumes "random_access rd pos content sk (be_write_all ops)"
  shows "mem_ok mem \<Longrightarrow> segs_mapped mem dat \<Longrightarrow> pos s + length (seg_addrs dat) \<le> length (content s) \<Longrightarrow>
    \<exists>s'. write_segments ops dat (s, mem) = Some (Ok (), (s', mem)) \<and>
      content s' = overwrite_at (pos s) (peek mem (seg_addrs dat)) (content s)"
proof (induction dat arbitrary: s)
  case Nil
  then show ?case by (simp add: plift_def)
next
  case (Cons x dat)
  obtain a k where x: "x = (a, k)" by (cases x)
  obtain s1 where r: "gm_write_all_volatile_to mem (be_write_all ops mem) a (unat k) s = Some (Ok (), s1)"
    "content s1 = overwrite_at (pos s) (bytes_at mem (unat a) (unat k)) (content s)" "pos s1 = pos s + unat k"
    using random_access.gm_write_all_volatile_to_ok [OF assms Cons.prems(1), of a "unat k" s] Cons.prems(2,3)
    by (auto simp: x)
  have len: "length (content s1) = length (content s)" using Cons.prems(3) unfolding r(2) by (simp add: x)
  obtain s2 where i: "write_segments ops dat (s1, mem) = Some (Ok (), (s2, mem))"
    "content s2 = overwrite_at (pos s1) (peek mem (seg_addrs dat)) (content s1)"
    using Cons.IH [OF Cons.prems(1), of s1] Cons.prems(2,3) by (auto simp: x r(3) len)
  have pk: "bytes_at mem (unat a) (unat k) = peek mem [unat a..<unat a + unat k]"
    by (rule nth_equalityI) (simp_all add: bytes_at_def peek_def)
  have "content s2 = overwrite_at (pos s) (peek mem (seg_addrs ((a, k) # dat))) (content s)"
    using overwrite_append [of "pos s" "bytes_at mem (unat a) (unat k)" "peek mem (seg_addrs dat)" "content s"] Cons.prems(3)
    by (simp add: i(2) r(2,3) pk x)
  then show ?case using i(1) r(1) unfolding x by (simp add: pbind_def)
qed

text \<open>
  A transfer the device can make: the buffers and the status byte are mapped, the data are whole sectors
  that lie on the disk, and the length fits the used ring.
\<close>

definition transfer_ok :: "'s std_io_backend \<Rightarrow> gmem \<Rightarrow> request \<Rightarrow> bool" where
  "transfer_ok b mem req \<longleftrightarrow> segs_mapped mem (rq_data req) \<and> mapped mem (rq_status_addr req) 1 \<and>
     512 dvd length (seg_addrs (rq_data req)) \<and> length (seg_addrs (rq_data req)) < 2 ^ 32 \<and>
     unat (rq_sector req) + length (seg_addrs (rq_data req)) div 512 \<le> unat (be_num_sectors b)"

definition disk_ok :: "('s \<Rightarrow> u8 list) \<Rightarrow> 's std_io_backend \<Rightarrow> bool" where
  "disk_ok content b \<longleftrightarrow> 512 * unat (be_num_sectors b) \<le> length (content (be_inner b)) \<and> length (content (be_inner b)) < 2 ^ 64"

lemma transfer_facts:
  assumes "transfer_ok b mem req" "disk_ok content b" "n = length (seg_addrs (rq_data req))"
  shows "total_data_len req mod SECTOR_SIZE = 0"
    "check_sectors b (total_data_len req div SECTOR_SIZE) (rq_sector req) = Ok ()"
    "\<not> 0xFFFFFFFF < total_data_len req" "checked_shl (rq_sector req) SECTOR_SHIFT = Some (push_bit 9 (rq_sector req))"
    "unat (push_bit 9 (rq_sector req)) = 512 * unat (rq_sector req)"
    "512 * unat (rq_sector req) + n \<le> length (content (be_inner b))"
proof -
  have tr: "512 dvd n" "n < 2 ^ 32" "unat (rq_sector req) + n div 512 \<le> unat (be_num_sectors b)"
    using assms(1,3) by (auto simp: transfer_ok_def)
  have size: "SECTOR_SIZE = 512" by (simp add: SECTOR_SIZE_def SECTOR_SHIFT_def)
  have tot: "unat (total_data_len req) = n"
    unfolding total_data_len_def using unat_total_data_len [of "rq_data req"] tr(2) assms(3) by simp
  show "total_data_len req mod SECTOR_SIZE = 0"
    using tr(1) tot unfolding size by (simp add: word_mod_eq_0_iff)
  have "unat (total_data_len req div SECTOR_SIZE) = n div 512" unfolding size using tot by (simp add: unat_div)
  then have le: "unat (total_data_len req div SECTOR_SIZE) + unat (rq_sector req) \<le> unat (be_num_sectors b)"
    using tr(3) by simp
  then have "unat (total_data_len req div SECTOR_SIZE) + unat (rq_sector req) < 2 ^ 64"
    using unsigned_less [of "be_num_sectors b", where ?'a = nat] by simp
  then show "check_sectors b (total_data_len req div SECTOR_SIZE) (rq_sector req) = Ok ()"
    using le unat_add_no_overflow [of "total_data_len req div SECTOR_SIZE" "rq_sector req"]
    by (simp add: check_sectors_def checked_add_def word_less_nat_alt)
  show "\<not> 0xFFFFFFFF < total_data_len req" using tot tr(2) by (simp add: word_less_nat_alt)
  show "checked_shl (rq_sector req) SECTOR_SHIFT = Some (push_bit 9 (rq_sector req))"
    by (simp add: checked_shl_def SECTOR_SHIFT_def)
  have disk: "512 * unat (be_num_sectors b) \<le> length (content (be_inner b))" "length (content (be_inner b)) < 2 ^ 64"
    using assms(2) by (auto simp: disk_ok_def)
  then have "512 * unat (rq_sector req) < 2 ^ 64" using tr(3) by linarith
  then show "unat (push_bit 9 (rq_sector req)) = 512 * unat (rq_sector req)"
    by (simp only: unsigned_push_bit_eq) (simp add: push_bit_eq_mult take_bit_eq_mod mult.commute)
  have "512 * (n div 512) = n" using tr(1) by simp
  then show "512 * unat (rq_sector req) + n \<le> length (content (be_inner b))" using tr(3) disk(1) by linarith
qed

lemma process_request_Ok:
  assumes "execute_inner ops b req (be_inner b, mem) = Some (Ok len, (s', mem'))" "mem_ok mem'"
    "mapped mem' (rq_status_addr req) 1" "unat len < 2 ^ 32 - 1"
  shows "\<exists>mem''. process_request ops req (b, mem) = Some (Ok (len + 1), (b\<lparr>be_inner := s'\<rparr>, mem'')) \<and>
    updated mem' mem'' (unat (rq_status_addr req)) [0]"
proof -
  obtain mem'' where w: "gm_write_slice [0] (rq_status_addr req) mem' = (Ok (), mem'')"
    "updated mem' mem'' (unat (rq_status_addr req)) [0]"
    using gm_write_slice_ok [OF assms(2), of "[0]"] assms(3) by auto
  have "checked_add len 1 = Some (len + 1)" using assms(4) by (simp add: checked_add_def)
  then show ?thesis using assms(1) w
    by (simp add: process_request_def execute_def gm_write_obj_def VIRTIO_BLK_S_OK_def)
qed

lemma process_read:
  assumes "random_access (be_read ops) pos content (be_seek ops) (be_write_all ops)" "mem_ok mem"
    and "disk_ok content b" "transfer_ok b mem req" "rq_request_type req = In"
    and "xs = seg_addrs (rq_data req)"
  shows "\<exists>b' mem'. process_request ops req (b, mem) = Some (Ok (of_nat (length xs) + 1), (b', mem')) \<and>
    wrote mem mem' (xs @ [unat (rq_status_addr req)])
      (take (length xs) (drop (512 * unat (rq_sector req)) (content (be_inner b))) @ [0]) \<and>
    content (be_inner b') = content (be_inner b) \<and> be_num_sectors b' = be_num_sectors b"
proof -
  note f = transfer_facts [OF assms(4,3) refl, folded assms(6)]
  have tr: "segs_mapped mem (rq_data req)" "mapped mem (rq_status_addr req) 1" "512 dvd length xs" "length xs < 2 ^ 32"
    using assms(4) by (auto simp: transfer_ok_def assms(6))
  obtain s1 where s1: "be_seek ops (push_bit 9 (rq_sector req)) (be_inner b) = (Ok (push_bit 9 (rq_sector req)), s1)"
    "pos s1 = 512 * unat (rq_sector req)" "content s1 = content (be_inner b)"
    using random_access.seek_law [OF assms(1)] f(5) by metis
  let ?v = "take (length xs) (drop (512 * unat (rq_sector req)) (content (be_inner b)))"
  obtain s2 m2 where r: "read_segments (be_read ops) (rq_data req) 0 (s1, mem) = Some (Ok (of_nat (length xs)), (s2, m2))"
    "wrote mem m2 xs ?v" "content s2 = content (be_inner b)"
    using read_segments_ok [OF assms(1,2) tr(1), of s1 0] f(6) tr(4) by (auto simp: s1(2,3) assms(6))
  have "check_request b In = Ok ()" by (simp add: check_request_def)
  then have ex: "execute_inner ops b req (be_inner b, mem) = Some (Ok (of_nat (length xs)), (s2, m2))"
    using s1(1) r(1) assms(5) by (simp add: execute_inner_def f(1-4) on_backend_def pbind_def plift_def)
  have m2: "mem_ok m2" "mapped m2 (rq_status_addr req) 1"
    using r(2) tr(2) mapped_shape [of m2 mem] by (simp_all add: wrote_def)
  have "length xs \<noteq> 2 ^ 32 - 1" using tr(3) by auto
  then have len: "unat (of_nat (length xs) :: u32) < 2 ^ 32 - 1" using tr(4) by (simp add: unat_of_nat)
  obtain m3 where m3: "process_request ops req (b, mem) = Some (Ok (of_nat (length xs) + 1), (b\<lparr>be_inner := s2\<rparr>, m3))"
    "updated m2 m3 (unat (rq_status_addr req)) [0]"
    using process_request_Ok [OF ex m2 len] by blast
  have "length xs = length ?v" using f(6) by simp
  from wrote_append [OF r(2) updated_wrote [OF m3(2)] this] m3(1) r(3) show ?thesis by auto
qed

lemma process_write:
  assumes "random_access (be_read ops) pos content (be_seek ops) (be_write_all ops)" "mem_ok mem"
    and "disk_ok content b" "transfer_ok b mem req" "rq_request_type req = Out" "\<not> has_feature b VIRTIO_BLK_F_RO"
    and "xs = seg_addrs (rq_data req)"
  shows "\<exists>b' mem'. process_request ops req (b, mem) = Some (Ok 1, (b', mem')) \<and>
    updated mem mem' (unat (rq_status_addr req)) [0] \<and>
    content (be_inner b') = overwrite_at (512 * unat (rq_sector req)) (peek mem xs) (content (be_inner b)) \<and>
    be_num_sectors b' = be_num_sectors b"
proof -
  note f = transfer_facts [OF assms(4,3) refl, folded assms(7)]
  have tr: "segs_mapped mem (rq_data req)" "mapped mem (rq_status_addr req) 1"
    using assms(4) by (auto simp: transfer_ok_def)
  obtain s1 where s1: "be_seek ops (push_bit 9 (rq_sector req)) (be_inner b) = (Ok (push_bit 9 (rq_sector req)), s1)"
    "pos s1 = 512 * unat (rq_sector req)" "content s1 = content (be_inner b)"
    using random_access.seek_law [OF assms(1)] f(5) by metis
  obtain s2 where w: "write_segments ops (rq_data req) (s1, mem) = Some (Ok (), (s2, mem))"
    "content s2 = overwrite_at (512 * unat (rq_sector req)) (peek mem xs) (content (be_inner b))"
    using write_segments_ok [OF assms(1,2) tr(1), of s1] f(6) by (auto simp: s1(2,3) assms(7))
  have "check_request b Out = Ok ()" using assms(6) by (simp add: check_request_def)
  then have ex: "execute_inner ops b req (be_inner b, mem) = Some (Ok 0, (s2, mem))"
    using s1(1) w(1) assms(5) by (simp add: execute_inner_def f(1-4) on_backend_def pbind_def plift_def)
  show ?thesis using process_request_Ok [OF ex assms(2) tr(2)] w(2) by auto
qed

lemma map_map_upds: "distinct xs \<Longrightarrow> length xs = length v \<Longrightarrow> map (m(xs [\<mapsto>] v)) xs = map Some v"
proof (induction xs arbitrary: m v)
  case (Cons x xs)
  then obtain y w where v: "v = y # w" by (cases v) auto
  then show ?case using Cons by (simp add: map_upds_apply_nontin del: map_upds_twist)
qed simp

section \<open>Properties\<close>

text \<open>
C20. Reading from the disk.  On a backend that behaves as a file, a read request whose buffers and status
  byte are mapped and whose whole sectors lie on the disk fills the buffers, in order, with the bytes of the
  disk from its sector on, stores the status 0 and reports all these bytes; every other byte of guest memory
  and the disk are unchanged.
\<close>
theorem block_read_exact:
  assumes "random_access (be_read ops) pos content (be_seek ops) (be_write_all ops)" "mem_ok mem"
    and "disk_ok content b" "transfer_ok b mem req" "rq_request_type req = In"
    and "xs = seg_addrs (rq_data req)"
  shows "\<exists>b' mem'. process_request ops req (b, mem) = Some (Ok (of_nat (length xs) + 1), (b', mem')) \<and>
    byte_at mem' = ((byte_at mem)(xs [\<mapsto>] take (length xs) (drop (512 * unat (rq_sector req)) (content (be_inner b)))))
      (unat (rq_status_addr req) \<mapsto> 0) \<and>
    content (be_inner b') = content (be_inner b)"
proof -
  let ?v = "take (length xs) (drop (512 * unat (rq_sector req)) (content (be_inner b)))"
  obtain b' mem' where p: "process_request ops req (b, mem) = Some (Ok (of_nat (length xs) + 1), (b', mem'))"
    "wrote mem mem' (xs @ [unat (rq_status_addr req)]) (?v @ [0])" "content (be_inner b') = content (be_inner b)"
    using process_read [OF assms] by blast
  have "length ?v = length xs" using transfer_facts(6) [OF assms(4,3) refl] by (simp add: assms(6))
  then have "(byte_at mem)(xs @ [unat (rq_status_addr req)] [\<mapsto>] ?v @ [0]) =
      ((byte_at mem)(xs [\<mapsto>] ?v))(unat (rq_status_addr req) \<mapsto> 0)"
    by (simp add: map_upds_append1 nth_append)
  then show ?thesis using p by (auto simp: wrote_def)
qed

text \<open>
C21. The disk remembers.  What a write request stores from its buffers, a read request of the same sectors
  puts into its buffers, wherever in guest memory they are; both report the status 0.
\<close>
theorem block_write_read_roundtrip:
  assumes "random_access (be_read ops) pos content (be_seek ops) (be_write_all ops)" "mem_ok mem"
    and "disk_ok content b" "\<not> has_feature b VIRTIO_BLK_F_RO"
    and "transfer_ok b mem w" "rq_request_type w = Out" "transfer_ok b mem r" "rq_request_type r = In"
    and "rq_sector r = rq_sector w" "xs = seg_addrs (rq_data w)" "ys = seg_addrs (rq_data r)" "length ys = length xs"
    and "distinct (ys @ [unat (rq_status_addr r)])"
  shows "\<exists>b1 m1 b2 m2. process_request ops w (b, mem) = Some (Ok 1, (b1, m1)) \<and>
    process_request ops r (b1, m1) = Some (Ok (of_nat (length ys) + 1), (b2, m2)) \<and>
    map (byte_at m2) ys = map Some (peek mem xs) \<and> byte_at m2 (unat (rq_status_addr r)) = Some 0"
proof -
  obtain b1 m1 where w: "process_request ops w (b, mem) = Some (Ok 1, (b1, m1))"
    "updated mem m1 (unat (rq_status_addr w)) [0]"
    "content (be_inner b1) = overwrite_at (512 * unat (rq_sector w)) (peek mem xs) (content (be_inner b))"
    "be_num_sectors b1 = be_num_sectors b"
    using process_write [OF assms(1-3,5,6,4,10)] by blast
  have fit: "512 * unat (rq_sector w) + length xs \<le> length (content (be_inner b))"
    using transfer_facts(6) [OF assms(5,3) refl] by (simp add: assms(10))
  then have len: "length (content (be_inner b1)) = length (content (be_inner b))" unfolding w(3) by simp
  have m1: "mem_ok m1" "shape m1 = shape mem" using w(2) by (simp_all add: updated_def)
  have ok1: "disk_ok content b1" "transfer_ok b1 m1 r"
    using assms(3,7) w(4) len segs_mapped_shape [OF m1(2)] mapped_shape [OF m1(2)]
    by (simp_all add: disk_ok_def transfer_ok_def)
  let ?v = "take (length ys) (drop (512 * unat (rq_sector r)) (content (be_inner b1)))"
  obtain b2 m2 where r: "process_request ops r (b1, m1) = Some (Ok (of_nat (length ys) + 1), (b2, m2))"
    "wrote m1 m2 (ys @ [unat (rq_status_addr r)]) (?v @ [0])"
    using process_read [OF assms(1) m1(1) ok1 assms(8,11)] by blast
  have v: "?v = peek mem xs"
    using fit unfolding assms(9,12) w(3) by (simp add: overwrite_at_def)
  have "length (ys @ [unat (rq_status_addr r)]) = length (?v @ [0])" unfolding v using assms(12) by simp
  from map_map_upds [OF assms(13) this, of "byte_at m1"] r(2)
  have "map (byte_at m2) (ys @ [unat (rq_status_addr r)]) = map Some (?v @ [0])" unfolding wrote_def by simp
  then have "map (byte_at m2) ys = map Some (peek mem xs) \<and> byte_at m2 (unat (rq_status_addr r)) = Some 0"
    unfolding v by simp
  then show ?thesis using w(1) r(1) by blast
qed

definition refused :: "'s std_io_backend \<Rightarrow> request \<Rightarrow> bool" where
  "refused b req \<longleftrightarrow> (has_feature b VIRTIO_BLK_F_RO \<and> rq_request_type req \<noteq> In) \<or>
     (rq_request_type req = In \<or> rq_request_type req = Out) \<and>
       (let n = length (seg_addrs (rq_data req)) in
        \<not> 512 dvd n \<or> unat (be_num_sectors b) < unat (rq_sector req) + n div 512)"

lemma check_sectors_beyond:
  assumes "unat (be_num_sectors b) < unat k + unat sector"
  shows "check_sectors b k sector = Err InvalidAccess"
proof (cases "unat k + unat sector < 2 ^ 64")
  case True
  then show ?thesis using assms unat_add_no_overflow [of k sector]
    by (simp add: check_sectors_def checked_add_def word_less_nat_alt)
next
  case False
  then show ?thesis by (simp add: check_sectors_def checked_add_def)
qed

lemma refused_error:
  assumes "refused b req" "length (seg_addrs (rq_data req)) < 2 ^ 64"
    and "be_seek ops (push_bit 9 (rq_sector req)) s = (Ok y, s')"
  shows "\<exists>e. execute_inner ops b req (s, mem) = Some (Err e, (s', mem)) \<and> exec_status e = 1 \<and> (\<forall>g n. e \<noteq> ReadError g n)"
proof -
  let ?n = "length (seg_addrs (rq_data req))" and ?ty = "rq_request_type req"
  have size: "SECTOR_SIZE = 512" by (simp add: SECTOR_SIZE_def SECTOR_SHIFT_def)
  have tot: "unat (total_data_len req) = ?n"
    unfolding total_data_len_def by (rule unat_total_data_len [OF assms(2)])
  then have cnt: "unat (total_data_len req div SECTOR_SIZE) = ?n div 512" unfolding size by (simp add: unat_div)
  have dvd: "total_data_len req mod SECTOR_SIZE = 0 \<longleftrightarrow> 512 dvd ?n" unfolding size word_mod_eq_0_iff tot by simp
  have shl: "checked_shl (rq_sector req) SECTOR_SHIFT = Some (push_bit 9 (rq_sector req))"
    by (simp add: checked_shl_def SECTOR_SHIFT_def)
  consider "has_feature b VIRTIO_BLK_F_RO" "?ty \<noteq> In" | "check_request b ?ty = Ok ()" "?ty = In \<or> ?ty = Out"
      "\<not> 512 dvd ?n \<or> unat (be_num_sectors b) < unat (rq_sector req) + ?n div 512"
    using assms(1) by (cases "has_feature b VIRTIO_BLK_F_RO \<and> ?ty \<noteq> In") (auto simp: refused_def check_request_def Let_def)
  then show ?thesis
  proof cases
    case 1
    then have "check_request b ?ty = Err ReadOnly" by (simp add: check_request_def)
    then show ?thesis using assms(3)
      by (simp add: execute_inner_def shl on_backend_def pbind_def plift_def VIRTIO_BLK_S_IOERR_def)
  next
    case 2
    then show ?thesis
    proof (cases "512 dvd ?n")
      case True
      then have "check_sectors b (total_data_len req div SECTOR_SIZE) (rq_sector req) = Err InvalidAccess"
        using 2(3) cnt by (intro check_sectors_beyond) simp
      then show ?thesis using assms(3) 2(1,2) True dvd
        by (auto simp: execute_inner_def shl on_backend_def pbind_def plift_def VIRTIO_BLK_S_IOERR_def)
    next
      case False
      then show ?thesis using assms(3) 2(1,2) dvd
        by (auto simp: execute_inner_def shl on_backend_def pbind_def plift_def VIRTIO_BLK_S_IOERR_def)
    qed
  qed
qed

text \<open>
C26. Refused requests.  A request other than a read on a read-only device, a transfer that is not whole
  sectors and a transfer that reaches behind the last sector are not executed: the disk is unchanged, the
  status byte becomes 1, which is the only byte of guest memory that changes, and one byte is reported.
\<close>
theorem block_refused_without_effect:
  assumes "random_access (be_read ops) pos content (be_seek ops) (be_write_all ops)" "mem_ok mem"
    and "refused b req" "length (seg_addrs (rq_data req)) < 2 ^ 64" "mapped mem (rq_status_addr req) 1"
  shows "\<exists>b' mem'. process_request ops req (b, mem) = Some (Ok 1, (b', mem')) \<and>
    byte_at mem' = (byte_at mem)(unat (rq_status_addr req) \<mapsto> 1) \<and> content (be_inner b') = content (be_inner b)"
proof -
  obtain y s' where s: "be_seek ops (push_bit 9 (rq_sector req)) (be_inner b) = (Ok y, s')" "content s' = content (be_inner b)"
    using random_access.seek_law [OF assms(1)] by metis
  obtain e where e: "execute_inner ops b req (be_inner b, mem) = Some (Err e, (s', mem))" "exec_status e = 1"
    "\<forall>g n. e \<noteq> ReadError g n"
    using refused_error [OF assms(3,4) s(1)] by blast
  then have len: "(case e of ReadError g n \<Rightarrow> n | _ \<Rightarrow> 0) = 0" by (cases e) auto
  obtain mem' where w: "gm_write_slice [1] (rq_status_addr req) mem = (Ok (), mem')"
    "updated mem mem' (unat (rq_status_addr req)) [1]"
    using gm_write_slice_ok [OF assms(2), of "[1]"] assms(5) by auto
  have "byte_at mem' = (byte_at mem)(unat (rq_status_addr req) \<mapsto> 1)"
    using updated_wrote [OF w(2)] by (simp add: wrote_def)
  moreover have "process_request ops req (b, mem) = Some (Ok 1, (b\<lparr>be_inner := s'\<rparr>, mem'))"
    using e(1,2) len w(1) by (simp add: process_request_def execute_def gm_write_obj_def checked_add_def)
  ultimately show ?thesis using s(2) by simp
qed

section \<open>A disk in memory\<close>

text \<open>A cursor over a vector as the backend; the operations that need a file are those of a plain file.\<close>

definition cursor_ops :: "cursor backend_ops" where
  "cursor_ops =
     \<lparr>be_seek = cursor_seek,
      be_seek_end = (\<lambda>c. (Ok (of_nat (length (cu_data c))), c\<lparr>cu_pos := length (cu_data c)\<rparr>)),
      be_read = cursor_read_volatile,
      be_write_all = (\<lambda>mem. write_all_volatile mem cursor_write_volatile),
      be_fsync = (\<lambda>c. (Ok (), c)),
      be_punch_hole = (\<lambda>off len c. (Err (KOther 95), c)),
      be_write_all_zeroes_at = (\<lambda>off len c. (Ok (), c\<lparr>cu_data := overwrite_at (unat off) (replicate len 0) (cu_data c)\<rparr>))\<rparr>"

lemma cursor_ops_file:
  "random_access (be_read cursor_ops) cu_pos cu_data (be_seek cursor_ops) (be_write_all cursor_ops)"
  using cursor.random_access_axioms by (simp add: cursor_ops_def)

definition disk_mem :: gmem where
  "disk_mem = [sample_region 0x1000 0x10000 2048]"

definition disk :: "cursor std_io_backend" where
  "disk = \<lparr>be_inner = \<lparr>cu_data = replicate 1024 7, cu_pos = 0\<rparr>, be_num_sectors = 2, be_features = 0, be_device_id = None\<rparr>"

definition disk_request :: "request_type \<Rightarrow> (u64 \<times> u32) list \<Rightarrow> u64 \<Rightarrow> u64 \<Rightarrow> request" where
  "disk_request ty dat sector status =
     \<lparr>rq_request_type = ty, rq_data = dat, rq_sector = sector, rq_status_addr = status\<rparr>"

lemma disk_mem_ok: "mem_ok disk_mem"
  using sample_region_ok [of 2048] by (simp add: mem_ok_def disk_mem_def USIZE_MAX_def)

lemma disk_byte_at: "byte_at disk_mem x = (if 0x1000 \<le> x \<and> x < 0x1800 then Some 0 else None)"
  by (auto simp: byte_at_def region_at_def disk_mem_def sample_region_def region_addrs_def region_end_def)

lemma disk_mapped: "mapped disk_mem a n \<longleftrightarrow> n = 0 \<or> 0x1000 \<le> unat a \<and> unat a + n \<le> 0x1800"
proof (cases n)
  case (Suc k)
  have "mapped disk_mem a n \<Longrightarrow> 0x1000 \<le> unat a + 0 \<and> unat a + k < 0x1800"
    unfolding mapped_def disk_byte_at Suc by (metis lessI option.distinct(1) zero_less_Suc)
  moreover have "0x1000 \<le> unat a \<and> unat a + n \<le> 0x1800 \<Longrightarrow> mapped disk_mem a n"
    by (simp add: mapped_def disk_byte_at Suc)
  ultimately show ?thesis using Suc by auto
qed (simp add: mapped_def)

lemma disk_disk_ok: "disk_ok cu_data disk"
  by (simp add: disk_ok_def disk_def)

lemma length_seg_addrs: "length (seg_addrs dat) = sum_list (map (\<lambda>x. unat (snd x)) dat)"
  by (simp add: seg_addrs_def length_concat comp_def case_prod_beta)

lemmas disk_eval = disk_request_def disk_def disk_mapped length_seg_addrs

theorem block_read_exact_witness:
  "\<exists>b' mem'. process_request cursor_ops (disk_request In [(0x1000, 256), (0x1400, 256)] 1 0x1700) (disk, disk_mem) =
       Some (Ok 513, (b', mem')) \<and>
     byte_at mem' = ((byte_at disk_mem)(seg_addrs [(0x1000, 256), (0x1400, 256)] [\<mapsto>] replicate 512 7))(0x1700 \<mapsto> 0)"
proof -
  let ?r = "disk_request In [(0x1000, 256), (0x1400, 256)] 1 0x1700"
  have tr: "transfer_ok disk disk_mem ?r"
    by (simp add: transfer_ok_def disk_eval del: seg_addrs_simps)
  have "rq_request_type ?r = In" by (simp add: disk_request_def)
  from block_read_exact [OF cursor_ops_file disk_mem_ok disk_disk_ok tr this refl]
  show ?thesis by (simp add: disk_eval del: seg_addrs_simps) blast
qed

theorem block_write_read_roundtrip_witness:
  "\<exists>b1 m1 b2 m2. process_request cursor_ops (disk_request Out [(0x1000, 512)] 1 0x1700) (disk, disk_mem) = Some (Ok 1, (b1, m1)) \<and>
     process_request cursor_ops (disk_request In [(0x1200, 256), (0x1500, 256)] 1 0x1701) (b1, m1) = Some (Ok 513, (b2, m2)) \<and>
     byte_at m2 0x1701 = Some 0"
proof -
  let ?w = "disk_request Out [(0x1000, 512)] 1 0x1700" and ?r = "disk_request In [(0x1200, 256), (0x1500, 256)] 1 0x1701"
  have ro: "\<not> has_feature disk VIRTIO_BLK_F_RO" by (simp add: has_feature_def disk_def)
  have tr: "transfer_ok disk disk_mem ?w" "transfer_ok disk disk_mem ?r"
    by (simp_all add: transfer_ok_def disk_eval del: seg_addrs_simps)
  have ty: "rq_request_type ?w = Out" "rq_request_type ?r = In" "rq_sector ?r = rq_sector ?w"
    by (simp_all add: disk_request_def)
  have len: "length (seg_addrs (rq_data ?r)) = length (seg_addrs (rq_data ?w))"
    by (simp add: disk_eval del: seg_addrs_simps)
  have "distinct (seg_addrs (rq_data ?r) @ [unat (rq_status_addr ?r)])"
    by (simp add: disk_request_def seg_addrs_def del: upt_rec_numeral)
  from block_write_read_roundtrip [OF cursor_ops_file disk_mem_ok disk_disk_ok ro tr(1) ty(1) tr(2) ty(2,3) refl refl len this]
  show ?thesis by (simp add: disk_eval del: seg_addrs_simps) blast
qed

theorem block_refused_without_effect_witness:
  "\<exists>b' mem'. process_request cursor_ops (disk_request Out [(0x1000, 1024)] 1 0x1700) (disk, disk_mem) = Some (Ok 1, (b', mem')) \<and>
     byte_at mem' = (byte_at disk_mem)(0x1700 \<mapsto> 1)"
proof -
  let ?w = "disk_request Out [(0x1000, 1024)] 1 0x1700"
  have "refused disk ?w" "length (seg_addrs (rq_data ?w)) < 2 ^ 64" "mapped disk_mem (rq_status_addr ?w) 1"
    by (simp_all add: refused_def disk_eval del: seg_addrs_simps)
  from block_refused_without_effect [OF cursor_ops_file disk_mem_ok this] show ?thesis
    by (simp add: disk_eval del: seg_addrs_simps) blast
qed

end
