(* ===== verification/VirtVsock.thy ===== *)
theory VirtVsock
  imports VirtBuffers
begin

text \<open>
  The packets of the socket device: \<^verbatim>\<open>vm-virtio/virtio-vsock/src/packet.rs\<close>. A packet is a slice of guest memory
  with the header, a copy of the header and a slice with the payload. The copy is read once when a packet is sent; the setters
  change the copy and the memory. The chain may live in another memory than the buffers, as in the code. Structures in guest
  memory are little-endian.
\<close>

section \<open>Packets (packet.rs)\<close>

datatype vsock_error =
  VsockChainTooShort | VsockLengthTooSmall | VsockLengthTooLong | FragmentedMemory | InvalidHeaderInputSize nat
| InvalidHeaderLen u32 | InvalidMemoryAccess guest_memory_error | InvalidVolatileAccess volatile_error
| VsockReadOnlyDescriptor | VsockWriteOnlyDescriptor

record packet_header =
  ph_src_cid :: u64
  ph_dst_cid :: u64
  ph_src_port :: u32
  ph_dst_port :: u32
  ph_len :: u32
  ph_type :: u16
  ph_op :: u16
  ph_flags :: u32
  ph_buf_alloc :: u32
  ph_fwd_cnt :: u32

definition PKT_HEADER_SIZE :: nat where "PKT_HEADER_SIZE = 44"

definition packet_header_bytes :: "packet_header \<Rightarrow> u8 list" where
  "packet_header_bytes h =
     le_bytes 8 (ph_src_cid h) @ le_bytes 8 (ph_dst_cid h) @ le_bytes 4 (ph_src_port h) @ le_bytes 4 (ph_dst_port h) @
     le_bytes 4 (ph_len h) @ le_bytes 2 (ph_type h) @ le_bytes 2 (ph_op h) @ le_bytes 4 (ph_flags h) @
     le_bytes 4 (ph_buf_alloc h) @ le_bytes 4 (ph_fwd_cnt h)"

definition packet_header_of_bytes :: "u8 list \<Rightarrow> packet_header" where
  "packet_header_of_bytes bs =
     \<lparr>ph_src_cid = of_le_bytes (take 8 bs), ph_dst_cid = of_le_bytes (take 8 (drop 8 bs)),
      ph_src_port = of_le_bytes (take 4 (drop 16 bs)), ph_dst_port = of_le_bytes (take 4 (drop 20 bs)),
      ph_len = of_le_bytes (take 4 (drop 24 bs)), ph_type = of_le_bytes (take 2 (drop 28 bs)),
      ph_op = of_le_bytes (take 2 (drop 30 bs)), ph_flags = of_le_bytes (take 4 (drop 32 bs)),
      ph_buf_alloc = of_le_bytes (take 4 (drop 36 bs)), ph_fwd_cnt = of_le_bytes (take 4 (drop 40 bs))\<rparr>"

definition default_header :: packet_header where
  "default_header = \<lparr>ph_src_cid = 0, ph_dst_cid = 0, ph_src_port = 0, ph_dst_port = 0, ph_len = 0, ph_type = 0, ph_op = 0,
     ph_flags = 0, ph_buf_alloc = 0, ph_fwd_cnt = 0\<rparr>"

record vsock_packet =
  vp_header_slice :: vslice
  vp_header :: packet_header
  vp_data_slice :: "vslice option"

definition SRC_CID_OFFSET :: nat where "SRC_CID_OFFSET = 0"
definition DST_CID_OFFSET :: nat where "DST_CID_OFFSET = 8"
definition SRC_PORT_OFFSET :: nat where "SRC_PORT_OFFSET = 16"
definition DST_PORT_OFFSET :: nat where "DST_PORT_OFFSET = 20"
definition LEN_OFFSET :: nat where "LEN_OFFSET = 24"
definition TYPE_OFFSET :: nat where "TYPE_OFFSET = 28"
definition OP_OFFSET :: nat where "OP_OFFSET = 30"
definition FLAGS_OFFSET :: nat where "FLAGS_OFFSET = 32"
definition BUF_ALLOC_OFFSET :: nat where "BUF_ALLOC_OFFSET = 36"
definition FWD_CNT_OFFSET :: nat where "FWD_CNT_OFFSET = 40"

definition set_header_field :: "(packet_header \<Rightarrow> packet_header) \<Rightarrow> u8 list \<Rightarrow> nat \<Rightarrow> (vsock_packet \<times> gmem, unit, vsock_error) act" where
  "set_header_field upd bytes offset = (\<lambda>(p, mem).
     case vs_write bytes offset (vp_header_slice p) mem of (r, mem') \<Rightarrow>
       (case r of Ok _ \<Rightarrow> Ok () | Err _ \<Rightarrow> Panic | Panic \<Rightarrow> Panic, (p\<lparr>vp_header := upd (vp_header p)\<rparr>, mem')))"

datatype header_op =
    SetSrcCid u64 | SetDstCid u64 | SetSrcPort u32 | SetDstPort u32 | SetLen u32 | SetType u16 | SetOp u16
  | SetFlags u32 | SetFlag u32 | SetBufAlloc u32 | SetFwdCnt u32

definition set_flags :: "u32 \<Rightarrow> (vsock_packet \<times> gmem, unit, vsock_error) act" where
  "set_flags flags = set_header_field (\<lambda>h. h\<lparr>ph_flags := flags\<rparr>) (le_bytes 4 flags) FLAGS_OFFSET"

fun set_field :: "header_op \<Rightarrow> (vsock_packet \<times> gmem, unit, vsock_error) act" where
  "set_field (SetSrcCid cid) = set_header_field (\<lambda>h. h\<lparr>ph_src_cid := cid\<rparr>) (le_bytes 8 cid) SRC_CID_OFFSET"
| "set_field (SetDstCid cid) = set_header_field (\<lambda>h. h\<lparr>ph_dst_cid := cid\<rparr>) (le_bytes 8 cid) DST_CID_OFFSET"
| "set_field (SetSrcPort port) = set_header_field (\<lambda>h. h\<lparr>ph_src_port := port\<rparr>) (le_bytes 4 port) SRC_PORT_OFFSET"
| "set_field (SetDstPort port) = set_header_field (\<lambda>h. h\<lparr>ph_dst_port := port\<rparr>) (le_bytes 4 port) DST_PORT_OFFSET"
| "set_field (SetLen len) = set_header_field (\<lambda>h. h\<lparr>ph_len := len\<rparr>) (le_bytes 4 len) LEN_OFFSET"
| "set_field (SetType type) = set_header_field (\<lambda>h. h\<lparr>ph_type := type\<rparr>) (le_bytes 2 type) TYPE_OFFSET"
| "set_field (SetOp op) = set_header_field (\<lambda>h. h\<lparr>ph_op := op\<rparr>) (le_bytes 2 op) OP_OFFSET"
| "set_field (SetFlags flags) = set_flags flags"
| "set_field (SetFlag flag) = (\<lambda>(p, mem). set_flags (or (ph_flags (vp_header p)) flag) (p, mem))"
| "set_field (SetBufAlloc n) = set_header_field (\<lambda>h. h\<lparr>ph_buf_alloc := n\<rparr>) (le_bytes 4 n) BUF_ALLOC_OFFSET"
| "set_field (SetFwdCnt n) = set_header_field (\<lambda>h. h\<lparr>ph_fwd_cnt := n\<rparr>) (le_bytes 4 n) FWD_CNT_OFFSET"

definition vs_read_slice :: "u8 list \<Rightarrow> nat \<Rightarrow> vslice \<Rightarrow> gmem \<Rightarrow> (u8 list, volatile_error) result" where
  "vs_read_slice buf addr s mem = rbind (vs_read buf addr s mem) (\<lambda>(len, buf').
     if len \<noteq> length buf then Err (VPartialBuffer (length buf) len) else Ok buf')"

definition set_header_from_raw :: "u8 list \<Rightarrow> (vsock_packet \<times> gmem, unit, vsock_error) act" where
  "set_header_from_raw bytes = (\<lambda>(p, mem).
     if length bytes \<noteq> PKT_HEADER_SIZE then (Err (InvalidHeaderInputSize (length bytes)), (p, mem))
     else case vs_write bytes 0 (vp_header_slice p) mem of (w, mem') \<Rightarrow>
       (case rbind (map_err InvalidVolatileAccess w) (\<lambda>_.
           map_err InvalidVolatileAccess (vs_read_slice (replicate PKT_HEADER_SIZE 0) 0 (vp_header_slice p) mem')) of
          Ok bs \<Rightarrow> (Ok (), (p\<lparr>vp_header := packet_header_of_bytes bs\<rparr>, mem'))
        | Err e \<Rightarrow> (Err e, (p, mem'))
        | Panic \<Rightarrow> (Panic, (p, mem'))))"

definition get_single_slice :: "gmem \<Rightarrow> u64 \<Rightarrow> nat \<Rightarrow> (vslice option, vsock_error) result" where
  "get_single_slice mem addr count =
     (if count = 0 then Ok None
      else rbind (map_err InvalidMemoryAccess (first_slice mem addr count)) (\<lambda>slice.
        if vs_size slice = count then Ok (Some slice) else Err FragmentedMemory))"

definition vsock_packet_new :: "vslice \<Rightarrow> vslice option \<Rightarrow> (vsock_packet, vsock_error) result" where
  "vsock_packet_new header dat =
     (if vs_size header \<noteq> PKT_HEADER_SIZE then Err (InvalidHeaderInputSize (vs_size header))
      else Ok \<lparr>vp_header_slice = header, vp_header = default_header, vp_data_slice = dat\<rparr>)"

definition vsock_next :: "gmem \<Rightarrow> (chain, descriptor, vsock_error) act" where
  "vsock_next mem c = (case chain_next mem c of (d, c') \<Rightarrow> (ok_or d VsockChainTooShort, c'))"

definition tx_data_slice :: "gmem \<Rightarrow> gmem \<Rightarrow> descriptor \<Rightarrow> u32 \<Rightarrow> (chain, vslice, vsock_error) act" where
  "tx_data_slice cmem mem head len =
     (if \<not> has_next head \<and> len \<le> d_len head - of_nat PKT_HEADER_SIZE
      then alift (rbind (ok_or (checked_add (d_addr head) (of_nat PKT_HEADER_SIZE)) VsockLengthTooSmall) (\<lambda>a.
        rbind (get_single_slice mem a (unat len)) unwrap))
      else if \<not> has_next head then alift (Err VsockChainTooShort)
      else abind (vsock_next cmem) (\<lambda>data_desc.
        if is_write_only data_desc then alift (Err VsockWriteOnlyDescriptor)
        else if d_len data_desc < len then alift (Err VsockLengthTooSmall)
        else alift (rbind (get_single_slice mem (d_addr data_desc) (unat len)) unwrap)))"

definition from_tx_virtq_chain :: "gmem \<Rightarrow> gmem \<Rightarrow> u32 \<Rightarrow> (chain, vsock_packet, vsock_error) act" where
  "from_tx_virtq_chain cmem mem max_data_size =
     abind (vsock_next cmem) (\<lambda>chain_head.
       if is_write_only chain_head then alift (Err VsockWriteOnlyDescriptor)
       else if unat (d_len chain_head) < PKT_HEADER_SIZE then alift (Err VsockLengthTooSmall)
       else abind (alift (rbind (get_single_slice mem (d_addr chain_head) PKT_HEADER_SIZE) unwrap)) (\<lambda>header_slice.
         abind (alift (map_err InvalidMemoryAccess (gm_read_obj PKT_HEADER_SIZE (d_addr chain_head) mem))) (\<lambda>bs.
           let header = packet_header_of_bytes bs; len = ph_len header;
               pkt = \<lparr>vp_header_slice = header_slice, vp_header = header, vp_data_slice = None\<rparr> in
           if len = 0 then alift (Ok pkt)
           else if max_data_size < len then alift (Err (InvalidHeaderLen len))
           else abind
             (tx_data_slice cmem mem chain_head len)
             (\<lambda>data_slice. alift (Ok (pkt\<lparr>vp_data_slice := Some data_slice\<rparr>))))))"

definition rx_data_slice :: "gmem \<Rightarrow> gmem \<Rightarrow> u32 \<Rightarrow> descriptor \<Rightarrow> (chain, vslice option, vsock_error) act" where
  "rx_data_slice cmem mem max_data_size head =
     (if \<not> has_next head \<and> PKT_HEADER_SIZE < unat (d_len head)
      then alift (rbind (ok_or (checked_add (d_addr head) (of_nat PKT_HEADER_SIZE)) VsockLengthTooSmall) (\<lambda>a.
        get_single_slice mem a (unat (d_len head) - PKT_HEADER_SIZE)))
      else if \<not> has_next head then alift (Err VsockChainTooShort)
      else abind (vsock_next cmem) (\<lambda>data_desc.
        if \<not> is_write_only data_desc then alift (Err VsockReadOnlyDescriptor)
        else if max_data_size < d_len data_desc then alift (Err VsockLengthTooLong)
        else alift (get_single_slice mem (d_addr data_desc) (unat (d_len data_desc)))))"

definition from_rx_virtq_chain :: "gmem \<Rightarrow> gmem \<Rightarrow> u32 \<Rightarrow> (chain, vsock_packet, vsock_error) act" where
  "from_rx_virtq_chain cmem mem max_data_size =
     abind (vsock_next cmem) (\<lambda>chain_head.
       if \<not> is_write_only chain_head then alift (Err VsockReadOnlyDescriptor)
       else if unat (d_len chain_head) < PKT_HEADER_SIZE then alift (Err VsockLengthTooSmall)
       else abind (alift (rbind (get_single_slice mem (d_addr chain_head) PKT_HEADER_SIZE) unwrap)) (\<lambda>header_slice.
         abind
           (rx_data_slice cmem mem max_data_size chain_head)
           (\<lambda>data_slice. alift (Ok \<lparr>vp_header_slice = header_slice, vp_header = default_header, vp_data_slice = data_slice\<rparr>))))"

section \<open>The header in memory\<close>

lemma vs_write_at:
  assumes "mem_ok mem" "slice_in mem s" "v \<noteq> []" "off + length v \<le> vs_size s"
  shows "\<exists>mem'. vs_write v off s mem = (Ok (length v), mem') \<and> updated mem mem' (slice_addr mem s + off) v"
proof -
  let ?s = "s\<lparr>vs_start := vs_start s + off, vs_size := vs_size s - off\<rparr>"
  have off: "off \<le> vs_size s" "off < vs_size s" using assms(3,4) by (auto simp: Suc_le_eq neq_Nil_conv)
  note s = slice_offset_eq [OF assms(1,2) off(1)]
  have "updated mem (write_at (vs_region s) (vs_start s + off) v mem) (slice_addr mem s + off) v"
    using write_at_updated [OF assms(1), of "vs_region s" "vs_start s + off" v] assms(2,4)
    by (simp add: slice_in_def slice_addr_def add.assoc)
  then show ?thesis
    using assms(3,4) off(2) s(1) copy_to_volatile_slice_eq [OF assms(1) s(2), of "length v" v]
    by (auto simp: vs_write_def read_volatile_def min_def not_le)
qed

lemma bytes_at_overwritten:
  assumes "updated mem mem' (x + off) v" "off + length v \<le> n"
  shows "bytes_at mem' x n = overwrite_at off v (bytes_at mem x n)"
proof (rule nth_equalityI)
  fix k assume "k < length (bytes_at mem' x n)"
  then show "bytes_at mem' x n ! k = overwrite_at off v (bytes_at mem x n) ! k"
    using assms by (auto simp: bytes_at_def nth_overwrite updated_def)
qed (use assms in simp)

definition packet_ok :: "gmem \<Rightarrow> vsock_packet \<Rightarrow> bool" where
  "packet_ok mem p \<longleftrightarrow> mem_ok mem \<and> slice_in mem (vp_header_slice p) \<and> vs_size (vp_header_slice p) = PKT_HEADER_SIZE"

definition header_bytes_at :: "gmem \<Rightarrow> vsock_packet \<Rightarrow> u8 list" where
  "header_bytes_at mem p = bytes_at mem (slice_addr mem (vp_header_slice p)) PKT_HEADER_SIZE"

definition only_header_changed :: "gmem \<Rightarrow> vsock_packet \<Rightarrow> gmem \<Rightarrow> bool" where
  "only_header_changed mem p mem' \<longleftrightarrow>
     (\<forall>y. y \<notin> set (slice_addrs mem (vp_header_slice p)) \<longrightarrow> byte_at mem' y = byte_at mem y)"

lemma length_packet_header_bytes [simp]: "length (packet_header_bytes h) = 44"
  by (simp add: packet_header_bytes_def)

lemma header_of_header_bytes: "packet_header_of_bytes (packet_header_bytes h) = h"
  by (cases h) (simp add: packet_header_of_bytes_def packet_header_bytes_def of_le_le_bytes)

lemma append_takes:
  assumes "length bs = 44"
  shows "take 8 bs @ take 8 (drop 8 bs) @ take 4 (drop 16 bs) @ take 4 (drop 20 bs) @ take 4 (drop 24 bs) @
    take 2 (drop 28 bs) @ take 2 (drop 30 bs) @ take 4 (drop 32 bs) @ take 4 (drop 36 bs) @ take 4 (drop 40 bs) = bs"
proof -
  have step: "take n (drop m bs) @ drop (m + n) bs = drop m bs" for m n
    by (metis add.commute append_take_drop_id drop_drop)
  show ?thesis
    using assms step [of 4 36] step [of 4 32] step [of 2 30] step [of 2 28] step [of 4 24] step [of 4 20] step [of 4 16]
      step [of 8 8] by simp
qed

lemma header_bytes_of_header:
  assumes "length bs = 44"
  shows "packet_header_bytes (packet_header_of_bytes bs) = bs"
  using append_takes [OF assms] assms by (simp add: packet_header_of_bytes_def packet_header_bytes_def le_bytes_of_le)

lemma slice_shape:
  assumes "shape mem' = shape mem" "slice_in mem s"
  shows "slice_in mem' s" "slice_addr mem' s = slice_addr mem s" "slice_addrs mem' s = slice_addrs mem s"
  using shape_slice [OF assms(1)] assms(2) by (auto simp: slice_addrs_def)

fun header_after :: "header_op \<Rightarrow> packet_header \<Rightarrow> packet_header" where
  "header_after (SetSrcCid cid) h = h\<lparr>ph_src_cid := cid\<rparr>"
| "header_after (SetDstCid cid) h = h\<lparr>ph_dst_cid := cid\<rparr>"
| "header_after (SetSrcPort port) h = h\<lparr>ph_src_port := port\<rparr>"
| "header_after (SetDstPort port) h = h\<lparr>ph_dst_port := port\<rparr>"
| "header_after (SetLen len) h = h\<lparr>ph_len := len\<rparr>"
| "header_after (SetType type) h = h\<lparr>ph_type := type\<rparr>"
| "header_after (SetOp op) h = h\<lparr>ph_op := op\<rparr>"
| "header_after (SetFlags flags) h = h\<lparr>ph_flags := flags\<rparr>"
| "header_after (SetFlag flag) h = h\<lparr>ph_flags := or (ph_flags h) flag\<rparr>"
| "header_after (SetBufAlloc n) h = h\<lparr>ph_buf_alloc := n\<rparr>"
| "header_after (SetFwdCnt n) h = h\<lparr>ph_fwd_cnt := n\<rparr>"

lemma set_header_field_ok:
  assumes "packet_ok mem p" "v \<noteq> []" "off + length v \<le> PKT_HEADER_SIZE" "p' = p\<lparr>vp_header := upd (vp_header p)\<rparr>"
    "packet_header_bytes (upd (vp_header p)) = overwrite_at off v (packet_header_bytes (vp_header p))"
    "header_bytes_at mem p = packet_header_bytes (vp_header p)"
  shows "\<exists>mem'. set_header_field upd v off (p, mem) = (Ok (), (p', mem')) \<and> packet_ok mem' p' \<and>
    header_bytes_at mem' p' = packet_header_bytes (vp_header p') \<and> only_header_changed mem p mem' \<and>
    slice_addrs mem' (vp_header_slice p') = slice_addrs mem (vp_header_slice p)"
proof -
  have p: "mem_ok mem" "slice_in mem (vp_header_slice p)" "vs_size (vp_header_slice p) = PKT_HEADER_SIZE"
    using assms(1) by (auto simp: packet_ok_def)
  obtain mem' where w: "vs_write v off (vp_header_slice p) mem = (Ok (length v), mem')"
    "updated mem mem' (slice_addr mem (vp_header_slice p) + off) v"
    using vs_write_at [OF p(1,2) assms(2)] assms(3) p(3) by auto
  have m': "mem_ok mem'" "shape mem' = shape mem" using w(2) by (auto simp: updated_def)
  note s = slice_shape [OF m'(2) p(2)]
  have "header_bytes_at mem' p' = overwrite_at off v (header_bytes_at mem p)"
    using bytes_at_overwritten [OF w(2) assms(3)] by (simp add: header_bytes_at_def s assms(4))
  moreover have "only_header_changed mem p mem'"
    using w(2) assms(3) p(3) by (auto simp: only_header_changed_def slice_addrs_def updated_def)
  ultimately show ?thesis
    using w(1) m'(1) s p(3) assms(4-6) by (auto simp: set_header_field_def packet_ok_def)
qed

lemma set_field_ok:
  assumes "packet_ok mem p" "header_bytes_at mem p = packet_header_bytes (vp_header p)"
    "p' = p\<lparr>vp_header := header_after op (vp_header p)\<rparr>"
  shows "\<exists>mem'. set_field op (p, mem) = (Ok (), (p', mem')) \<and> packet_ok mem' p' \<and>
    header_bytes_at mem' p' = packet_header_bytes (vp_header p') \<and> only_header_changed mem p mem' \<and>
    slice_addrs mem' (vp_header_slice p') = slice_addrs mem (vp_header_slice p)"
  by (cases op; simp only: set_field.simps set_flags_def prod.case; rule set_header_field_ok [OF assms(1) _ _ _ _ assms(2)];
    simp add: assms(3) overwrite_at_def packet_header_bytes_def PKT_HEADER_SIZE_def SRC_CID_OFFSET_def DST_CID_OFFSET_def
      SRC_PORT_OFFSET_def DST_PORT_OFFSET_def LEN_OFFSET_def TYPE_OFFSET_def OP_OFFSET_def FLAGS_OFFSET_def
      BUF_ALLOC_OFFSET_def FWD_CNT_OFFSET_def flip: length_0_conv)

primrec set_fields :: "header_op list \<Rightarrow> (vsock_packet \<times> gmem, unit, vsock_error) act" where
  "set_fields [] = alift (Ok ())"
| "set_fields (x # ops) = abind (set_field x) (\<lambda>_. set_fields ops)"

lemma set_fields_ok:
  assumes "packet_ok mem p" "header_bytes_at mem p = packet_header_bytes (vp_header p)"
  shows "\<exists>p' mem'. set_fields ops (p, mem) = (Ok (), (p', mem')) \<and> p' = p\<lparr>vp_header := fold header_after ops (vp_header p)\<rparr> \<and>
    packet_ok mem' p' \<and> header_bytes_at mem' p' = packet_header_bytes (vp_header p') \<and> only_header_changed mem p mem'"
  using assms
proof (induction ops arbitrary: p mem)
  case Nil
  then show ?case by (auto simp: alift_def only_header_changed_def)
next
  case (Cons x ops)
  from set_field_ok [OF Cons.prems refl, of x] obtain mem1 where
    x: "set_field x (p, mem) = (Ok (), (p\<lparr>vp_header := header_after x (vp_header p)\<rparr>, mem1))"
      "packet_ok mem1 (p\<lparr>vp_header := header_after x (vp_header p)\<rparr>)"
      "header_bytes_at mem1 (p\<lparr>vp_header := header_after x (vp_header p)\<rparr>) = packet_header_bytes (header_after x (vp_header p))"
      "only_header_changed mem p mem1" "slice_addrs mem1 (vp_header_slice p) = slice_addrs mem (vp_header_slice p)"
    by auto
  from Cons.IH [OF x(2)] x(3) obtain mem' where
    "set_fields ops (p\<lparr>vp_header := header_after x (vp_header p)\<rparr>, mem1) =
        (Ok (), (p\<lparr>vp_header := fold header_after ops (header_after x (vp_header p))\<rparr>, mem'))"
      "packet_ok mem' (p\<lparr>vp_header := fold header_after ops (header_after x (vp_header p))\<rparr>)"
      "header_bytes_at mem' (p\<lparr>vp_header := fold header_after ops (header_after x (vp_header p))\<rparr>) =
        packet_header_bytes (fold header_after ops (header_after x (vp_header p)))"
      "only_header_changed mem1 (p\<lparr>vp_header := header_after x (vp_header p)\<rparr>) mem'"
    by auto
  then show ?case using x by (auto simp: abind_def only_header_changed_def)
qed

lemma set_header_from_raw_ok:
  assumes "packet_ok mem p" "length raw = PKT_HEADER_SIZE"
  shows "\<exists>mem'. set_header_from_raw raw (p, mem) = (Ok (), (p\<lparr>vp_header := packet_header_of_bytes raw\<rparr>, mem')) \<and>
    packet_ok mem' p \<and> header_bytes_at mem' p = raw \<and> only_header_changed mem p mem' \<and>
    slice_addrs mem' (vp_header_slice p) = slice_addrs mem (vp_header_slice p)"
proof -
  have p: "mem_ok mem" "slice_in mem (vp_header_slice p)" "vs_size (vp_header_slice p) = PKT_HEADER_SIZE" and ne: "raw \<noteq> []"
    using assms by (auto simp: packet_ok_def PKT_HEADER_SIZE_def)
  obtain mem' where w: "vs_write raw 0 (vp_header_slice p) mem = (Ok (length raw), mem')"
    "updated mem mem' (slice_addr mem (vp_header_slice p) + 0) raw"
    using vs_write_at [OF p(1,2) ne, of 0] assms(2) p(3) by auto
  have m': "mem_ok mem'" "shape mem' = shape mem" using w(2) by (auto simp: updated_def)
  note s = slice_shape [OF m'(2) p(2)]
  have raw: "bytes_at mem' (slice_addr mem' (vp_header_slice p)) PKT_HEADER_SIZE = raw"
    using bytes_at_overwritten [OF w(2), of PKT_HEADER_SIZE] assms(2) s by (simp add: overwrite_at_def)
  have "vs_read (replicate PKT_HEADER_SIZE 0) 0 (vp_header_slice p) mem' = Ok (PKT_HEADER_SIZE, raw)"
    using vs_read_eq [OF m'(1) s(1), of "replicate PKT_HEADER_SIZE 0" PKT_HEADER_SIZE] p(3) raw by (simp add: PKT_HEADER_SIZE_def)
  then show ?thesis
    using w assms(2) m'(1) s p(3) raw
    by (auto simp: set_header_from_raw_def vs_read_slice_def packet_ok_def header_bytes_at_def only_header_changed_def
        updated_def slice_addrs_def)
qed

section \<open>Parsing\<close>

text \<open>A slice that is the memory from an address on, in one piece.\<close>

definition piece :: "gmem \<Rightarrow> u64 \<Rightarrow> nat \<Rightarrow> vslice \<Rightarrow> bool" where
  "piece mem a n s \<longleftrightarrow> slice_in mem s \<and> slice_addr mem s = unat a \<and> vs_size s = n"

lemma get_single_slice_Some_iff:
  assumes "mem_ok mem" "0 < n"
  shows "get_single_slice mem a n = Ok (Some s) \<longleftrightarrow> piece mem a n s"
proof (cases "find_region mem a")
  case None
  have "\<not> piece mem a n s"
  proof
    assume "piece mem a n s"
    then have "unat a \<in> region_addrs (mem ! vs_region s)" "vs_region s < length mem"
      using assms(2) by (auto simp: piece_def slice_in_def slice_addr_def region_addrs_def region_end_def)
    then show False using None find_region_None_iff [OF assms(1)] by blast
  qed
  then show ?thesis using None assms by (simp add: get_single_slice_def first_slice_eq)
next
  case (Some i)
  note h = head_facts [OF assms(1) Some]
  have i: "i < length mem" "unat a \<in> region_addrs (mem ! i)" using find_region_sound [OF assms(1) Some] by blast+
  have "s = head_slice mem i a n" if "piece mem a n s"
  proof -
    have v: "vs_region s < length mem" "unat a \<in> region_addrs (mem ! vs_region s)"
      using that assms(2) by (auto simp: piece_def slice_in_def slice_addr_def region_addrs_def region_end_def)
    then have "vs_region s = i" using region_unique [OF assms(1) _ i(1)] i(2) by blast
    then show ?thesis using that by (cases s) (auto simp: piece_def slice_in_def slice_addr_def head_slice_def head_len_def region_end_def)
  qed
  then show ?thesis using Some assms h(2,3)
    by (auto simp: get_single_slice_def first_slice_eq piece_def)
qed

lemma get_single_slice_cases:
  assumes "mem_ok mem"
  shows "get_single_slice mem a n \<noteq> Panic" "get_single_slice mem a n = Ok None \<longleftrightarrow> n = 0"
  using assms by (cases "n = 0"; auto simp: get_single_slice_def first_slice_eq split: option.splits)+

lemma single_slice_unwrap:
  assumes "mem_ok mem" "0 < n"
  shows "rbind (get_single_slice mem a n) unwrap = Ok s \<longleftrightarrow> piece mem a n s"
    "rbind (get_single_slice mem a n) unwrap \<noteq> Panic"
  using get_single_slice_Some_iff [OF assms] get_single_slice_cases [OF assms(1), of a n] assms(2)
  by (auto simp: rbind_eq_Ok_iff rbind_eq_Panic_iff unwrap_def split: option.splits)

lemma vsock_next_eq:
  "vsock_next mem c = (case chain_descs mem c of [] \<Rightarrow> (Err VsockChainTooShort, snd (chain_next mem c))
     | d # _ \<Rightarrow> (Ok d, snd (chain_next mem c)))"
  "chain_descs mem c = d # ds \<Longrightarrow> chain_descs mem (snd (chain_next mem c)) = ds"
  by (auto simp: vsock_next_def chain_descs.simps [of mem c] split: prod.splits option.splits)

lemma piece_mapped:
  assumes "mem_ok mem" "piece mem a n s"
  shows "mapped mem a n"
proof -
  have "unat a + k \<in> region_addrs (mem ! vs_region s)" "vs_region s < length mem" if "k < n" for k
    using assms(2) that by (auto simp: piece_def slice_in_def slice_addr_def region_addrs_def region_end_def)
  then show ?thesis using byte_at_eq [OF assms(1)] by (fastforce simp: mapped_def)
qed

text \<open>The payload of a packet: the bytes the header announces, behind it or in the next descriptor.\<close>

definition tx_data :: "gmem \<Rightarrow> u32 \<Rightarrow> descriptor \<Rightarrow> descriptor list \<Rightarrow> u32 \<Rightarrow> vslice option \<Rightarrow> bool" where
  "tx_data mem max_data_size head rest len dat \<longleftrightarrow>
     (if len = 0 then dat = None
      else len \<le> max_data_size \<and> (\<exists>a s. dat = Some s \<and> piece mem a (unat len) s \<and>
        (if has_next head then (\<exists>d ds. rest = d # ds \<and> \<not> is_write_only d \<and> len \<le> d_len d \<and> a = d_addr d)
         else PKT_HEADER_SIZE + unat len \<le> unat (d_len head) \<and> unat a = unat (d_addr head) + PKT_HEADER_SIZE)))"

lemma behind_header:
  assumes "PKT_HEADER_SIZE \<le> unat (d_len head)"
  shows "len \<le> d_len head - of_nat PKT_HEADER_SIZE \<longleftrightarrow> PKT_HEADER_SIZE + unat len \<le> unat (d_len head)"
    "checked_add (d_addr head) (of_nat PKT_HEADER_SIZE) = Some a \<longleftrightarrow> unat a = unat (d_addr head) + PKT_HEADER_SIZE"
proof -
  have "of_nat PKT_HEADER_SIZE \<le> d_len head" using assms by (simp add: word_le_nat_alt PKT_HEADER_SIZE_def)
  from unat_sub_le [OF this] show "len \<le> d_len head - of_nat PKT_HEADER_SIZE \<longleftrightarrow> PKT_HEADER_SIZE + unat len \<le> unat (d_len head)"
    using assms by (auto simp: word_le_nat_alt PKT_HEADER_SIZE_def)
  have "unat a < 2 ^ 64" using unsigned_less [of a, where 'a = nat] by simp
  then show "checked_add (d_addr head) (of_nat PKT_HEADER_SIZE) = Some a \<longleftrightarrow> unat a = unat (d_addr head) + PKT_HEADER_SIZE"
    by (auto simp: checked_add_Some_iff unat_add_no_overflow PKT_HEADER_SIZE_def word_unat_eq_iff unat_word_ariths)
qed

lemma tx_data_slice_eq:
  assumes "mem_ok mem" "len \<noteq> 0" "len \<le> max_data_size" "PKT_HEADER_SIZE \<le> unat (d_len head)" "chain_descs cmem c = rest"
  shows "fst (tx_data_slice cmem mem head len c) \<noteq> Panic"
    "fst (tx_data_slice cmem mem head len c) = Ok s \<longleftrightarrow> tx_data mem max_data_size head rest len (Some s)"
proof -
  have pos: "0 < unat len" using assms(2) by (simp add: unat_gt_0)
  note slice = single_slice_unwrap [OF assms(1) pos]
  have data: "tx_data mem max_data_size head rest len (Some s) \<longleftrightarrow> (\<exists>a. piece mem a (unat len) s \<and>
    (if has_next head then (\<exists>d ds. rest = d # ds \<and> \<not> is_write_only d \<and> len \<le> d_len d \<and> a = d_addr d)
     else len \<le> d_len head - of_nat PKT_HEADER_SIZE \<and> checked_add (d_addr head) (of_nat PKT_HEADER_SIZE) = Some a))"
    using assms(2,3) by (simp add: tx_data_def behind_header [OF assms(4)])
  show "fst (tx_data_slice cmem mem head len c) \<noteq> Panic"
    using slice(2) by (cases rest) (auto simp: tx_data_slice_def fst_abind vsock_next_eq assms(5) alift_def rbind_eq_Panic_iff)
  show "fst (tx_data_slice cmem mem head len c) = Ok s \<longleftrightarrow> tx_data mem max_data_size head rest len (Some s)"
    unfolding data using slice(1)
    by (cases rest) (auto simp: tx_data_slice_def fst_abind vsock_next_eq assms(5) alift_def rbind_eq_Ok_iff ok_or_eq_Ok_iff not_less)
qed

section \<open>Receiving\<close>

definition buffer_at :: "gmem \<Rightarrow> u64 \<Rightarrow> nat \<Rightarrow> vslice option \<Rightarrow> bool" where
  "buffer_at mem a n dat \<longleftrightarrow> (if n = 0 then dat = None else \<exists>s. dat = Some s \<and> piece mem a n s)"

definition rx_data :: "gmem \<Rightarrow> u32 \<Rightarrow> descriptor \<Rightarrow> descriptor list \<Rightarrow> vslice option \<Rightarrow> bool" where
  "rx_data mem max_data_size head rest dat \<longleftrightarrow>
     (if has_next head
      then \<exists>d ds. rest = d # ds \<and> is_write_only d \<and> d_len d \<le> max_data_size \<and> buffer_at mem (d_addr d) (unat (d_len d)) dat
      else PKT_HEADER_SIZE < unat (d_len head) \<and> (\<exists>a. unat a = unat (d_addr head) + PKT_HEADER_SIZE \<and>
        buffer_at mem a (unat (d_len head) - PKT_HEADER_SIZE) dat))"

lemma single_slice_iff:
  assumes "mem_ok mem"
  shows "get_single_slice mem a n = Ok x \<longleftrightarrow> buffer_at mem a n x"
  using get_single_slice_Some_iff [OF assms, of n a] get_single_slice_cases [OF assms, of a n]
  by (cases x; cases "n = 0") (auto simp: get_single_slice_def buffer_at_def)

lemma rx_data_slice_eq:
  assumes "mem_ok mem" "PKT_HEADER_SIZE \<le> unat (d_len head)" "chain_descs cmem c = rest"
  shows "fst (rx_data_slice cmem mem max_data_size head c) \<noteq> Panic"
    "fst (rx_data_slice cmem mem max_data_size head c) = Ok x \<longleftrightarrow> rx_data mem max_data_size head rest x"
proof -
  note slice = single_slice_iff [OF assms(1)] get_single_slice_cases(1) [OF assms(1)]
  have dat: "rx_data mem max_data_size head rest x \<longleftrightarrow> (if has_next head
      then (\<exists>d ds. rest = d # ds \<and> is_write_only d \<and> d_len d \<le> max_data_size \<and> get_single_slice mem (d_addr d) (unat (d_len d)) = Ok x)
      else PKT_HEADER_SIZE < unat (d_len head) \<and> (\<exists>a. checked_add (d_addr head) (of_nat PKT_HEADER_SIZE) = Some a \<and>
        get_single_slice mem a (unat (d_len head) - PKT_HEADER_SIZE) = Ok x))"
    unfolding rx_data_def slice behind_header(2) [OF assms(2)] by auto
  show "fst (rx_data_slice cmem mem max_data_size head c) \<noteq> Panic"
    using slice(2) by (cases rest) (auto simp: rx_data_slice_def fst_abind vsock_next_eq assms(3) alift_def rbind_eq_Panic_iff)
  show "fst (rx_data_slice cmem mem max_data_size head c) = Ok x \<longleftrightarrow> rx_data mem max_data_size head rest x"
    unfolding dat
    by (cases rest) (auto simp: rx_data_slice_def fst_abind vsock_next_eq assms(3) alift_def rbind_eq_Ok_iff ok_or_eq_Ok_iff not_less)
qed

lemma vsock_rx_exact:
  assumes "mem_ok mem"
  shows "fst (from_rx_virtq_chain cmem mem max_data_size c) \<noteq> Panic \<and>
    (fst (from_rx_virtq_chain cmem mem max_data_size c) = Ok pkt \<longleftrightarrow>
      (\<exists>head rest. chain_descs cmem c = head # rest \<and> is_write_only head \<and> PKT_HEADER_SIZE \<le> unat (d_len head) \<and>
        piece mem (d_addr head) PKT_HEADER_SIZE (vp_header_slice pkt) \<and> vp_header pkt = default_header \<and>
        rx_data mem max_data_size head rest (vp_data_slice pkt)))"
proof (cases "chain_descs cmem c")
  case Nil
  then show ?thesis by (simp add: from_rx_virtq_chain_def fst_abind vsock_next_eq)
next
  case (Cons head rest)
  note nxt = vsock_next_eq(2) [OF Cons]
  have pos: "0 < PKT_HEADER_SIZE" by (simp add: PKT_HEADER_SIZE_def)
  show ?thesis
  proof (cases "\<not> is_write_only head \<or> unat (d_len head) < PKT_HEADER_SIZE")
    case True
    then show ?thesis using Cons by (auto simp: from_rx_virtq_chain_def fst_abind vsock_next_eq alift_def)
  next
    case False
    then have len: "PKT_HEADER_SIZE \<le> unat (d_len head)" by simp
    note dat = rx_data_slice_eq [OF assms len nxt, of max_data_size]
    show ?thesis
    proof (cases "rbind (get_single_slice mem (d_addr head) PKT_HEADER_SIZE) unwrap")
      case (Ok hs)
      then have rx: "fst (from_rx_virtq_chain cmem mem max_data_size c) =
          rbind (fst (rx_data_slice cmem mem max_data_size head (snd (chain_next cmem c))))
            (\<lambda>x. Ok \<lparr>vp_header_slice = hs, vp_header = default_header, vp_data_slice = x\<rparr>)"
        using Cons False by (simp add: from_rx_virtq_chain_def fst_abind vsock_next_eq alift_def)
      have "piece mem (d_addr head) PKT_HEADER_SIZE s \<longleftrightarrow> s = hs" for s
        using single_slice_unwrap(1) [OF assms pos, of "d_addr head" s] Ok by auto
      moreover have "fst (from_rx_virtq_chain cmem mem max_data_size c) = Ok pkt \<longleftrightarrow>
          vp_header_slice pkt = hs \<and> vp_header pkt = default_header \<and> rx_data mem max_data_size head rest (vp_data_slice pkt)"
        unfolding rx using dat(2) by (cases pkt) (auto simp: rbind_eq_Ok_iff)
      moreover have "fst (from_rx_virtq_chain cmem mem max_data_size c) \<noteq> Panic"
        unfolding rx using dat(1) by (simp add: rbind_eq_Panic_iff)
      ultimately show ?thesis using Cons False len by auto
    next
      case (Err e)
      then have "\<not> piece mem (d_addr head) PKT_HEADER_SIZE s" for s
        using single_slice_unwrap(1) [OF assms pos, of "d_addr head" s] by simp
      then show ?thesis using Cons False Err by (simp add: from_rx_virtq_chain_def fst_abind vsock_next_eq alift_def)
    qed (use single_slice_unwrap(2) [OF assms pos] in simp)
  qed
qed

lemma tx_with_header:
  assumes "mem_ok mem" "chain_descs cmem c = head # rest" "\<not> is_write_only head" "PKT_HEADER_SIZE \<le> unat (d_len head)"
    and "rbind (get_single_slice mem (d_addr head) PKT_HEADER_SIZE) unwrap = Ok hs"
  defines "h \<equiv> packet_header_of_bytes (bytes_at mem (unat (d_addr head)) PKT_HEADER_SIZE)"
  shows "fst (from_tx_virtq_chain cmem mem max_data_size c) \<noteq> Panic"
    and "fst (from_tx_virtq_chain cmem mem max_data_size c) = Ok pkt \<longleftrightarrow>
      vp_header_slice pkt = hs \<and> vp_header pkt = h \<and> tx_data mem max_data_size head rest (ph_len h) (vp_data_slice pkt)"
proof -
  let ?tx = "fst (from_tx_virtq_chain cmem mem max_data_size c)"
  have pos: "0 < PKT_HEADER_SIZE" by (simp add: PKT_HEADER_SIZE_def)
  have hs: "piece mem (d_addr head) PKT_HEADER_SIZE hs" using single_slice_unwrap(1) [OF assms(1) pos] assms(5) by simp
  have rd: "gm_read_obj PKT_HEADER_SIZE (d_addr head) mem = Ok (bytes_at mem (unat (d_addr head)) PKT_HEADER_SIZE)"
    by (rule gm_read_obj_eq [OF assms(1) piece_mapped [OF assms(1) hs]])
  have tx: "?tx =
      (let pkt = \<lparr>vp_header_slice = hs, vp_header = h, vp_data_slice = None\<rparr> in
       if ph_len h = 0 then Ok pkt else if max_data_size < ph_len h then Err (InvalidHeaderLen (ph_len h))
       else rbind (fst (tx_data_slice cmem mem head (ph_len h) (snd (chain_next cmem c)))) (\<lambda>s. Ok (pkt\<lparr>vp_data_slice := Some s\<rparr>)))"
    using assms(2-5) rd by (simp add: from_tx_virtq_chain_def fst_abind vsock_next_eq alift_def Let_def h_def)
  show "?tx \<noteq> Panic" "?tx = Ok pkt \<longleftrightarrow>
      vp_header_slice pkt = hs \<and> vp_header pkt = h \<and> tx_data mem max_data_size head rest (ph_len h) (vp_data_slice pkt)"
  proof (atomize(full), cases "ph_len h = 0 \<or> max_data_size < ph_len h")
    case True
    then show "?tx \<noteq> Panic \<and> (?tx = Ok pkt \<longleftrightarrow>
      vp_header_slice pkt = hs \<and> vp_header pkt = h \<and> tx_data mem max_data_size head rest (ph_len h) (vp_data_slice pkt))"
      unfolding tx tx_data_def by (cases pkt) (auto simp: Let_def)
  next
    case False
    then have nz: "ph_len h \<noteq> 0" and le: "ph_len h \<le> max_data_size" by auto
    note dat = tx_data_slice_eq [OF assms(1) nz le assms(4) vsock_next_eq(2) [OF assms(2)]]
    have "tx_data mem max_data_size head rest (ph_len h) None \<longleftrightarrow> False" using nz by (simp add: tx_data_def)
    then show "?tx \<noteq> Panic \<and> (?tx = Ok pkt \<longleftrightarrow>
      vp_header_slice pkt = hs \<and> vp_header pkt = h \<and> tx_data mem max_data_size head rest (ph_len h) (vp_data_slice pkt))"
      unfolding tx using nz le dat
      by (cases "vp_data_slice pkt"; cases pkt) (auto simp: rbind_eq_Ok_iff rbind_eq_Panic_iff Let_def)
  qed
qed

section \<open>Properties\<close>



subsection \<open>An example\<close>

text \<open>One descriptor, followed by the header of a packet with four bytes of data.\<close>

definition vsock_desc :: "u16 \<Rightarrow> descriptor" where
  "vsock_desc flags = \<lparr>d_addr = 0x1010, d_len = 48, d_flags = flags, d_next = 0\<rparr>"

definition vsock_bytes :: "u16 \<Rightarrow> u8 list" where
  "vsock_bytes flags = descriptor_bytes (vsock_desc flags) @ packet_header_bytes (default_header\<lparr>ph_len := 4\<rparr>) @ [9, 8, 7, 6]"

definition vsock_mem :: "u16 \<Rightarrow> gmem" where
  "vsock_mem flags = [(sample_region 0x1000 0x7000 64)\<lparr>rg_bytes := vsock_bytes flags\<rparr>]"

lemma length_vsock_bytes [simp]: "length (vsock_bytes flags) = 64"
  by (simp add: vsock_bytes_def)

lemma vsock_mem_ok: "mem_ok (vsock_mem flags)"
proof -
  have "region_ok (sample_region 0x1000 0x7000 64)" by (simp add: sample_region_ok USIZE_MAX_def)
  moreover have "vsock_bytes flags \<noteq> []" by (simp flip: length_0_conv)
  ultimately show ?thesis by (simp add: vsock_mem_def mem_ok_def region_ok_def region_end_def sample_region_def)
qed

lemma vsock_byte: "byte_at (vsock_mem flags) x = (if 0x1000 \<le> x \<and> x < 0x1040 then Some (vsock_bytes flags ! (x - 0x1000)) else None)"
  by (auto simp: byte_at_def region_at_def vsock_mem_def sample_region_def region_addrs_def region_end_def)

lemma vsock_bytes_at:
  assumes "k + n \<le> 64"
  shows "bytes_at (vsock_mem flags) (0x1000 + k) n = take n (drop k (vsock_bytes flags))"
    "unat a = 0x1000 + k \<Longrightarrow> mapped (vsock_mem flags) a n"
  using assms by (auto intro!: nth_equalityI simp: bytes_at_def mapped_def vsock_byte add.commute add.left_commute)

lemma vsock_chain:
  assumes "and flags VRING_DESC_F_INDIRECT = 0" "and flags VRING_DESC_F_NEXT = 0"
  shows "chain_descs (vsock_mem flags) (chain_new 0x1000 1 0) = [vsock_desc flags]"
proof -
  have "bytes_at (vsock_mem flags) 0x1000 16 = descriptor_bytes (vsock_desc flags)" "mapped (vsock_mem flags) 0x1000 16"
    using vsock_bytes_at(1) [of 0 16] vsock_bytes_at(2) [of 0 16 "0x1000"] by (simp_all add: vsock_bytes_def)
  then have d: "desc_at (vsock_mem flags) 0x1000 0 = Some (vsock_desc flags)"
    by (simp add: desc_at_def checked_add_def gm_read_obj_eq [OF vsock_mem_ok] descriptor_of_descriptor_bytes)
  then show ?thesis
    using chain_descs_eq [of "chain_new 0x1000 1 0" "vsock_mem flags"] assms
    by (simp add: chain_new_def with_ttl_def chain_walk_def refers_to_indirect_table_def has_next_def vsock_desc_def)
qed

lemma vsock_pieces:
  "piece (vsock_mem flags) 0x1010 PKT_HEADER_SIZE \<lparr>vs_region = 0, vs_start = 16, vs_size = 44\<rparr>"
  "piece (vsock_mem flags) 0x103C 4 \<lparr>vs_region = 0, vs_start = 60, vs_size = 4\<rparr>"
  by (simp_all add: piece_def slice_in_def slice_addr_def vsock_mem_def sample_region_def PKT_HEADER_SIZE_def)

lemma vsock_header_read:
  "packet_header_of_bytes (bytes_at (vsock_mem flags) 0x1010 PKT_HEADER_SIZE) = default_header\<lparr>ph_len := 4\<rparr>"
proof -
  have "bytes_at (vsock_mem flags) 0x1010 44 = packet_header_bytes (default_header\<lparr>ph_len := 4\<rparr>)"
    using vsock_bytes_at(1) [of 16 44 flags] by (simp add: vsock_bytes_def)
  then show ?thesis by (simp add: PKT_HEADER_SIZE_def header_of_header_bytes)
qed


lemma of_le_bytes_zero: "of_le_bytes (replicate n 0) = (0 :: 'a::len word)"
  by (induction n) simp_all


text \<open>
  The limit on the payload is not checked when a receive buffer comes in a single descriptor: a chain whose
  descriptor leaves four bytes behind the header is accepted with a limit of one byte.
\<close>

lemma rx_limit_unchecked:
  "\<exists>pkt. fst (from_rx_virtq_chain (vsock_mem 2) (vsock_mem 2) 1 (chain_new 0x1000 1 0)) = Ok pkt \<and>
     vp_data_slice pkt = Some \<lparr>vs_region = 0, vs_start = 60, vs_size = 4\<rparr>"
proof -
  let ?pkt = "\<lparr>vp_header_slice = \<lparr>vs_region = 0, vs_start = 16, vs_size = 44\<rparr>, vp_header = default_header,
    vp_data_slice = Some \<lparr>vs_region = 0, vs_start = 60, vs_size = 4\<rparr>\<rparr>"
  have "chain_descs (vsock_mem 2) (chain_new 0x1000 1 0) = [vsock_desc 2]"
    by (rule vsock_chain) (simp_all add: VRING_DESC_F_INDIRECT_def VRING_DESC_F_NEXT_def)
  moreover have "rx_data (vsock_mem 2) 1 (vsock_desc 2) [] (vp_data_slice ?pkt)"
    using vsock_pieces(2) [of 2]
    by (auto simp: rx_data_def buffer_at_def vsock_desc_def has_next_def VRING_DESC_F_NEXT_def PKT_HEADER_SIZE_def intro!: exI [of _ "0x103C"])
  ultimately have "fst (from_rx_virtq_chain (vsock_mem 2) (vsock_mem 2) 1 (chain_new 0x1000 1 0)) = Ok ?pkt"
    using vsock_pieces(1) [of 2]
    by (subst vsock_rx_exact [OF vsock_mem_ok, THEN conjunct2])
      (simp add: vsock_desc_def is_write_only_def VRING_DESC_F_WRITE_def PKT_HEADER_SIZE_def)
  then show ?thesis by auto
qed

end
