(* ===== verification/DeviceBus.thy ===== *)
theory DeviceBus
  imports Prelude
begin

text \<open>
  Device buses: \<^verbatim>\<open>vm-device/src\<close>.  A bus maps disjoint address ranges to devices; \<open>IoManager\<close> has a port
  bus with 16-bit addresses and a memory bus with 64-bit addresses, so the bus is generic in the width.
  The map from ranges to devices is an association list ordered by base address, as the \<^verbatim>\<open>BTreeMap\<close>
  of the code, whose keys compare by base address alone.  Devices are the users of the crate: what they
  do when they are accessed is an argument of the operations that dispatch accesses to them.
\<close>

section \<open>Ranges (bus/range.rs)\<close>

datatype bus_error = DeviceNotFound | DeviceOverlap | InvalidAccessLength nat | InvalidRange

record 'v bus_range =
  br_base :: 'v
  br_size :: 'v

definition bus_range_new :: "'a::len word \<Rightarrow> 'a word \<Rightarrow> ('a word bus_range, bus_error) result" where
  "bus_range_new base sz =
     (if sz = 0 then Err InvalidRange
      else rbind (ok_or (checked_add base (sz - 1)) InvalidRange) (\<lambda>_. Ok \<lparr>br_base = base, br_size = sz\<rparr>))"

definition bus_range_unit :: "'a::len word \<Rightarrow> 'a word bus_range" where
  "bus_range_unit base = \<lparr>br_base = base, br_size = 1\<rparr>"

definition br_last :: "'a::len word bus_range \<Rightarrow> 'a word" where
  "br_last r = br_base r + (br_size r - 1)"

definition br_overlaps :: "'a::len word bus_range \<Rightarrow> 'a word bus_range \<Rightarrow> bool" where
  "br_overlaps r s \<longleftrightarrow> \<not> (br_last s < br_base r \<or> br_last r < br_base s)"

text \<open>The order and the equality of ranges as keys.\<close>

definition br_le :: "'a::len word bus_range \<Rightarrow> 'a word bus_range \<Rightarrow> bool" where
  "br_le r s \<longleftrightarrow> br_base r \<le> br_base s"

definition br_eq :: "'a::len word bus_range \<Rightarrow> 'a word bus_range \<Rightarrow> bool" where
  "br_eq r s \<longleftrightarrow> br_base r = br_base s"

section \<open>The bus (bus/mod.rs)\<close>

type_synonym ('a, 'd) bus = "('a word bus_range \<times> 'd) list"

definition bus_new :: "('a, 'd) bus" where
  "bus_new = []"

text \<open>The last entry whose key is at most the address, if its range reaches the address.\<close>

definition bus_device :: "'a::len word \<Rightarrow> ('a, 'd) bus \<Rightarrow> ('a word bus_range \<times> 'd) option" where
  "bus_device addr b =
     (let below = takeWhile (\<lambda>p. br_le (fst p) (bus_range_unit addr)) b in
      if below = [] then None
      else let p = last below in if addr \<le> br_last (fst p) then Some p else None)"

fun bus_insert :: "'a::len word bus_range \<Rightarrow> 'd \<Rightarrow> ('a, 'd) bus \<Rightarrow> ('a, 'd) bus" where
  "bus_insert r d [] = [(r, d)]"
| "bus_insert r d (p # b) =
     (if br_eq r (fst p) then (fst p, d) # b
      else if br_le r (fst p) then (r, d) # p # b
      else p # bus_insert r d b)"

definition bus_register :: "'a::len word bus_range \<Rightarrow> 'd \<Rightarrow> (('a, 'd) bus, unit, bus_error) act" where
  "bus_register r d b =
     (if list_ex (\<lambda>p. br_overlaps r (fst p)) b then (Err DeviceOverlap, b) else (Ok (), bus_insert r d b))"

definition bus_deregister :: "'a::len word \<Rightarrow> ('a, 'd) bus \<Rightarrow> ('a word bus_range \<times> 'd) option \<times> ('a, 'd) bus" where
  "bus_deregister addr b =
     (case bus_device addr b of
        None \<Rightarrow> (None, b)
      | Some (r, _) \<Rightarrow>
          (case find (\<lambda>p. br_eq (fst p) r) b of
             None \<Rightarrow> (None, b)
           | Some (_, d) \<Rightarrow> (Some (r, d), filter (\<lambda>p. \<not> br_eq (fst p) r) b)))"

definition check_access :: "'a::len word \<Rightarrow> nat \<Rightarrow> ('a, 'd) bus \<Rightarrow> ('a word bus_range \<times> 'd, bus_error) result" where
  "check_access addr len b =
     rbind (if len < 2 ^ LENGTH('a) then Ok (of_nat len) else Err (InvalidAccessLength len)) (\<lambda>n.
     rbind (map_err (\<lambda>_. InvalidRange) (bus_range_new addr n)) (\<lambda>access_range.
       ok_or (Option.bind (bus_device addr b) (\<lambda>p. if br_last access_range \<le> br_last (fst p) then Some p else None))
         DeviceNotFound))"

section \<open>Resources (resources.rs)\<close>

text \<open>What a device asks for; an address constraint has an optional window, an alignment and a size.\<close>

datatype resource_constraint =
  PioAddressConstraint "(u16 \<times> u16) option" u16 u16
| MmioAddressConstraint "(u64 \<times> u64) option" u64 u64
| LegacyIrqConstraint "u32 option"
| PciMsiIrqConstraint u32
| PciMsixIrqConstraint u32
| GenericIrqConstraint u32
| KvmMemSlotConstraint "u32 option" u32

definition new_pio :: "u16 \<Rightarrow> resource_constraint" where
  "new_pio sz = PioAddressConstraint None 1 sz"

definition pio_with_constraints :: "u16 \<Rightarrow> (u16 \<times> u16) option \<Rightarrow> u16 \<Rightarrow> resource_constraint" where
  "pio_with_constraints sz window align = PioAddressConstraint window align sz"

definition new_mmio :: "u64 \<Rightarrow> resource_constraint" where
  "new_mmio sz = MmioAddressConstraint None 0x1000 sz"

definition mmio_with_constraints :: "u64 \<Rightarrow> (u64 \<times> u64) option \<Rightarrow> u64 \<Rightarrow> resource_constraint" where
  "mmio_with_constraints sz window align = MmioAddressConstraint window align sz"

definition new_legacy_irq :: "u32 option \<Rightarrow> resource_constraint" where
  "new_legacy_irq irq = LegacyIrqConstraint irq"

definition new_kvm_mem_slot :: "u32 \<Rightarrow> u32 option \<Rightarrow> resource_constraint" where
  "new_kvm_mem_slot sz slot = KvmMemSlotConstraint slot sz"

text \<open>What a device was given, in the order it was given.\<close>

datatype msi_irq_type = PciMsi | PciMsix | GenericMsi

datatype resource =
  PioAddressRange u16 u16
| MmioAddressRange u64 u64
| LegacyIrq u32
| MsiIrq msi_irq_type u32 u32
| MacAddresss string
| KvmMemSlot u32

definition device_resources_append :: "resource \<Rightarrow> resource list \<Rightarrow> resource list" where
  "device_resources_append entry rs = rs @ [entry]"

fun get_pio_address_ranges :: "resource list \<Rightarrow> (u16 \<times> u16) list" where
  "get_pio_address_ranges [] = []"
| "get_pio_address_ranges (PioAddressRange base sz # rs) = (base, sz) # get_pio_address_ranges rs"
| "get_pio_address_ranges (_ # rs) = get_pio_address_ranges rs"

fun get_mmio_address_ranges :: "resource list \<Rightarrow> (u64 \<times> u64) list" where
  "get_mmio_address_ranges [] = []"
| "get_mmio_address_ranges (MmioAddressRange base sz # rs) = (base, sz) # get_mmio_address_ranges rs"
| "get_mmio_address_ranges (_ # rs) = get_mmio_address_ranges rs"

fun get_legacy_irq :: "resource list \<Rightarrow> u32 option" where
  "get_legacy_irq [] = None"
| "get_legacy_irq (LegacyIrq base # rs) = Some base"
| "get_legacy_irq (_ # rs) = get_legacy_irq rs"

fun get_msi_irqs :: "msi_irq_type \<Rightarrow> resource list \<Rightarrow> (u32 \<times> u32) option" where
  "get_msi_irqs ty [] = None"
| "get_msi_irqs ty (MsiIrq msi_type base sz # rs) = (if ty = msi_type then Some (base, sz) else get_msi_irqs ty rs)"
| "get_msi_irqs ty (_ # rs) = get_msi_irqs ty rs"

definition get_pci_msi_irqs :: "resource list \<Rightarrow> (u32 \<times> u32) option" where
  "get_pci_msi_irqs = get_msi_irqs PciMsi"

definition get_pci_msix_irqs :: "resource list \<Rightarrow> (u32 \<times> u32) option" where
  "get_pci_msix_irqs = get_msi_irqs PciMsix"

definition get_generic_msi_irqs :: "resource list \<Rightarrow> (u32 \<times> u32) option" where
  "get_generic_msi_irqs = get_msi_irqs GenericMsi"

fun get_kvm_mem_slots :: "resource list \<Rightarrow> u32 list" where
  "get_kvm_mem_slots [] = []"
| "get_kvm_mem_slots (KvmMemSlot index # rs) = index # get_kvm_mem_slots rs"
| "get_kvm_mem_slots (_ # rs) = get_kvm_mem_slots rs"

fun get_mac_address :: "resource list \<Rightarrow> string option" where
  "get_mac_address [] = None"
| "get_mac_address (MacAddresss addr # rs) = Some addr"
| "get_mac_address (_ # rs) = get_mac_address rs"

section \<open>The manager (device_manager.rs)\<close>

record ('p, 'm) io_manager =
  pio_bus :: "(16, 'p) bus"
  mmio_bus :: "(64, 'm) bus"

definition io_manager_new :: "('p, 'm) io_manager" where
  "io_manager_new = \<lparr>pio_bus = bus_new, mmio_bus = bus_new\<rparr>"

text \<open>
  Accesses.  The device functions take the base of the range, the offset into it and the data, and act
  on a state \<open>'s\<close> outside the manager; a read gives the new contents of the buffer.
\<close>

type_synonym ('d, 'a, 's) device_read = "'d \<Rightarrow> 'a word \<Rightarrow> 'a word \<Rightarrow> u8 list \<Rightarrow> 's \<Rightarrow> u8 list \<times> 's"
type_synonym ('d, 'a, 's) device_write = "'d \<Rightarrow> 'a word \<Rightarrow> 'a word \<Rightarrow> u8 list \<Rightarrow> 's \<Rightarrow> 's"

definition bus_read :: "('d, 'a, 's) device_read \<Rightarrow> ('a::len, 'd) bus \<Rightarrow> 'a word \<Rightarrow> u8 list
    \<Rightarrow> ('s, u8 list, bus_error) act" where
  "bus_read dev b addr dat s =
     (case check_access addr (length dat) b of
        Ok (r, d) \<Rightarrow> (let (dat', s') = dev d (br_base r) (addr - br_base r) dat s in (Ok dat', s'))
      | Err e \<Rightarrow> (Err e, s)
      | Panic \<Rightarrow> (Panic, s))"

definition bus_write :: "('d, 'a, 's) device_write \<Rightarrow> ('a::len, 'd) bus \<Rightarrow> 'a word \<Rightarrow> u8 list
    \<Rightarrow> ('s, unit, bus_error) act" where
  "bus_write dev b addr dat s =
     (case check_access addr (length dat) b of
        Ok (r, d) \<Rightarrow> (Ok (), dev d (br_base r) (addr - br_base r) dat s)
      | Err e \<Rightarrow> (Err e, s)
      | Panic \<Rightarrow> (Panic, s))"

definition pio_read :: "('p, 16, 's) device_read \<Rightarrow> ('p, 'm) io_manager \<Rightarrow> u16 \<Rightarrow> u8 list \<Rightarrow> ('s, u8 list, bus_error) act" where
  "pio_read dev m = bus_read dev (pio_bus m)"

definition pio_write :: "('p, 16, 's) device_write \<Rightarrow> ('p, 'm) io_manager \<Rightarrow> u16 \<Rightarrow> u8 list \<Rightarrow> ('s, unit, bus_error) act" where
  "pio_write dev m = bus_write dev (pio_bus m)"

definition mmio_read :: "('m, 64, 's) device_read \<Rightarrow> ('p, 'm) io_manager \<Rightarrow> u64 \<Rightarrow> u8 list \<Rightarrow> ('s, u8 list, bus_error) act" where
  "mmio_read dev m = bus_read dev (mmio_bus m)"

definition mmio_write :: "('m, 64, 's) device_write \<Rightarrow> ('p, 'm) io_manager \<Rightarrow> u64 \<Rightarrow> u8 list \<Rightarrow> ('s, unit, bus_error) act" where
  "mmio_write dev m = bus_write dev (mmio_bus m)"

definition register_pio :: "16 word bus_range \<Rightarrow> 'p \<Rightarrow> (('p, 'm) io_manager, unit, bus_error) act" where
  "register_pio r d m = (let (res, b) = bus_register r d (pio_bus m) in (res, m\<lparr>pio_bus := b\<rparr>))"

definition register_mmio :: "64 word bus_range \<Rightarrow> 'm \<Rightarrow> (('p, 'm) io_manager, unit, bus_error) act" where
  "register_mmio r d m = (let (res, b) = bus_register r d (mmio_bus m) in (res, m\<lparr>mmio_bus := b\<rparr>))"

definition deregister_pio :: "u16 \<Rightarrow> ('p, 'm) io_manager \<Rightarrow> (16 word bus_range \<times> 'p) option \<times> ('p, 'm) io_manager" where
  "deregister_pio a m = (let (res, b) = bus_deregister a (pio_bus m) in (res, m\<lparr>pio_bus := b\<rparr>))"

definition deregister_mmio :: "u64 \<Rightarrow> ('p, 'm) io_manager \<Rightarrow> (64 word bus_range \<times> 'm) option \<times> ('p, 'm) io_manager" where
  "deregister_mmio a m = (let (res, b) = bus_deregister a (mmio_bus m) in (res, m\<lparr>mmio_bus := b\<rparr>))"

text \<open>Registration stops at the first failure; \<open>BusRange::new(..).unwrap()\<close> panics on a bad range.\<close>

fun register_mmio_resources :: "'m \<Rightarrow> resource list \<Rightarrow> (('p, 'm) io_manager, unit, bus_error) act" where
  "register_mmio_resources d [] m = (Ok (), m)"
| "register_mmio_resources d (MmioAddressRange base sz # rs) m =
     (case bus_range_new base sz of
        Ok r \<Rightarrow> abind (register_mmio r d) (\<lambda>_. register_mmio_resources d rs) m
      | _ \<Rightarrow> (Panic, m))"
| "register_mmio_resources d (_ # rs) m = register_mmio_resources d rs m"

fun register_pio_resources :: "'p \<Rightarrow> resource list \<Rightarrow> (('p, 'm) io_manager, unit, bus_error) act" where
  "register_pio_resources d [] m = (Ok (), m)"
| "register_pio_resources d (PioAddressRange base sz # rs) m =
     (case bus_range_new base sz of
        Ok r \<Rightarrow> abind (register_pio r d) (\<lambda>_. register_pio_resources d rs) m
      | _ \<Rightarrow> (Panic, m))"
| "register_pio_resources d (_ # rs) m = register_pio_resources d rs m"

definition register_resources :: "'d \<Rightarrow> resource list \<Rightarrow> (('d, 'd) io_manager, unit, bus_error) act" where
  "register_resources d rs = abind (register_mmio_resources d rs) (\<lambda>_. register_pio_resources d rs)"

fun deregister_resources :: "resource list \<Rightarrow> ('p, 'm) io_manager \<Rightarrow> nat \<times> ('p, 'm) io_manager" where
  "deregister_resources [] m = (0, m)"
| "deregister_resources (PioAddressRange base sz # rs) m =
     (let (res, m) = deregister_pio base m; (n, m) = deregister_resources rs m in
      ((if res \<noteq> None then Suc n else n), m))"
| "deregister_resources (MmioAddressRange base sz # rs) m =
     (let (res, m) = deregister_mmio base m; (n, m) = deregister_resources rs m in
      ((if res \<noteq> None then Suc n else n), m))"
| "deregister_resources (_ # rs) m = deregister_resources rs m"

section \<open>Well-formed buses\<close>

definition br_ok :: "'a::len word bus_range \<Rightarrow> bool" where
  "br_ok r \<longleftrightarrow> br_size r \<noteq> 0 \<and> unat (br_base r) + unat (br_size r - 1) < 2 ^ LENGTH('a)"

definition br_set :: "'a::len word bus_range \<Rightarrow> 'a word set" where
  "br_set r = {br_base r..br_last r}"

definition bus_ok :: "('a::len, 'd) bus \<Rightarrow> bool" where
  "bus_ok b \<longleftrightarrow> list_all (\<lambda>p. br_ok (fst p)) b \<and> sorted_wrt (\<lambda>p q. br_last (fst p) < br_base (fst q)) b"

lemma bus_range_new_eq:
  "bus_range_new base sz = (if br_ok \<lparr>br_base = base, br_size = sz\<rparr> then Ok \<lparr>br_base = base, br_size = sz\<rparr> else Err InvalidRange)"
  by (auto simp: bus_range_new_def br_ok_def checked_add_def)

lemma br_last_unat: "br_ok r \<Longrightarrow> unat (br_last r) = unat (br_base r) + unat (br_size r) - 1"
proof -
  assume ok: "br_ok r"
  then have "unat (br_last r) = unat (br_base r) + unat (br_size r - 1)"
    by (simp add: br_ok_def br_last_def unat_add_no_overflow)
  moreover have "br_size r \<noteq> 0" "0 < unat (br_size r)" using ok by (auto simp: br_ok_def unat_gt_0)
  ultimately show ?thesis by (simp add: unat_minus_one)
qed

lemma br_le_last: "br_ok r \<Longrightarrow> br_base r \<le> br_last r"
  using br_last_unat [of r] unat_gt_0 [of "br_size r"] by (simp add: br_ok_def word_le_nat_alt)

lemma br_overlaps_iff:
  assumes "br_ok r" "br_ok s"
  shows "br_overlaps r s \<longleftrightarrow> br_set r \<inter> br_set s \<noteq> {}"
proof -
  have "br_set r \<inter> br_set s = {max (br_base r) (br_base s)..min (br_last r) (br_last s)}"
    by (simp add: br_set_def Int_atLeastAtMost)
  then show ?thesis using br_le_last [OF assms(1)] br_le_last [OF assms(2)] by (auto simp: br_overlaps_def)
qed

lemma bus_okD:
  "bus_ok (p # b) \<Longrightarrow> br_ok (fst p) \<and> bus_ok b" "bus_ok (p # b) \<Longrightarrow> q \<in> set b \<Longrightarrow> br_last (fst p) < br_base (fst q)"
  by (simp_all add: bus_ok_def)

lemma bus_device_Cons:
  "bus_device a (p # b) =
     (if \<not> br_base (fst p) \<le> a then None
      else if b \<noteq> [] \<and> br_base (fst (hd b)) \<le> a then bus_device a b
      else if a \<le> br_last (fst p) then Some p else None)"
  by (cases b) (auto simp: bus_device_def br_le_def bus_range_unit_def)

text \<open>The ordered search agrees with a search of all ranges.\<close>

lemma bus_device_find: "bus_ok b \<Longrightarrow> bus_device a b = find (\<lambda>p. a \<in> br_set (fst p)) b"
proof (induction b)
  case (Cons p b)
  note ok = bus_okD(1) [OF Cons.prems] and after = bus_okD(2) [OF Cons.prems]
  have none: "find (\<lambda>p. a \<in> br_set (fst p)) b = None" if "\<not> (b \<noteq> [] \<and> br_base (fst (hd b)) \<le> a)"
    using that ok Cons.IH by (cases b) (auto simp: bus_device_Cons)
  have out: "a \<notin> br_set (fst p)" if "b \<noteq> []" "br_base (fst (hd b)) \<le> a"
    using after [of "hd b"] that by (auto simp: br_set_def)
  show ?case
  proof (cases "br_base (fst p) \<le> a")
    case True
    then show ?thesis using none out Cons.IH ok by (auto simp: bus_device_Cons br_set_def)
  next
    case False
    have "\<not> (b \<noteq> [] \<and> br_base (fst (hd b)) \<le> a)"
    proof
      assume b: "b \<noteq> [] \<and> br_base (fst (hd b)) \<le> a"
      then have "br_last (fst p) < br_base (fst (hd b))" using after [of "hd b"] by simp
      then show False using br_le_last [of "fst p"] ok b False by auto
    qed
    then show ?thesis using False none by (auto simp: bus_device_Cons br_set_def)
  qed
qed (simp add: bus_device_def)

lemma bus_apart:
  assumes "bus_ok b" "p \<in> set b" "q \<in> set b" "a \<in> br_set (fst p)" "a \<in> br_set (fst q)"
  shows "p = q"
  using assms
proof (induction b)
  case (Cons r b)
  have "a \<notin> br_set (fst r)" if "s \<in> set b" "a \<in> br_set (fst s)" for s
    using bus_okD(2) [OF Cons.prems(1) that(1)] that(2) by (auto simp: br_set_def)
  then have "p = r \<longleftrightarrow> q = r" using Cons.prems by (metis set_ConsD)
  then show ?case using Cons.IH Cons.prems bus_okD(1) [OF Cons.prems(1)] by (metis set_ConsD)
qed simp

lemma bus_device_iff:
  assumes "bus_ok b"
  shows "bus_device a b = Some p \<longleftrightarrow> p \<in> set b \<and> a \<in> br_set (fst p)"
    and "bus_device a b = None \<longleftrightarrow> (\<forall>p \<in> set b. a \<notin> br_set (fst p))"
proof -
  note f = bus_device_find [OF assms]
  show "bus_device a b = None \<longleftrightarrow> (\<forall>p \<in> set b. a \<notin> br_set (fst p))" by (auto simp: f find_None_iff)
  have "find (\<lambda>p. a \<in> br_set (fst p)) b = Some p \<Longrightarrow> p \<in> set b \<and> a \<in> br_set (fst p)" for p
    by (auto simp: find_Some_iff)
  moreover have "\<exists>q. find (\<lambda>p. a \<in> br_set (fst p)) b = Some q" if "p \<in> set b" "a \<in> br_set (fst p)"
    using that find_None_iff [of _ b] by (metis (mono_tags, lifting) not_None_eq)
  ultimately show "bus_device a b = Some p \<longleftrightarrow> p \<in> set b \<and> a \<in> br_set (fst p)"
    unfolding f using bus_apart [OF assms] by metis
qed

lemma bus_device_ext:
  assumes "bus_ok b" "bus_ok b'" "\<And>p. p \<in> set b' \<longleftrightarrow> P p" "\<And>a p. Q a = Some p \<longleftrightarrow> P p \<and> a \<in> br_set (fst p)"
  shows "(\<lambda>a. bus_device a b') = Q"
proof
  fix a
  show "bus_device a b' = Q a"
    using bus_device_iff(1) [OF assms(2), of a] assms(3,4) by (metis not_Some_eq)
qed

section \<open>Registration\<close>

lemma set_bus_insert:
  "\<forall>p \<in> set b. br_base (fst p) \<noteq> br_base r \<Longrightarrow> set (bus_insert r d b) = insert (r, d) (set b)"
  by (induction b) (auto simp: br_eq_def)

lemma bus_insert_ok:
  assumes "bus_ok b" "br_ok r" "\<forall>p \<in> set b. br_set r \<inter> br_set (fst p) = {}"
  shows "bus_ok (bus_insert r d b)" "set (bus_insert r d b) = insert (r, d) (set b)"
proof -
  have sep: "br_last r < br_base (fst p) \<or> br_last (fst p) < br_base r" if "p \<in> set b" for p
  proof -
    have "br_ok (fst p)" using assms(1) that by (auto simp: bus_ok_def list_all_iff)
    then have "\<not> br_overlaps r (fst p)" using br_overlaps_iff [OF assms(2)] assms(3) that by auto
    then show ?thesis by (auto simp: br_overlaps_def)
  qed
  have ne: "br_base (fst p) \<noteq> br_base r" if "p \<in> set b" for p
  proof -
    have "br_ok (fst p)" using assms(1) that by (auto simp: bus_ok_def list_all_iff)
    then show ?thesis using sep [OF that] br_le_last [OF assms(2)] br_le_last [of "fst p"] by auto
  qed
  show set: "set (bus_insert r d b) = insert (r, d) (set b)" using ne by (intro set_bus_insert) auto
  show "bus_ok (bus_insert r d b)" using assms(1) sep ne
  proof (induction b)
    case Nil
    then show ?case using assms(2) by (simp add: bus_ok_def)
  next
    case (Cons p b)
    note ok = bus_okD(1) [OF Cons.prems(1)]
    show ?case
    proof (cases "br_base r \<le> br_base (fst p)")
      case True
      have "br_last r < br_base (fst p)" using Cons.prems(2) [of p] True ok br_le_last [of "fst p"] by auto
      moreover have "br_base (fst p) \<le> br_base (fst q)" if "q \<in> set b" for q
        using bus_okD(2) [OF Cons.prems(1) that] br_le_last [of "fst p"] ok by auto
      ultimately have "br_last r < br_base (fst q)" if "q \<in> set (p # b)" for q
        using that by (metis less_le_trans set_ConsD)
      then show ?thesis
        using True Cons.prems(1,3) assms(2) by (auto simp: br_eq_def br_le_def bus_ok_def)
    next
      case False
      have lt: "br_last (fst p) < br_base r" using Cons.prems(2) [of p] False br_le_last [OF assms(2)] by auto
      have ih: "bus_ok (bus_insert r d b)" using Cons.IH ok Cons.prems(2,3) by auto
      have "set (bus_insert r d b) = insert (r, d) (set b)" using Cons.prems(3) by (intro set_bus_insert) auto
      then show ?thesis
        using False ih lt ok bus_okD(2) [OF Cons.prems(1)]
        by (auto simp: br_eq_def br_le_def bus_ok_def)
    qed
  qed
qed

lemma find_unique: "x \<in> set xs \<Longrightarrow> P x \<Longrightarrow> \<forall>y \<in> set xs. y \<noteq> x \<longrightarrow> \<not> P y \<Longrightarrow> find P xs = Some x"
  by (induction xs) auto

lemma register_free:
  assumes "bus_ok b" "br_ok r" "\<forall>a \<in> br_set r. bus_device a b = None"
  shows "\<exists>b'. bus_register r d b = (Ok (), b') \<and> bus_ok b' \<and>
    (\<lambda>a. bus_device a b') = (\<lambda>a. if a \<in> br_set r then Some (r, d) else bus_device a b)"
proof -
  have dis: "\<forall>p \<in> set b. br_set r \<inter> br_set (fst p) = {}"
    using assms(3) bus_device_iff(2) [OF assms(1)] by auto
  note ins = bus_insert_ok [OF assms(1,2) dis, of d]
  have no: "\<not> list_ex (\<lambda>p. br_overlaps r (fst p)) b"
    using dis br_overlaps_iff [OF assms(2)] assms(1) by (auto simp: list_ex_iff bus_ok_def list_all_iff)
  have "bus_device a (bus_insert r d b) = (if a \<in> br_set r then Some (r, d) else bus_device a b)" for a
  proof (cases "a \<in> br_set r")
    case True
    then show ?thesis using bus_device_iff(1) [OF ins(1), of a "(r, d)"] ins(2) by simp
  next
    case False
    then have "bus_device a (bus_insert r d b) = Some p \<longleftrightarrow> bus_device a b = Some p" for p
      unfolding bus_device_iff(1) [OF ins(1)] bus_device_iff(1) [OF assms(1)] ins(2) by auto
    then show ?thesis using False by (metis not_Some_eq)
  qed
  then show ?thesis using no ins(1) by (simp add: bus_register_def)
qed

lemma register_taken:
  assumes "bus_ok b" "br_ok r" "a \<in> br_set r" "bus_device a b \<noteq> None"
  shows "bus_register r d b = (Err DeviceOverlap, b)"
proof -
  obtain p where p: "p \<in> set b" "a \<in> br_set (fst p)"
    using assms(4) bus_device_iff(2) [OF assms(1), of a] by auto
  then have "br_overlaps r (fst p)"
    using br_overlaps_iff [OF assms(2), of "fst p"] assms(1,3) by (auto simp: bus_ok_def list_all_iff)
  then show ?thesis using p(1) by (auto simp: bus_register_def list_ex_iff)
qed

lemma deregister_some:
  assumes "bus_ok b" "bus_device a b = Some (r, d)"
  shows "a \<in> br_set r" "\<exists>b'. bus_deregister a b = (Some (r, d), b') \<and> bus_ok b' \<and>
    (\<lambda>x. bus_device x b') = (\<lambda>x. if x \<in> br_set r then None else bus_device x b)"
proof -
  have p: "(r, d) \<in> set b" "a \<in> br_set r" using bus_device_iff(1) [OF assms(1)] assms(2) by auto
  show "a \<in> br_set r" by (rule p)
  have base: "br_base (fst q) \<in> br_set (fst q)" if "q \<in> set b" for q
    using br_le_last [of "fst q"] assms(1) that by (auto simp: br_set_def bus_ok_def list_all_iff)
  have key: "br_eq (fst q) r \<longleftrightarrow> q = (r, d)" if "q \<in> set b" for q
    using bus_apart [OF assms(1) that p(1), of "br_base r"] base [OF that] base [OF p(1)] by (auto simp: br_eq_def)
  have find: "find (\<lambda>q. br_eq (fst q) r) b = Some (r, d)"
  proof (cases "find (\<lambda>q. br_eq (fst q) r) b")
    case None
    then show ?thesis using p(1) key by (auto simp: find_None_iff)
  next
    case (Some q)
    then have "q \<in> set b" "br_eq (fst q) r" by (auto simp: find_Some_iff)
    then show ?thesis using Some key by simp
  qed
  let ?b = "filter (\<lambda>q. \<not> br_eq (fst q) r) b"
  have ok: "bus_ok ?b" using assms(1) by (auto simp: bus_ok_def list_all_iff sorted_wrt_filter)
  have mem: "q \<in> set ?b \<longleftrightarrow> q \<in> set b \<and> q \<noteq> (r, d)" for q using key [of q] by auto
  have "bus_device x ?b = (if x \<in> br_set r then None else bus_device x b)" for x
  proof (cases "x \<in> br_set r")
    case True
    then have "x \<notin> br_set (fst q)" if "q \<in> set ?b" for q
      using that bus_apart [OF assms(1) _ p(1), of q x] unfolding mem by auto
    then have "bus_device x ?b = None" using bus_device_iff(2) [OF ok, of x] by blast
    then show ?thesis using True by simp
  next
    case False
    then have "bus_device x ?b = Some q \<longleftrightarrow> bus_device x b = Some q" for q
      unfolding bus_device_iff(1) [OF ok] bus_device_iff(1) [OF assms(1)] mem by auto
    then show ?thesis using False by (metis not_Some_eq)
  qed
  then show "\<exists>b'. bus_deregister a b = (Some (r, d), b') \<and> bus_ok b' \<and>
      (\<lambda>x. bus_device x b') = (\<lambda>x. if x \<in> br_set r then None else bus_device x b)"
    using assms(2) find ok by (simp add: bus_deregister_def)
qed

section \<open>What a bus promises\<close>

text \<open>
  A device map gives every address at most one owner.  Registration takes a free range as a whole or
  fails without effect; removal frees the whole range of the owner.
\<close>

primrec reg_list :: "('r \<Rightarrow> 'd \<Rightarrow> ('s, unit, 'e) act) \<Rightarrow> 'd \<Rightarrow> 'r list \<Rightarrow> ('s, unit, 'e) act" where
  "reg_list reg d [] s = (Ok (), s)"
| "reg_list reg d (r # rs) s = abind (reg r d) (\<lambda>_. reg_list reg d rs) s"

primrec drop_list :: "('x \<Rightarrow> 's \<Rightarrow> 'o option \<times> 's) \<Rightarrow> 'x list \<Rightarrow> 's \<Rightarrow> nat \<times> 's" where
  "drop_list dr [] s = (0, s)"
| "drop_list dr (x # xs) s =
     (let (res, s) = dr x s; (n, s) = drop_list dr xs s in ((if res \<noteq> None then Suc n else n), s))"

locale device_map =
  fixes ok :: "'s \<Rightarrow> bool"
    and owner :: "'s \<Rightarrow> 'x \<Rightarrow> ('r \<times> 'd) option"
    and span :: "'r \<Rightarrow> 'x set"
    and good :: "'r \<Rightarrow> bool"
    and reg :: "'r \<Rightarrow> 'd \<Rightarrow> ('s, unit, 'e) act"
    and drop_at :: "'x \<Rightarrow> 's \<Rightarrow> ('r \<times> 'd) option \<times> 's"
  assumes reg_free: "ok s \<Longrightarrow> good r \<Longrightarrow> \<forall>x \<in> span r. owner s x = None \<Longrightarrow> \<exists>s'. reg r d s = (Ok (), s') \<and> ok s' \<and>
      owner s' = (\<lambda>x. if x \<in> span r then Some (r, d) else owner s x)"
    and reg_taken: "ok s \<Longrightarrow> good r \<Longrightarrow> x \<in> span r \<Longrightarrow> owner s x \<noteq> None \<Longrightarrow> \<exists>e. reg r d s = (Err e, s)"
    and drop_owner: "ok s \<Longrightarrow> owner s x = Some (r, d) \<Longrightarrow> x \<in> span r \<and> (\<exists>s'. drop_at x s = (Some (r, d), s') \<and> ok s' \<and>
      owner s' = (\<lambda>y. if y \<in> span r then None else owner s y))"
begin

lemma reg_list_free:
  assumes "ok s" "list_all good rs" "\<forall>r \<in> set rs. \<forall>x \<in> span r. owner s x = None"
    and "sorted_wrt (\<lambda>r q. span r \<inter> span q = {}) rs"
  shows "\<exists>s'. reg_list reg d rs s = (Ok (), s') \<and> ok s' \<and>
    (\<forall>x. owner s' x = (case find (\<lambda>r. x \<in> span r) rs of Some r \<Rightarrow> Some (r, d) | None \<Rightarrow> owner s x))"
  using assms
proof (induction rs arbitrary: s)
  case (Cons r rs)
  obtain s1 where s1: "reg r d s = (Ok (), s1)" "ok s1" "owner s1 = (\<lambda>x. if x \<in> span r then Some (r, d) else owner s x)"
    using reg_free [of s r d] Cons.prems by auto
  have "\<forall>q \<in> set rs. \<forall>x \<in> span q. owner s1 x = None"
    using Cons.prems(3,4) s1(3) by auto
  then obtain s' where s': "reg_list reg d rs s1 = (Ok (), s')" "ok s'"
    "\<forall>x. owner s' x = (case find (\<lambda>r. x \<in> span r) rs of Some r \<Rightarrow> Some (r, d) | None \<Rightarrow> owner s1 x)"
    using Cons.IH [OF s1(2)] Cons.prems by auto
  have "owner s' x = (case find (\<lambda>r. x \<in> span r) (r # rs) of Some r \<Rightarrow> Some (r, d) | None \<Rightarrow> owner s x)" for x
  proof (cases "x \<in> span r")
    case True
    then have "find (\<lambda>r. x \<in> span r) rs = None" using Cons.prems(4) by (auto simp: find_None_iff)
    then show ?thesis using s'(3) s1(3) True by simp
  qed (use s'(3) s1(3) in \<open>simp split: option.split\<close>)
  then show ?case using s1(1) s'(1,2) by (simp add: abind_def)
qed simp

lemma drop_list_owned:
  assumes "ok s" "\<forall>r \<in> set rs. pick r \<in> span r" "sorted_wrt (\<lambda>r q. span r \<inter> span q = {}) rs"
    and "\<forall>r \<in> set rs. \<forall>x \<in> span r. owner s x = Some (r, d)"
  shows "\<exists>s'. drop_list drop_at (map pick rs) s = (length rs, s') \<and> ok s' \<and>
    (\<forall>x. owner s' x = (if \<exists>r \<in> set rs. x \<in> span r then None else owner s x))"
  using assms
proof (induction rs arbitrary: s)
  case (Cons r rs)
  have "owner s (pick r) = Some (r, d)" using Cons.prems(2,4) by simp
  then obtain s1 where s1: "drop_at (pick r) s = (Some (r, d), s1)" "ok s1"
    "owner s1 = (\<lambda>y. if y \<in> span r then None else owner s y)"
    using drop_owner [OF Cons.prems(1)] by blast
  have "\<forall>q \<in> set rs. \<forall>x \<in> span q. owner s1 x = Some (q, d)" using Cons.prems(3,4) s1(3) by auto
  then obtain s' where s': "drop_list drop_at (map pick rs) s1 = (length rs, s')" "ok s'"
    "\<forall>x. owner s' x = (if \<exists>r \<in> set rs. x \<in> span r then None else owner s1 x)"
    using Cons.IH [OF s1(2)] Cons.prems(2,3) by auto
  then show ?case using s1 by auto
qed simp

text \<open>What was registered can be removed again, and then every address has its old owner.\<close>

lemma reg_drop_roundtrip:
  assumes "ok s" "list_all good rs" "\<forall>r \<in> set rs. \<forall>x \<in> span r. owner s x = None"
    and "sorted_wrt (\<lambda>r q. span r \<inter> span q = {}) rs" "\<forall>r \<in> set rs. pick r \<in> span r"
  shows "\<exists>s1 s2. reg_list reg d rs s = (Ok (), s1) \<and> ok s1 \<and> (\<forall>r \<in> set rs. \<forall>x \<in> span r. owner s1 x = Some (r, d)) \<and>
    drop_list drop_at (map pick rs) s1 = (length rs, s2) \<and> ok s2 \<and> owner s2 = owner s"
proof -
  obtain s1 where s1: "reg_list reg d rs s = (Ok (), s1)" "ok s1"
    "\<And>x. owner s1 x = (case find (\<lambda>r. x \<in> span r) rs of Some r \<Rightarrow> Some (r, d) | None \<Rightarrow> owner s x)"
    using reg_list_free [OF assms(1-4)] by blast
  have own: "\<forall>r \<in> set rs. \<forall>x \<in> span r. owner s1 x = Some (r, d)"
  proof (intro ballI)
    fix r x assume r: "r \<in> set rs" "x \<in> span r"
    have "\<forall>q \<in> set rs. q \<noteq> r \<longrightarrow> x \<notin> span q"
      using assms(4) r by (induction rs) auto
    then have "find (\<lambda>r. x \<in> span r) rs = Some r"
      using find_unique [of r rs "\<lambda>r. x \<in> span r"] r by simp
    then show "owner s1 x = Some (r, d)" using s1(3) by simp
  qed
  obtain s2 where s2: "drop_list drop_at (map pick rs) s1 = (length rs, s2)" "ok s2"
    "\<And>x. owner s2 x = (if \<exists>r \<in> set rs. x \<in> span r then None else owner s1 x)"
    using drop_list_owned [OF s1(2) assms(5,4) own] by blast
  have "owner s2 x = owner s x" for x
  proof (cases "\<exists>r \<in> set rs. x \<in> span r")
    case True
    then show ?thesis using s2(3) assms(3) by auto
  next
    case False
    then have "find (\<lambda>r. x \<in> span r) rs = None" by (auto simp: find_None_iff)
    then show ?thesis using False s2(3) s1(3) by simp
  qed
  then show ?thesis using s1(1,2) own s2(1,2) by blast
qed

end

interpretation bus: device_map bus_ok "\<lambda>b a. bus_device a b" br_set br_ok bus_register bus_deregister
proof unfold_locales
  fix b :: "('a::len, 'd) bus" and r d
  assume "bus_ok b" "br_ok r" "\<forall>x \<in> br_set r. bus_device x b = None"
  then show "\<exists>b'. bus_register r d b = (Ok (), b') \<and> bus_ok b' \<and>
      (\<lambda>a. bus_device a b') = (\<lambda>x. if x \<in> br_set r then Some (r, d) else bus_device x b)"
    by (rule register_free)
next
  fix b :: "('a::len, 'd) bus" and r d x
  assume "bus_ok b" "br_ok r" "x \<in> br_set r" "bus_device x b \<noteq> None"
  then show "\<exists>e. bus_register r d b = (Err e, b)"
    by (intro exI) (rule register_taken)
next
  fix b :: "('a::len, 'd) bus" and x r d
  assume b: "bus_ok b" "bus_device x b = Some (r, d)"
  show "x \<in> br_set r \<and> (\<exists>b'. bus_deregister x b = (Some (r, d), b') \<and> bus_ok b' \<and>
      (\<lambda>a. bus_device a b') = (\<lambda>y. if y \<in> br_set r then None else bus_device y b))"
    by (intro conjI deregister_some [OF b])
qed

definition io_ok :: "('p, 'm) io_manager \<Rightarrow> bool" where
  "io_ok m \<longleftrightarrow> bus_ok (pio_bus m) \<and> bus_ok (mmio_bus m)"

section \<open>A bus refines a map of addresses\<close>

datatype ('v, 'd) bus_op = Register 'v 'v 'd | Deregister 'v

type_synonym ('a, 'd) address_map = "'a word \<Rightarrow> ('a word bus_range \<times> 'd) option"

fun bus_step :: "('a::len word, 'd) bus_op \<Rightarrow> (('a, 'd) bus, ('a word bus_range \<times> 'd) option, bus_error) act" where
  "bus_step (Register base sz d) b =
     (case bus_range_new base sz of
        Ok r \<Rightarrow> abind (bus_register r d) (\<lambda>_ b. (Ok None, b)) b
      | Err e \<Rightarrow> (Err e, b)
      | Panic \<Rightarrow> (Panic, b))"
| "bus_step (Deregister a) b = (let (res, b) = bus_deregister a b in (Ok res, b))"

fun map_step :: "('a::len word, 'd) bus_op \<Rightarrow> (('a, 'd) address_map, ('a word bus_range \<times> 'd) option, bus_error) act" where
  "map_step (Register base sz d) f =
     (let r = \<lparr>br_base = base, br_size = sz\<rparr> in
      if \<not> br_ok r then (Err InvalidRange, f)
      else if \<exists>a \<in> br_set r. f a \<noteq> None then (Err DeviceOverlap, f)
      else (Ok None, \<lambda>a. if a \<in> br_set r then Some (r, d) else f a))"
| "map_step (Deregister a) f =
     (case f a of
        None \<Rightarrow> (Ok None, f)
      | Some (r, d) \<Rightarrow> (Ok (Some (r, d)), \<lambda>x. if x \<in> br_set r then None else f x))"

fun run_steps :: "('o \<Rightarrow> ('s, 'x, 'e) act) \<Rightarrow> 'o list \<Rightarrow> 's \<Rightarrow> ('x, 'e) result list \<times> 's" where
  "run_steps f [] s = ([], s)"
| "run_steps f (x # xs) s = (let (res, s) = f x s; (ress, s) = run_steps f xs s in (res # ress, s))"

lemma deregister_none: "bus_device a b = None \<Longrightarrow> bus_deregister a b = (None, b)"
  by (simp add: bus_deregister_def)

lemma bus_step_refines:
  assumes "bus_ok b"
  shows "\<exists>b'. bus_step x b = (fst (map_step x (\<lambda>a. bus_device a b)), b') \<and> bus_ok b' \<and>
    (\<lambda>a. bus_device a b') = snd (map_step x (\<lambda>a. bus_device a b))"
proof (cases x)
  case (Register base sz d)
  let ?r = "\<lparr>br_base = base, br_size = sz\<rparr>"
  consider "\<not> br_ok ?r" | a where "br_ok ?r" "a \<in> br_set ?r" "bus_device a b \<noteq> None"
    | "br_ok ?r" "\<forall>a \<in> br_set ?r. bus_device a b = None" by blast
  then show ?thesis
  proof cases
    case 1
    then show ?thesis using assms Register by (simp add: bus_range_new_eq)
  next
    case (2 a)
    then have taken: "\<exists>a \<in> br_set ?r. bus_device a b \<noteq> None" by blast
    then show ?thesis using assms Register 2(1) register_taken [OF assms 2, of d]
      by (simp add: bus_range_new_eq abind_def)
  next
    case 3
    then obtain b' where "bus_register ?r d b = (Ok (), b')" "bus_ok b'"
      "(\<lambda>a. bus_device a b') = (\<lambda>a. if a \<in> br_set ?r then Some (?r, d) else bus_device a b)"
      using bus.reg_free [OF assms] by blast
    then show ?thesis using Register 3 by (simp add: bus_range_new_eq abind_def Let_def)
  qed
next
  case (Deregister a)
  show ?thesis
  proof (cases "bus_device a b")
    case None
    then show ?thesis using Deregister assms by (simp add: deregister_none)
  next
    case (Some p)
    obtain r d where p: "p = (r, d)" by (cases p)
    obtain b' where "bus_deregister a b = (Some (r, d), b')" "bus_ok b'"
      "(\<lambda>x. bus_device x b') = (\<lambda>x. if x \<in> br_set r then None else bus_device x b)"
      using bus.drop_owner [OF assms] Some p by blast
    then show ?thesis using Deregister Some p by simp
  qed
qed

lemma bus_run_refines:
  assumes "bus_ok b"
  shows "\<exists>b'. run_steps bus_step ops b = (fst (run_steps map_step ops (\<lambda>a. bus_device a b)), b') \<and> bus_ok b' \<and>
    (\<lambda>a. bus_device a b') = snd (run_steps map_step ops (\<lambda>a. bus_device a b))"
  using assms
proof (induction ops arbitrary: b)
  case (Cons x ops)
  obtain b1 where b1: "bus_step x b = (fst (map_step x (\<lambda>a. bus_device a b)), b1)" "bus_ok b1"
    "(\<lambda>a. bus_device a b1) = snd (map_step x (\<lambda>a. bus_device a b))"
    using bus_step_refines [OF Cons.prems] by blast
  obtain b' where "run_steps bus_step ops b1 = (fst (run_steps map_step ops (\<lambda>a. bus_device a b1)), b')" "bus_ok b'"
    "(\<lambda>a. bus_device a b') = snd (run_steps map_step ops (\<lambda>a. bus_device a b1))"
    using Cons.IH [OF b1(2)] by blast
  then show ?case using b1(1) unfolding b1(3) by (simp add: case_prod_beta)
qed simp

lemma bus_new_ok: "bus_ok bus_new" "bus_device a bus_new = None"
  by (simp_all add: bus_ok_def bus_new_def bus_device_def)

text \<open>
C9. A bus is a map from addresses to devices: after any sequence of registrations and removals on a new
  bus the answers are those of the map and every address has the owner the map gives it.  The map rejects
  an empty or wrapping range and a range with an owned address, and frees the whole range of the device
  found at an address.
\<close>
theorem bus_refines_address_map:
  "fst (run_steps bus_step ops bus_new) = fst (run_steps map_step ops (\<lambda>_. None)) \<and>
   (\<forall>a. bus_device a (snd (run_steps bus_step ops bus_new)) = snd (run_steps map_step ops (\<lambda>_. None)) a)"
proof -
  obtain b' where "run_steps bus_step ops bus_new = (fst (run_steps map_step ops (\<lambda>a. bus_device a bus_new)), b')"
    "(\<lambda>a. bus_device a b') = snd (run_steps map_step ops (\<lambda>a. bus_device a bus_new))"
    using bus_run_refines [OF bus_new_ok(1)] by blast
  then show ?thesis by (simp add: bus_new_ok(2) fun_eq_iff)
qed

section \<open>Accesses reach the owner\<close>

definition covers :: "('a::len, 'd) bus \<Rightarrow> 'a word \<Rightarrow> nat \<Rightarrow> 'a word bus_range \<times> 'd \<Rightarrow> bool" where
  "covers b addr n p \<longleftrightarrow> 0 < n \<and> n < 2 ^ LENGTH('a) \<and> unat addr + n \<le> 2 ^ LENGTH('a) \<and>
     (\<forall>i < n. bus_device (addr + of_nat i) b = Some p)"

lemma unat_add_of_nat:
  "unat addr + i < 2 ^ LENGTH('a) \<Longrightarrow> unat (addr + of_nat i :: 'a::len word) = unat addr + i"
  by (simp add: unat_word_ariths unat_of_nat)

lemma access_range:
  assumes "0 < n" "n < 2 ^ LENGTH('a)"
  shows "br_ok \<lparr>br_base = addr, br_size = of_nat n :: 'a::len word\<rparr> \<longleftrightarrow> unat addr + n \<le> 2 ^ LENGTH('a)"
    and "unat addr + n \<le> 2 ^ LENGTH('a) \<Longrightarrow> br_last \<lparr>br_base = addr, br_size = of_nat n\<rparr> = addr + of_nat (n - 1)"
proof -
  have un: "unat (of_nat k :: 'a word) = k" if "k < 2 ^ LENGTH('a)" for k using that by (simp add: unat_of_nat)
  have "unat (of_nat n :: 'a word) = n" by (rule un [OF assms(2)])
  then have nz: "(of_nat n :: 'a word) \<noteq> 0" using assms(1) by (metis unat_0 less_numeral_extra(3))
  have minus: "(of_nat n :: 'a word) - 1 = of_nat (n - 1)" using assms(1) by (simp add: of_nat_diff)
  moreover have "unat (word_of_nat (n - 1) :: 'a word) = n - 1"
    using assms(2) by (intro un) simp
  ultimately show "br_ok \<lparr>br_base = addr, br_size = of_nat n :: 'a word\<rparr> \<longleftrightarrow> unat addr + n \<le> 2 ^ LENGTH('a)"
    using nz assms(1) by (auto simp: br_ok_def)
  show "br_last \<lparr>br_base = addr, br_size = of_nat n\<rparr> = addr + of_nat (n - 1)"
    if "unat addr + n \<le> 2 ^ LENGTH('a)"
    using minus by (simp add: br_last_def)
qed

lemma covers_iff:
  assumes "bus_ok b" "0 < n" "n < 2 ^ LENGTH('a)" "unat addr + n \<le> 2 ^ LENGTH('a)"
  shows "covers b (addr :: 'a::len word) n p \<longleftrightarrow> bus_device addr b = Some p \<and> addr + of_nat (n - 1) \<le> br_last (fst p)"
proof
  assume c: "covers b addr n p"
  then have "bus_device (addr + of_nat 0) b = Some p" "bus_device (addr + of_nat (n - 1)) b = Some p"
    using assms(2) unfolding covers_def by (metis, metis diff_less zero_less_one)
  then show "bus_device addr b = Some p \<and> addr + of_nat (n - 1) \<le> br_last (fst p)"
    using bus_device_iff(1) [OF assms(1)] by (simp add: br_set_def)
next
  assume p: "bus_device addr b = Some p \<and> addr + of_nat (n - 1) \<le> br_last (fst p)"
  then have mem: "p \<in> set b" "br_base (fst p) \<le> addr" using bus_device_iff(1) [OF assms(1)] by (auto simp: br_set_def)
  have "bus_device (addr + of_nat i) b = Some p" if "i < n" for i
  proof -
    have "unat (addr + of_nat i) = unat addr + i" "unat (addr + of_nat (n - 1)) = unat addr + (n - 1)"
      using that assms(4) by (intro unat_add_of_nat; simp)+
    then have "addr \<le> addr + of_nat i" "addr + of_nat i \<le> addr + of_nat (n - 1)"
      using that by (simp_all add: word_le_nat_alt)
    then have "addr + of_nat i \<in> br_set (fst p)" using p mem(2) by (auto simp: br_set_def)
    then show ?thesis using bus_device_iff(1) [OF assms(1)] mem(1) by blast
  qed
  then show "covers b addr n p" using assms(2-4) by (simp add: covers_def)
qed

lemma check_access_exact:
  fixes addr :: "'a::len word"
  assumes "bus_ok b"
  shows "check_access addr n b =
    (if 2 ^ LENGTH('a) \<le> n then Err (InvalidAccessLength n)
     else if n = 0 \<or> 2 ^ LENGTH('a) < unat addr + n then Err InvalidRange
     else (case bus_device addr b of
             Some p \<Rightarrow> if covers b addr n p then Ok p else Err DeviceNotFound
           | None \<Rightarrow> Err DeviceNotFound))"
proof -
  consider "2 ^ LENGTH('a) \<le> n" | "n = 0" | "0 < n" "n < 2 ^ LENGTH('a)" by linarith
  then show ?thesis
  proof cases
    case 1
    then show ?thesis by (simp add: check_access_def)
  next
    case 2
    then show ?thesis by (simp add: check_access_def bus_range_new_eq br_ok_def)
  next
    case 3
    note acc = access_range [OF 3, of addr] and cov = covers_iff [OF assms 3, of addr]
    show ?thesis
    proof (cases "unat addr + n \<le> 2 ^ LENGTH('a)")
      case True
      then show ?thesis using 3 acc cov [OF True]
        by (auto simp: check_access_def bus_range_new_eq split: option.split)
    next
      case False
      then show ?thesis using 3 acc(1) by (simp add: check_access_def bus_range_new_eq)
    qed
  qed
qed

lemma covers_bounds:
  assumes "bus_ok b" "covers b addr n (r, d)"
  shows "unat (addr - br_base r) + n \<le> unat (br_size r)"
proof -
  have n: "0 < n" "n < 2 ^ LENGTH('a)" "unat addr + n \<le> 2 ^ LENGTH('a)" using assms(2) by (auto simp: covers_def)
  have at: "bus_device addr b = Some (r, d)" "addr + of_nat (n - 1) \<le> br_last r"
    using covers_iff [OF assms(1) n] assms(2) by auto
  then have "(r, d) \<in> set b" "br_base r \<le> addr" using bus_device_iff(1) [OF assms(1)] by (auto simp: br_set_def)
  then have ok: "br_ok r" using assms(1) by (auto simp: bus_ok_def list_all_iff)
  have "unat addr + (n - 1) \<le> unat (br_base r) + unat (br_size r) - 1"
    using at(2) br_last_unat [OF ok] unat_add_of_nat [of addr "n - 1"] n(1,3) by (simp add: word_le_nat_alt)
  moreover have "0 < unat (br_size r)" using ok by (simp add: br_ok_def unat_gt_0)
  ultimately show ?thesis using unat_sub [OF \<open>br_base r \<le> addr\<close>] \<open>br_base r \<le> addr\<close> n(1)
    by (simp add: word_le_nat_alt)
qed

text \<open>
C19. An access reaches exactly the device that owns every byte of it: the device function is called once,
  with the base of its range, an offset that keeps the whole access inside the range, and the data.  Every
  other access - empty, wrapping, unowned or across the end of a range - is an error and no device is
  called.
\<close>
theorem access_reaches_owner:
  assumes "bus_ok b"
  shows "(\<forall>r d. covers b addr (length dat) (r, d) \<longrightarrow>
       unat (addr - br_base r) + length dat \<le> unat (br_size r) \<and>
       bus_write wr b addr dat s = (Ok (), wr d (br_base r) (addr - br_base r) dat s) \<and>
       bus_read rd b addr dat s = (let (dat', s') = rd d (br_base r) (addr - br_base r) dat s in (Ok dat', s'))) \<and>
     ((\<forall>p. \<not> covers b addr (length dat) p) \<longrightarrow>
       (\<exists>e. bus_write wr b addr dat s = (Err e, s) \<and> bus_read rd b addr dat s = (Err e, s)))"
proof (intro conjI allI impI)
  fix r d assume c: "covers b addr (length dat) (r, d)"
  show "unat (addr - br_base r) + length dat \<le> unat (br_size r)" by (rule covers_bounds [OF assms c])
  have n: "0 < length dat" "length dat < 2 ^ LENGTH('a)" "unat addr + length dat \<le> 2 ^ LENGTH('a)"
    using c by (auto simp: covers_def)
  have "check_access addr (length dat) b = Ok (r, d)"
    using n c covers_iff [OF assms n, of "(r, d)"] by (simp add: check_access_exact [OF assms])
  then show "bus_write wr b addr dat s = (Ok (), wr d (br_base r) (addr - br_base r) dat s)"
    "bus_read rd b addr dat s = (let (dat', s') = rd d (br_base r) (addr - br_base r) dat s in (Ok dat', s'))"
    by (simp_all add: bus_write_def bus_read_def)
next
  assume "\<forall>p. \<not> covers b addr (length dat) p"
  then have "\<exists>e. check_access addr (length dat) b = Err e"
    by (simp add: check_access_exact [OF assms] split: option.split)
  then obtain e where "check_access addr (length dat) b = Err e" ..
  then show "\<exists>e. bus_write wr b addr dat s = (Err e, s) \<and> bus_read rd b addr dat s = (Err e, s)"
    by (simp add: bus_write_def bus_read_def)
qed

theorem access_reaches_owner_witness:
  "bus_write (\<lambda>d base off dat s. (d, base, off, dat) # s)
     [(\<lparr>br_base = 0x1000, br_size = 0x100\<rparr>, ''uart'')] (0x10FE :: u16) [7, 8] [] =
     (Ok (), [(''uart'', 0x1000, 0xFE, [7, 8])])"
proof -
  let ?b = "[(\<lparr>br_base = 0x1000, br_size = 0x100\<rparr> :: u16 bus_range, ''uart'')]"
  have ok: "bus_ok ?b" by (simp add: bus_ok_def br_ok_def)
  have "covers ?b (0x10FE :: u16) (length [7, 8 :: u8]) (\<lparr>br_base = 0x1000, br_size = 0x100\<rparr>, ''uart'')"
    using covers_iff [OF ok, of "Suc (Suc 0)" "0x10FE"] by (simp add: bus_device_Cons br_last_def)
  from access_reaches_owner [OF ok, THEN conjunct1, rule_format, OF this,
      where wr = "\<lambda>d base off dat s. (d, base, off, dat) # s" and s = "[]"]
  show ?thesis by simp
qed

section \<open>The resources of a device\<close>

abbreviation (input) br :: "'a::len word \<times> 'a word \<Rightarrow> 'a word bus_range" where
  "br p \<equiv> \<lparr>br_base = fst p, br_size = snd p\<rparr>"

definition pio_ranges :: "resource list \<Rightarrow> u16 bus_range list" where
  "pio_ranges rs = map br (get_pio_address_ranges rs)"

definition mmio_ranges :: "resource list \<Rightarrow> u64 bus_range list" where
  "mmio_ranges rs = map br (get_mmio_address_ranges rs)"

definition placeable :: "('a::len, 'd) bus \<Rightarrow> 'a word bus_range list \<Rightarrow> bool" where
  "placeable b rs \<longleftrightarrow> list_all br_ok rs \<and> sorted_wrt (\<lambda>r q. br_set r \<inter> br_set q = {}) rs \<and>
     (\<forall>r \<in> set rs. \<forall>a \<in> br_set r. bus_device a b = None)"

text \<open>
  An appended resource is the last of its kind: lists of a kind grow at the end, and the single entries
  are those appended first.
\<close>

lemma device_resources_append_ranges:
  "get_pio_address_ranges (device_resources_append x rs) = get_pio_address_ranges rs @ get_pio_address_ranges [x]"
  "get_mmio_address_ranges (device_resources_append x rs) = get_mmio_address_ranges rs @ get_mmio_address_ranges [x]"
  "get_kvm_mem_slots (device_resources_append x rs) = get_kvm_mem_slots rs @ get_kvm_mem_slots [x]"
proof -
  have pio: "get_pio_address_ranges (xs @ ys) = get_pio_address_ranges xs @ get_pio_address_ranges ys" for xs ys
    by (induction xs rule: get_pio_address_ranges.induct) simp_all
  have mmio: "get_mmio_address_ranges (xs @ ys) = get_mmio_address_ranges xs @ get_mmio_address_ranges ys" for xs ys
    by (induction xs rule: get_mmio_address_ranges.induct) simp_all
  have slots: "get_kvm_mem_slots (xs @ ys) = get_kvm_mem_slots xs @ get_kvm_mem_slots ys" for xs ys
    by (induction xs rule: get_kvm_mem_slots.induct) simp_all
  show "get_pio_address_ranges (device_resources_append x rs) = get_pio_address_ranges rs @ get_pio_address_ranges [x]"
    "get_mmio_address_ranges (device_resources_append x rs) = get_mmio_address_ranges rs @ get_mmio_address_ranges [x]"
    "get_kvm_mem_slots (device_resources_append x rs) = get_kvm_mem_slots rs @ get_kvm_mem_slots [x]"
    by (simp_all add: device_resources_append_def pio mmio slots)
qed

lemma register_mmio_resources_eq:
  "list_all br_ok (mmio_ranges rs) \<Longrightarrow> register_mmio_resources d rs m =
     (let (res, b) = reg_list bus_register d (mmio_ranges rs) (mmio_bus m) in (res, m\<lparr>mmio_bus := b\<rparr>))"
proof (induction rs arbitrary: m)
  case (Cons x rs)
  then show ?case
    by (cases x) (auto simp: mmio_ranges_def bus_range_new_eq abind_def register_mmio_def split: prod.splits result.splits)
qed (simp add: mmio_ranges_def)

lemma register_pio_resources_eq:
  "list_all br_ok (pio_ranges rs) \<Longrightarrow> register_pio_resources d rs m =
     (let (res, b) = reg_list bus_register d (pio_ranges rs) (pio_bus m) in (res, m\<lparr>pio_bus := b\<rparr>))"
proof (induction rs arbitrary: m)
  case (Cons x rs)
  then show ?case
    by (cases x) (auto simp: pio_ranges_def bus_range_new_eq abind_def register_pio_def split: prod.splits result.splits)
qed (simp add: pio_ranges_def)

lemma deregister_resources_eq:
  "deregister_resources rs m =
     (let (n, b) = drop_list bus_deregister (map br_base (pio_ranges rs)) (pio_bus m);
          (k, c) = drop_list bus_deregister (map br_base (mmio_ranges rs)) (mmio_bus m) in
      (n + k, m\<lparr>pio_bus := b, mmio_bus := c\<rparr>))"
proof (induction rs arbitrary: m)
  case (Cons x rs)
  show ?case
    by (cases x) (simp_all add: Cons.IH pio_ranges_def mmio_ranges_def deregister_pio_def deregister_mmio_def
      Let_def case_prod_beta)
qed (simp add: mmio_ranges_def pio_ranges_def)

lemma bus_roundtrip:
  assumes "bus_ok b" "placeable b rs"
  shows "\<exists>b1 b2. reg_list bus_register d rs b = (Ok (), b1) \<and> bus_ok b1 \<and>
    (\<forall>r \<in> set rs. \<forall>a \<in> br_set r. bus_device a b1 = Some (r, d)) \<and>
    drop_list bus_deregister (map br_base rs) b1 = (length rs, b2) \<and> bus_ok b2 \<and>
    (\<lambda>a. bus_device a b2) = (\<lambda>a. bus_device a b)"
proof (rule bus.reg_drop_roundtrip [OF assms(1)])
  show "\<forall>r \<in> set rs. br_base r \<in> br_set r"
    using assms(2) br_le_last by (auto simp: placeable_def list_all_iff br_set_def)
qed (use assms(2) in \<open>simp_all add: placeable_def\<close>)

text \<open>
Registering a device by its resources succeeds whenever its port and memory ranges are well formed,
  apart from one another and free; every address of them then belongs to the device.  Deregistering the
  same resources removes each of these ranges and gives every address on both buses its owner from before
  the registration.
\<close>
theorem resources_roundtrip:
  assumes "io_ok m" "placeable (pio_bus m) (pio_ranges rs)" "placeable (mmio_bus m) (mmio_ranges rs)"
  shows "\<exists>m1 m2. register_resources d rs m = (Ok (), m1) \<and> io_ok m1 \<and>
    (\<forall>r \<in> set (mmio_ranges rs). \<forall>a \<in> br_set r. bus_device a (mmio_bus m1) = Some (r, d)) \<and>
    (\<forall>r \<in> set (pio_ranges rs). \<forall>a \<in> br_set r. bus_device a (pio_bus m1) = Some (r, d)) \<and>
    deregister_resources rs m1 = (length (pio_ranges rs) + length (mmio_ranges rs), m2) \<and> io_ok m2 \<and>
    (\<lambda>a. bus_device a (pio_bus m2)) = (\<lambda>a. bus_device a (pio_bus m)) \<and>
    (\<lambda>a. bus_device a (mmio_bus m2)) = (\<lambda>a. bus_device a (mmio_bus m))"
proof -
  have ok: "bus_ok (pio_bus m)" "bus_ok (mmio_bus m)" using assms(1) by (auto simp: io_ok_def)
  obtain p1 p2 where p: "reg_list bus_register d (pio_ranges rs) (pio_bus m) = (Ok (), p1)" "bus_ok p1"
    "\<forall>r \<in> set (pio_ranges rs). \<forall>a \<in> br_set r. bus_device a p1 = Some (r, d)"
    "drop_list bus_deregister (map br_base (pio_ranges rs)) p1 = (length (pio_ranges rs), p2)" "bus_ok p2"
    "(\<lambda>a. bus_device a p2) = (\<lambda>a. bus_device a (pio_bus m))"
    using bus_roundtrip [OF ok(1) assms(2)] by blast
  obtain q1 q2 where q: "reg_list bus_register d (mmio_ranges rs) (mmio_bus m) = (Ok (), q1)" "bus_ok q1"
    "\<forall>r \<in> set (mmio_ranges rs). \<forall>a \<in> br_set r. bus_device a q1 = Some (r, d)"
    "drop_list bus_deregister (map br_base (mmio_ranges rs)) q1 = (length (mmio_ranges rs), q2)" "bus_ok q2"
    "(\<lambda>a. bus_device a q2) = (\<lambda>a. bus_device a (mmio_bus m))"
    using bus_roundtrip [OF ok(2) assms(3)] by blast
  let ?m1 = "m\<lparr>mmio_bus := q1, pio_bus := p1\<rparr>" and ?m2 = "m\<lparr>mmio_bus := q1, pio_bus := p1, pio_bus := p2, mmio_bus := q2\<rparr>"
  have "register_resources d rs m = (Ok (), ?m1)"
    using assms(2,3) p(1) q(1)
    by (simp add: register_resources_def abind_def placeable_def register_mmio_resources_eq register_pio_resources_eq)
  moreover have "deregister_resources rs ?m1 = (length (pio_ranges rs) + length (mmio_ranges rs), ?m2)"
    using p(4) q(4) by (simp add: deregister_resources_eq)
  moreover have "io_ok ?m1" "io_ok ?m2" using p(2,5) q(2,5) by (simp_all add: io_ok_def)
  ultimately show ?thesis using p(3,6) q(3,6) by (intro exI [of _ ?m1] exI [of _ ?m2]) simp
qed

theorem resources_roundtrip_witness:
  "\<exists>m1 m2. register_resources ''blk'' [LegacyIrq 5, MmioAddressRange 0xD0000000 0x200, PioAddressRange 0x3F8 8,
       MmioAddressRange 0xC0000000 0x100] io_manager_new = (Ok (), m1) \<and>
     bus_device 0xD0000010 (mmio_bus m1) = Some (\<lparr>br_base = 0xD0000000, br_size = 0x200\<rparr>, ''blk'') \<and>
     deregister_resources [LegacyIrq 5, MmioAddressRange 0xD0000000 0x200, PioAddressRange 0x3F8 8,
       MmioAddressRange 0xC0000000 0x100] m1 = (3, m2)"
proof -
  let ?rs = "[LegacyIrq 5, MmioAddressRange 0xD0000000 0x200, PioAddressRange 0x3F8 8, MmioAddressRange 0xC0000000 0x100]"
  let ?m = "io_manager_new :: (string, string) io_manager"
  have m: "io_ok ?m" by (simp add: io_ok_def io_manager_new_def bus_new_ok)
  have pr: "pio_ranges ?rs = [\<lparr>br_base = 0x3F8, br_size = 8\<rparr>]" by (simp add: pio_ranges_def)
  have mr: "mmio_ranges ?rs = [\<lparr>br_base = 0xD0000000, br_size = 0x200\<rparr>, \<lparr>br_base = 0xC0000000, br_size = 0x100\<rparr>]"
    by (simp add: mmio_ranges_def)
  have p: "placeable (pio_bus ?m) (pio_ranges ?rs)" unfolding pr by (simp add: placeable_def br_ok_def io_manager_new_def bus_new_ok)
  have q: "placeable (mmio_bus ?m) (mmio_ranges ?rs)"
    unfolding mr by (simp add: placeable_def br_ok_def io_manager_new_def bus_new_ok br_set_def br_last_def)
  have "0xD0000010 \<in> br_set \<lparr>br_base = 0xD0000000, br_size = 0x200 :: u64\<rparr>" by (simp add: br_set_def br_last_def)
  then show ?thesis using resources_roundtrip [OF m p q, of "''blk''"] unfolding pr mr by fastforce
qed

end
