(* ===== verification/EventManager.thy ===== *)
theory EventManager
  imports Prelude
begin

text \<open>
  The event manager of \<^verbatim>\<open>event-manager/src\<close> on top of the epoll wrapper of \<^verbatim>\<open>vmm-sys-util/src/linux/epoll.rs\<close>:
  events, the wrapper with its dispatch table, watch lists and buffer of ready events, the operations
  subscribers are handed, the subscribers, and the manager with its loop and its remote endpoint.

  The system calls are a record of functions over the state of the kernel; the locale \<open>epoll_kernel\<close> states what
  \<^verbatim>\<open>epoll(7)\<close> promises of them. A callback is a dialogue with the operations it is handed. The messages
  of remote endpoints that a turn of the loop receives are an argument of that turn.
\<close>

section \<open>Events\<close>

type_synonym raw_fd = "32 word"
type_synonym errno = "32 word"

record epoll_event =
  ee_events :: u32
  ee_data :: u64

definition default_event :: epoll_event where
  "default_event = \<lparr>ee_events = 0, ee_data = 0\<rparr>"

definition ee_fd :: "epoll_event \<Rightarrow> raw_fd" where
  "ee_fd ev = ucast (ee_data ev)"

definition EVENT_IN :: u32 where "EVENT_IN = 0x1"

definition EVENT_ALL :: u32 where
  "EVENT_ALL = 0x1 OR 0x4 OR 0x8 OR 0x2000 OR 0x80000000 OR 0x10 OR 0x2 OR 0x20000000 OR 0x40000000 OR 0x10000000"

definition event_set :: "epoll_event \<Rightarrow> (u32, 'e) result" where
  "event_set ev = (if ee_events ev AND NOT EVENT_ALL = 0 then Ok (ee_events ev) else Panic)"

definition with_data_raw :: "raw_fd \<Rightarrow> u32 \<Rightarrow> u32 \<Rightarrow> epoll_event" where
  "with_data_raw source dat events =
    \<lparr>ee_events = events, ee_data = push_bit 32 (ucast dat) + scast source\<rparr>"

definition new_raw :: "raw_fd \<Rightarrow> u32 \<Rightarrow> epoll_event" where
  "new_raw source events = with_data_raw source 0 events"

definition empty_raw :: "raw_fd \<Rightarrow> epoll_event" where
  "empty_raw source = new_raw source 0"

definition ev_data :: "epoll_event \<Rightarrow> u32" where
  "ev_data ev = ucast (drop_bit 32 (ee_data ev))"

section \<open>The epoll system calls\<close>

datatype em_error = Epoll errno | EventFd errno | FdAlreadyRegistered | InvalidId | InvalidCapacity

datatype control_operation = CtlAdd | CtlModify | CtlDelete

fun ctl_code :: "control_operation \<Rightarrow> 32 word" where
  "ctl_code CtlAdd = 1"
| "ctl_code CtlModify = 3"
| "ctl_code CtlDelete = 2"

record 'k os =
  sys_epoll_create1 :: "32 word \<times> errno \<times> 'k"
  sys_epoll_ctl :: "raw_fd \<Rightarrow> 32 word \<Rightarrow> raw_fd \<Rightarrow> epoll_event \<Rightarrow> 'k \<Rightarrow> (32 word \<times> errno) \<times> 'k"
  sys_epoll_wait :: "raw_fd \<Rightarrow> nat \<Rightarrow> 32 word \<Rightarrow> 'k \<Rightarrow> (32 word \<times> errno \<times> epoll_event list) \<times> 'k"
  sys_eventfd :: "32 word \<times> errno"

definition into_result :: "32 word \<times> errno \<Rightarrow> (32 word, errno) result" where
  "into_result p = (if fst p = - 1 then Err (snd p) else Ok (fst p))"

definition into_empty_result :: "32 word \<times> errno \<Rightarrow> (unit, errno) result" where
  "into_empty_result p = rbind (into_result p) (\<lambda>_. Ok ())"

record 'k epoll =
  epoll_fd :: raw_fd
  kernel :: 'k

definition epoll_new :: "'k os \<Rightarrow> ('k epoll, errno) result" where
  "epoll_new os = (case sys_epoll_create1 os of (ret, err, k) \<Rightarrow>
    rbind (into_result (ret, err)) (\<lambda>fd. Ok \<lparr>epoll_fd = fd, kernel = k\<rparr>))"

definition epoll_ctl :: "'k os \<Rightarrow> control_operation \<Rightarrow> raw_fd \<Rightarrow> epoll_event \<Rightarrow> ('k epoll, unit, errno) act" where
  "epoll_ctl os op fd ev e = (case sys_epoll_ctl os (epoll_fd e) (ctl_code op) fd ev (kernel e) of (ret, k) \<Rightarrow>
    (into_empty_result ret, e\<lparr>kernel := k\<rparr>))"

text \<open>The kernel writes the events it reports over the start of the caller's buffer.\<close>

definition epoll_wait :: "'k os \<Rightarrow> 32 word \<Rightarrow> ('k epoll \<times> epoll_event list, nat, errno) act" where
  "epoll_wait os timeout = (\<lambda>(e, events).
    case sys_epoll_wait os (epoll_fd e) (length events) timeout (kernel e) of ((ret, err, evs), k) \<Rightarrow>
      (rbind (into_result (ret, err)) (\<lambda>n. Ok (unat (scast n :: u64))),
       (e\<lparr>kernel := k\<rparr>, evs @ drop (length evs) events)))"

section \<open>The wrapper of epoll\<close>

type_synonym subscriber_id = u64

record 'k epoll_wrapper =
  epoll :: "'k epoll"
  fd_dispatch :: "raw_fd \<rightharpoonup> subscriber_id"
  subscriber_watch_list :: "subscriber_id \<rightharpoonup> raw_fd list"
  ready_events :: "epoll_event list"

definition watched :: "'k epoll_wrapper \<Rightarrow> subscriber_id \<Rightarrow> raw_fd list" where
  "watched w sid = (case subscriber_watch_list w sid of Some fds \<Rightarrow> fds | None \<Rightarrow> [])"

definition epoll_wrapper_new :: "'k os \<Rightarrow> nat \<Rightarrow> ('k epoll_wrapper, em_error) result" where
  "epoll_wrapper_new os ready_events_capacity = rbind (map_err Epoll (epoll_new os)) (\<lambda>e.
    Ok \<lparr>epoll = e, fd_dispatch = Map.empty, subscriber_watch_list = Map.empty,
        ready_events = replicate ready_events_capacity default_event\<rparr>)"

definition EINTR :: errno where "EINTR = 4"

definition poll :: "'k os \<Rightarrow> 32 word \<Rightarrow> ('k epoll_wrapper, nat, em_error) act" where
  "poll os milliseconds w = (case epoll_wait os milliseconds (epoll w, ready_events w) of (r, e, evs) \<Rightarrow>
    (case r of
       Ok n \<Rightarrow> Ok n
     | Err err \<Rightarrow> if err = EINTR then Ok 0 else Err (Epoll err)
     | Panic \<Rightarrow> Panic, w\<lparr>epoll := e, ready_events := evs\<rparr>))"

definition remove_event :: "raw_fd \<Rightarrow> 'k epoll_wrapper \<Rightarrow> 'k epoll_wrapper" where
  "remove_event fd w = w\<lparr>fd_dispatch := (fd_dispatch w)(fd := None),
    ready_events := map (\<lambda>ev. if ee_fd ev = fd then default_event else ev) (ready_events w)\<rparr>"

definition wrapper_ctl :: "'k os \<Rightarrow> control_operation \<Rightarrow> raw_fd \<Rightarrow> epoll_event \<Rightarrow> ('k epoll_wrapper, unit, em_error) act" where
  "wrapper_ctl os op fd ev w = (case epoll_ctl os op fd ev (epoll w) of (r, e) \<Rightarrow>
    (map_err Epoll r, w\<lparr>epoll := e\<rparr>))"

primrec remove_fds :: "'k os \<Rightarrow> raw_fd list \<Rightarrow> 'k epoll_wrapper \<Rightarrow> 'k epoll_wrapper" where
  "remove_fds os [] w = w"
| "remove_fds os (fd # fds) w =
    remove_fds os fds (remove_event fd (snd (wrapper_ctl os CtlDelete fd default_event w)))"

definition wrapper_remove :: "'k os \<Rightarrow> subscriber_id \<Rightarrow> 'k epoll_wrapper \<Rightarrow> 'k epoll_wrapper" where
  "wrapper_remove os sid w =
    remove_fds os (watched w sid) (w\<lparr>subscriber_watch_list := (subscriber_watch_list w)(sid := None)\<rparr>)"

section \<open>Operations of a subscriber\<close>

definition ops_ctl :: "'k os \<Rightarrow> control_operation \<Rightarrow> epoll_event \<Rightarrow> ('k epoll_wrapper, unit, em_error) act" where
  "ops_ctl os op events = wrapper_ctl os op (ee_fd events) events"

definition ops_add :: "'k os \<Rightarrow> subscriber_id \<Rightarrow> epoll_event \<Rightarrow> ('k epoll_wrapper, unit, em_error) act" where
  "ops_add os sid events w =
    (let fd = ee_fd events in
     if fd_dispatch w fd \<noteq> None then (Err FdAlreadyRegistered, w)
     else abind (ops_ctl os CtlAdd events) (\<lambda>_ w. (Ok (), w\<lparr>fd_dispatch := (fd_dispatch w)(fd \<mapsto> sid),
       subscriber_watch_list := (subscriber_watch_list w)(sid \<mapsto> watched w sid @ [fd])\<rparr>)) w)"

definition ops_modify :: "'k os \<Rightarrow> epoll_event \<Rightarrow> ('k epoll_wrapper, unit, em_error) act" where
  "ops_modify os events = ops_ctl os CtlModify events"

definition ops_remove :: "'k os \<Rightarrow> subscriber_id \<Rightarrow> epoll_event \<Rightarrow> ('k epoll_wrapper, unit, em_error) act" where
  "ops_remove os sid events = abind (ops_ctl os CtlDelete events) (\<lambda>_ w.
    let w = remove_event (ee_fd events) w in
    (Ok (), case subscriber_watch_list w sid of
       Some watch_list \<Rightarrow> w\<lparr>subscriber_watch_list := (subscriber_watch_list w)(sid \<mapsto> remove1 (ee_fd events) watch_list)\<rparr>
     | None \<Rightarrow> w))"

text \<open>
  What a callback does with the operations it is handed is a finite dialogue: it asks for an operation, sees
  its result and goes on, until it returns the new state of the subscriber or panics.
\<close>

datatype 's session =
    Return 's
  | Abort
  | AddEvents epoll_event "(unit, em_error) result \<Rightarrow> 's session"
  | ModifyEvents epoll_event "(unit, em_error) result \<Rightarrow> 's session"
  | RemoveEvents epoll_event "(unit, em_error) result \<Rightarrow> 's session"

primrec run_session :: "'k os \<Rightarrow> subscriber_id \<Rightarrow> 's session \<Rightarrow> ('k epoll_wrapper, 's, em_error) act" where
  "run_session os sid (Return s) = alift (Ok s)"
| "run_session os sid Abort = alift Panic"
| "run_session os sid (AddEvents ev k) = (\<lambda>w. case ops_add os sid ev w of (r, w) \<Rightarrow> run_session os sid (k r) w)"
| "run_session os sid (ModifyEvents ev k) = (\<lambda>w. case ops_modify os ev w of (r, w) \<Rightarrow> run_session os sid (k r) w)"
| "run_session os sid (RemoveEvents ev k) = (\<lambda>w. case ops_remove os sid ev w of (r, w) \<Rightarrow> run_session os sid (k r) w)"

record 's subscriber =
  sub_init :: "'s \<Rightarrow> 's session"
  sub_process :: "'s \<Rightarrow> epoll_event \<Rightarrow> 's session"

section \<open>Subscribers\<close>

record 's subscribers =
  sb_map :: "subscriber_id \<rightharpoonup> 's"
  next_id :: u64

definition subscribers_new :: "'s subscribers" where
  "subscribers_new = \<lparr>sb_map = Map.empty, next_id = 1\<rparr>"

definition subscribers_add :: "'s \<Rightarrow> 's subscribers \<Rightarrow> subscriber_id \<times> 's subscribers" where
  "subscribers_add s t = (let sid = next_id t in
    (sid, t\<lparr>next_id := next_id t + 1, sb_map := (sb_map t)(sid \<mapsto> s)\<rparr>))"

definition subscribers_remove :: "subscriber_id \<Rightarrow> 's subscribers \<Rightarrow> 's option \<times> 's subscribers" where
  "subscribers_remove sid t = (sb_map t sid, t\<lparr>sb_map := (sb_map t)(sid := None)\<rparr>)"

definition subscribers_contains :: "subscriber_id \<Rightarrow> 's subscribers \<Rightarrow> bool" where
  "subscribers_contains sid t \<longleftrightarrow> sb_map t sid \<noteq> None"

definition get_mut_unchecked :: "subscriber_id \<Rightarrow> 's subscribers \<Rightarrow> ('s, 'e) result" where
  "get_mut_unchecked sid t = unwrap (sb_map t sid)"

section \<open>The event manager\<close>

record ('k, 's) event_manager =
  subscribers :: "'s subscribers"
  epoll_context :: "'k epoll_wrapper"
  channel :: "raw_fd option"

type_synonym ('k, 's, 'a) em_act = "(('k, 's) event_manager, 'a, em_error) act"

text \<open>A callback of the subscriber with the given identifier, run on the state the manager keeps of it.\<close>

definition with_subscriber :: "'k os \<Rightarrow> subscriber_id \<Rightarrow> ('s \<Rightarrow> 's session) \<Rightarrow> ('k, 's, unit) em_act" where
  "with_subscriber os sid f m = (case get_mut_unchecked sid (subscribers m) of
     Ok s \<Rightarrow> (case run_session os sid (f s) (epoll_context m) of (r, w) \<Rightarrow>
       (case r of
          Ok s' \<Rightarrow> (Ok (), m\<lparr>epoll_context := w,
            subscribers := (subscribers m)\<lparr>sb_map := (sb_map (subscribers m))(sid \<mapsto> s')\<rparr>\<rparr>)
        | Err e \<Rightarrow> (Err e, m\<lparr>epoll_context := w\<rparr>)
        | Panic \<Rightarrow> (Panic, m\<lparr>epoll_context := w\<rparr>)))
   | Err e \<Rightarrow> (Err e, m)
   | Panic \<Rightarrow> (Panic, m))"

definition add_subscriber :: "'k os \<Rightarrow> 's subscriber \<Rightarrow> 's \<Rightarrow> ('k, 's, subscriber_id) em_act" where
  "add_subscriber os sub s m = (case subscribers_add s (subscribers m) of (sid, t) \<Rightarrow>
    abind (with_subscriber os sid (sub_init sub)) (\<lambda>_. alift (Ok sid)) (m\<lparr>subscribers := t\<rparr>))"

definition remove_subscriber :: "'k os \<Rightarrow> subscriber_id \<Rightarrow> ('k, 's, 's) em_act" where
  "remove_subscriber os sid m = (case subscribers_remove sid (subscribers m) of (r, t) \<Rightarrow>
    (case ok_or r InvalidId of
       Ok s \<Rightarrow> (Ok s, m\<lparr>subscribers := t, epoll_context := wrapper_remove os sid (epoll_context m)\<rparr>)
     | Err e \<Rightarrow> (Err e, m\<lparr>subscribers := t\<rparr>)
     | Panic \<Rightarrow> (Panic, m\<lparr>subscribers := t\<rparr>)))"

definition subscriber_mut :: "subscriber_id \<Rightarrow> ('k, 's) event_manager \<Rightarrow> ('s, em_error) result" where
  "subscriber_mut sid m = (if subscribers_contains sid (subscribers m) then get_mut_unchecked sid (subscribers m) else Err InvalidId)"

definition event_ops :: "'k os \<Rightarrow> subscriber_id \<Rightarrow> 'a session \<Rightarrow> ('k, 's, 'a) em_act" where
  "event_ops os sid ses m = (if subscribers_contains sid (subscribers m)
    then (case run_session os sid ses (epoll_context m) of (r, w) \<Rightarrow> (r, m\<lparr>epoll_context := w\<rparr>))
    else (Err InvalidId, m))"

definition MAX_READY_EVENTS_CAPACITY :: nat where
  "MAX_READY_EVENTS_CAPACITY = (2 ^ 31 - 1) div 12"

definition new_with_capacity :: "'k os \<Rightarrow> bool \<Rightarrow> nat \<Rightarrow> (('k, 's) event_manager, em_error) result" where
  "new_with_capacity os remote_endpoint ready_events_capacity =
    (if MAX_READY_EVENTS_CAPACITY < ready_events_capacity then Err InvalidCapacity
     else rbind (epoll_wrapper_new os ready_events_capacity) (\<lambda>w.
       if remote_endpoint
       then rbind (map_err EventFd (into_result (sys_eventfd os))) (\<lambda>fd.
         case wrapper_ctl os CtlAdd fd \<lparr>ee_events = EVENT_IN, ee_data = scast fd\<rparr> w of (r, w) \<Rightarrow>
         rbind r (\<lambda>_. Ok \<lparr>subscribers = subscribers_new, epoll_context = w, channel = Some fd\<rparr>))
       else Ok \<lparr>subscribers = subscribers_new, epoll_context = w, channel = None\<rparr>))"

text \<open>A message of a remote endpoint: a closure on the manager and whether its result is sent back.\<close>

record ('k, 's, 'r) fn_msg =
  fnbox :: "('k, 's, 'r) em_act"
  wants_reply :: bool

definition handle_msg :: "('k, 's, 'r) fn_msg \<Rightarrow> 'r list \<Rightarrow> ('k, 's, 'r list) em_act" where
  "handle_msg msg replies = abind (fnbox msg) (\<lambda>r. alift (Ok (if wants_reply msg then replies @ [r] else replies)))"

definition handle_endpoint_calls :: "('k, 's, 'r) fn_msg list \<Rightarrow> ('k, 's, 'r list) em_act" where
  "handle_endpoint_calls msgs = afold handle_msg msgs []"

definition dispatch_endpoint_event :: "('k, 's, 'r) fn_msg list \<Rightarrow> epoll_event option \<Rightarrow> ('k, 's, 'r list) em_act" where
  "dispatch_endpoint_event msgs endpoint_event = (case endpoint_event of
     None \<Rightarrow> alift (Ok [])
   | Some event \<Rightarrow> abind (alift (event_set event)) (\<lambda>es.
       if es \<noteq> EVENT_IN then alift Panic else handle_endpoint_calls msgs))"

definition dispatch_one :: "'k os \<Rightarrow> 's subscriber \<Rightarrow> nat \<Rightarrow> epoll_event option \<Rightarrow> ('k, 's, epoll_event option) em_act" where
  "dispatch_one os sub ev_index endpoint_event m =
    (if length (ready_events (epoll_context m)) \<le> ev_index then (Panic, m)
     else let event = ready_events (epoll_context m) ! ev_index; fd = ee_fd event in
       if ee_events event = ee_events default_event \<and> fd = ee_fd default_event then (Ok endpoint_event, m)
       else case fd_dispatch (epoll_context m) fd of
         Some sid \<Rightarrow> abind (with_subscriber os sid (\<lambda>s. sub_process sub s event)) (\<lambda>_. alift (Ok endpoint_event)) m
       | None \<Rightarrow> if channel m = Some fd then (Ok (Some event), m) else (Panic, m))"

definition dispatch_events :: "'k os \<Rightarrow> 's subscriber \<Rightarrow> ('k, 's, 'r) fn_msg list \<Rightarrow> nat \<Rightarrow> ('k, 's, 'r list) em_act" where
  "dispatch_events os sub msgs event_count =
    abind (afold (dispatch_one os sub) [0..<event_count] None) (dispatch_endpoint_event msgs)"

definition run_with_timeout ::
  "'k os \<Rightarrow> 's subscriber \<Rightarrow> ('k, 's, 'r) fn_msg list \<Rightarrow> 32 word \<Rightarrow> ('k, 's, nat \<times> 'r list) em_act" where
  "run_with_timeout os sub msgs milliseconds m =
    (case poll os milliseconds (epoll_context m) of (r, w) \<Rightarrow>
       abind (alift r) (\<lambda>event_count. abind (dispatch_events os sub msgs event_count)
         (\<lambda>replies. alift (Ok (event_count, replies)))) (m\<lparr>epoll_context := w\<rparr>))"

definition em_run :: "'k os \<Rightarrow> 's subscriber \<Rightarrow> ('k, 's, 'r) fn_msg list \<Rightarrow> ('k, 's, nat \<times> 'r list) em_act" where
  "em_run os sub msgs = run_with_timeout os sub msgs (- 1)"

section \<open>Invariant\<close>

text \<open>
  Every dispatched descriptor is watched by a registered subscriber and is not the one of the endpoint channel; every entry
  of the interest list carries its descriptor and is dispatched or the channel's; and each of the first \<open>n\<close> ready
  events, those of the turn in progress, is discarded or can be handed on.
\<close>

definition discarded :: "epoll_event \<Rightarrow> bool" where
  "discarded ev \<longleftrightarrow> ee_events ev = ee_events default_event \<and> ee_fd ev = ee_fd default_event"

definition wrapper_ok ::
  "('k \<Rightarrow> raw_fd \<rightharpoonup> epoll_event) \<Rightarrow> raw_fd option \<Rightarrow> subscriber_id set \<Rightarrow> nat \<Rightarrow> 'k epoll_wrapper \<Rightarrow> bool" where
  "wrapper_ok interest ch ids n w \<longleftrightarrow>
    (\<forall>fd sid. fd_dispatch w fd = Some sid \<longrightarrow>
       sid \<in> ids \<and> ch \<noteq> Some fd \<and> fd \<in> set (watched w sid)) \<and>
    (\<forall>fd reg. interest (kernel (epoll w)) fd = Some reg \<longrightarrow>
       ee_fd reg = fd \<and> (fd_dispatch w fd \<noteq> None \<or> ch = Some fd \<and> ee_events reg = EVENT_IN)) \<and>
    n \<le> length (ready_events w) \<and>
    (\<forall>ev \<in> set (take n (ready_events w)). discarded ev \<or>
       fd_dispatch w (ee_fd ev) \<noteq> None \<or> ch = Some (ee_fd ev) \<and> ee_events ev = EVENT_IN)"

text \<open>A dialogue that ends without a panic and leaves the channel's descriptor alone.\<close>

primrec well_behaved :: "raw_fd option \<Rightarrow> 's session \<Rightarrow> bool" where
  "well_behaved ch (Return s) \<longleftrightarrow> True"
| "well_behaved ch Abort \<longleftrightarrow> False"
| "well_behaved ch (AddEvents ev k) \<longleftrightarrow> ch \<noteq> Some (ee_fd ev) \<and> (\<forall>r. well_behaved ch (k r))"
| "well_behaved ch (ModifyEvents ev k) \<longleftrightarrow> ch \<noteq> Some (ee_fd ev) \<and> (\<forall>r. well_behaved ch (k r))"
| "well_behaved ch (RemoveEvents ev k) \<longleftrightarrow> ch \<noteq> Some (ee_fd ev) \<and> (\<forall>r. well_behaved ch (k r))"

text \<open>
  What the kernel promises. An entry that could not be deleted was not there. A wait may drop entries of
  closed descriptors, reports only registered ones, with their data, and reports an event descriptor registered for
  reading as readable only.
\<close>

locale epoll_kernel =
  fixes os :: "'k os" and interest :: "'k \<Rightarrow> raw_fd \<rightharpoonup> epoll_event"
  assumes create: "sys_epoll_create1 os = (ret, err, k) \<Longrightarrow> ret \<noteq> - 1 \<Longrightarrow> interest k = Map.empty"
    and add: "sys_epoll_ctl os epfd (ctl_code CtlAdd) fd ev k = ((ret, err), k') \<Longrightarrow>
      interest k' = (if ret = - 1 then interest k else (interest k)(fd \<mapsto> ev))"
    and modify: "sys_epoll_ctl os epfd (ctl_code CtlModify) fd ev k = ((ret, err), k') \<Longrightarrow>
      if ret = - 1 then interest k' = interest k else interest k fd \<noteq> None \<and> interest k' = (interest k)(fd \<mapsto> ev)"
    and delete: "sys_epoll_ctl os epfd (ctl_code CtlDelete) fd ev k = ((ret, err), k') \<Longrightarrow>
      interest k' = (interest k)(fd := None)"
    and wait_keeps: "sys_epoll_wait os epfd capacity timeout k = ((ret, err, evs), k') \<Longrightarrow>
      interest k' \<subseteq>\<^sub>m interest k \<and> length evs \<le> capacity"
    and wait_count: "sys_epoll_wait os epfd capacity timeout k = ((ret, err, evs), k') \<Longrightarrow> ret \<noteq> - 1 \<Longrightarrow>
      unat (scast ret :: u64) = length evs"
    and wait_events: "sys_epoll_wait os epfd capacity timeout k = ((ret, err, evs), k') \<Longrightarrow> ev \<in> set evs \<Longrightarrow>
      ee_events ev \<noteq> 0 \<and> (\<exists>fd reg. interest k fd = Some reg \<and> ee_data ev = ee_data reg \<and>
        (fd = fst (sys_eventfd os) \<longrightarrow> ee_events reg = EVENT_IN \<longrightarrow> ee_events ev = EVENT_IN))"
begin

lemma wrapper_ctl_effect:
  assumes "wrapper_ctl os op fd ev w = (r, w')"
  shows "\<exists>k. w' = w\<lparr>epoll := (epoll w)\<lparr>kernel := k\<rparr>\<rparr> \<and> r \<noteq> Panic \<and>
    (case op of
       CtlAdd \<Rightarrow> interest k = (if r = Ok () then (interest (kernel (epoll w)))(fd \<mapsto> ev) else interest (kernel (epoll w)))
     | CtlModify \<Rightarrow> if r = Ok () then interest (kernel (epoll w)) fd \<noteq> None \<and> interest k = (interest (kernel (epoll w)))(fd \<mapsto> ev)
         else interest k = interest (kernel (epoll w))
     | CtlDelete \<Rightarrow> interest k = (interest (kernel (epoll w)))(fd := None))"
proof -
  obtain ret err k where ctl: "sys_epoll_ctl os (epoll_fd (epoll w)) (ctl_code op) fd ev (kernel (epoll w)) = ((ret, err), k)"
    by (metis prod.exhaust)
  then have r: "r = map_err Epoll (into_empty_result (ret, err))" "w' = w\<lparr>epoll := (epoll w)\<lparr>kernel := k\<rparr>\<rparr>"
    using assms by (auto simp: wrapper_ctl_def epoll_ctl_def)
  have ok: "r = Ok () \<longleftrightarrow> ret \<noteq> - 1" "r \<noteq> Panic"
    by (auto simp: r into_empty_result_def into_result_def)
  show ?thesis
    using r(2) ok add modify delete ctl by (cases op) (auto split: if_splits)
qed

end

lemma discarded_default [simp]: "discarded default_event"
  by (simp add: discarded_def)

lemma watched_simps [simp]:
  "watched (w\<lparr>epoll := e\<rparr>) = watched w" "watched (w\<lparr>fd_dispatch := d\<rparr>) = watched w" "watched (w\<lparr>ready_events := evs\<rparr>) = watched w"
  "watched (w\<lparr>subscriber_watch_list := l(sid \<mapsto> fds)\<rparr>) =
    (\<lambda>i. if i = sid then fds else watched (w\<lparr>subscriber_watch_list := l\<rparr>) i)"
  "watched (w\<lparr>subscriber_watch_list := subscriber_watch_list w\<rparr>) = watched w"
  "watched (remove_event fd w) = watched w"
  by (auto simp: watched_def fun_eq_iff remove_event_def)

lemma wrapper_okD:
  assumes "wrapper_ok interest ch ids n w"
  shows "fd_dispatch w fd = Some sid \<Longrightarrow> sid \<in> ids"
    and "fd_dispatch w fd = Some sid \<Longrightarrow> ch \<noteq> Some fd"
    and "interest (kernel (epoll w)) fd = Some reg \<Longrightarrow> ee_fd reg = fd"
    and "n \<le> length (ready_events w)"
  using assms by (auto simp: wrapper_ok_def)

lemma wrapper_ok_mono: "wrapper_ok interest ch ids n w \<Longrightarrow> ids \<subseteq> ids' \<Longrightarrow> wrapper_ok interest ch ids' n w"
  unfolding wrapper_ok_def by blast

lemma wrapper_ok_fewer:
  assumes "wrapper_ok interest ch ids n w" and "k \<le> n"
  shows "wrapper_ok interest ch ids k w"
proof -
  have "set (take k (ready_events w)) \<subseteq> set (take n (ready_events w))"
    using assms(2) by (rule set_take_subset_set_take)
  then show ?thesis using assms unfolding wrapper_ok_def by (meson order_trans subsetD)
qed

lemma wrapper_ok_remove_event:
  assumes "wrapper_ok interest ch ids n w" and "interest k = (interest (kernel (epoll w)))(fd := None)"
  shows "wrapper_ok interest ch ids n (remove_event fd (w\<lparr>epoll := (epoll w)\<lparr>kernel := k\<rparr>\<rparr>))"
  using assms unfolding wrapper_ok_def by (auto simp: remove_event_def take_map)

lemma wrapper_ok_forget:
  assumes "wrapper_ok interest ch ids n w" "fd_dispatch w fd = None" "subscriber_watch_list w sid = Some l"
  shows "wrapper_ok interest ch ids n (w\<lparr>subscriber_watch_list := (subscriber_watch_list w)(sid \<mapsto> remove1 fd l)\<rparr>)"
proof -
  have "g \<noteq> fd" if "fd_dispatch w g = Some s" for g s using that assms(2) by auto
  moreover have "watched w sid = l" using assms(3) by (simp add: watched_def)
  ultimately show ?thesis using assms(1,2) unfolding wrapper_ok_def by (auto simp: in_set_remove1)
qed

context epoll_kernel
begin

lemma ops_add_ok:
  assumes "wrapper_ok interest ch ids n w" "sid \<in> ids" "ch \<noteq> Some (ee_fd ev)" "ops_add os sid ev w = (r, w')"
  shows "wrapper_ok interest ch ids n w' \<and> r \<noteq> Panic"
proof (cases "fd_dispatch w (ee_fd ev)")
  case None
  obtain r1 w1 where ctl: "wrapper_ctl os CtlAdd (ee_fd ev) ev w = (r1, w1)" by fastforce
  from wrapper_ctl_effect [OF this] obtain k where k: "w1 = w\<lparr>epoll := (epoll w)\<lparr>kernel := k\<rparr>\<rparr>" "r1 \<noteq> Panic"
    "interest k = (if r1 = Ok () then (interest (kernel (epoll w)))(ee_fd ev \<mapsto> ev) else interest (kernel (epoll w)))" by auto
  show ?thesis
  proof (cases r1)
    case (Ok u)
    then have "w' = w1\<lparr>fd_dispatch := (fd_dispatch w)(ee_fd ev \<mapsto> sid),
       subscriber_watch_list := (subscriber_watch_list w)(sid \<mapsto> watched w sid @ [ee_fd ev])\<rparr>" "r = Ok ()"
      using assms(4) None ctl k by (auto simp: ops_add_def ops_ctl_def abind_def Let_def)
    then show ?thesis using assms(1-3) k Ok None unfolding wrapper_ok_def by (auto split: option.splits)
  next
    case (Err e)
    then have "w' = w1" "r = Err e" using assms(4) None ctl by (auto simp: ops_add_def ops_ctl_def abind_def Let_def)
    then show ?thesis using assms(1) k Err unfolding wrapper_ok_def by auto
  qed (use k in simp)
qed (use assms in \<open>auto simp: ops_add_def\<close>)

lemma ops_modify_ok:
  assumes "wrapper_ok interest ch ids n w" "ch \<noteq> Some (ee_fd ev)" "ops_modify os ev w = (r, w')"
  shows "wrapper_ok interest ch ids n w' \<and> r \<noteq> Panic"
proof -
  from wrapper_ctl_effect [of CtlModify "ee_fd ev" ev w r w'] assms(3)
  obtain k where k: "w' = w\<lparr>epoll := (epoll w)\<lparr>kernel := k\<rparr>\<rparr>" "r \<noteq> Panic"
    "if r = Ok () then interest (kernel (epoll w)) (ee_fd ev) \<noteq> None \<and> interest k = (interest (kernel (epoll w)))(ee_fd ev \<mapsto> ev)
     else interest k = interest (kernel (epoll w))" by (auto simp: ops_modify_def ops_ctl_def)
  then show ?thesis using assms(1,2) unfolding wrapper_ok_def by (auto split: if_splits)
qed

lemma ops_remove_ok:
  assumes "wrapper_ok interest ch ids n w" "ops_remove os sid ev w = (r, w')"
  shows "wrapper_ok interest ch ids n w' \<and> r \<noteq> Panic"
proof -
  obtain r1 w1 where ctl: "wrapper_ctl os CtlDelete (ee_fd ev) ev w = (r1, w1)" by fastforce
  from wrapper_ctl_effect [OF this] obtain k where k: "w1 = w\<lparr>epoll := (epoll w)\<lparr>kernel := k\<rparr>\<rparr>" "r1 \<noteq> Panic"
    "interest k = (interest (kernel (epoll w)))(ee_fd ev := None)" by auto
  show ?thesis
  proof (cases r1)
    case (Ok u)
    let ?w = "remove_event (ee_fd ev) w1"
    have ok: "wrapper_ok interest ch ids n ?w" unfolding k(1) using assms(1) k(3) by (rule wrapper_ok_remove_event)
    have gone: "fd_dispatch ?w (ee_fd ev) = None" by (simp add: remove_event_def)
    have "r = Ok ()" "w' = (case subscriber_watch_list ?w sid of
       Some l \<Rightarrow> ?w\<lparr>subscriber_watch_list := (subscriber_watch_list ?w)(sid \<mapsto> remove1 (ee_fd ev) l)\<rparr> | None \<Rightarrow> ?w)"
      using assms(2) ctl Ok by (auto simp: ops_remove_def ops_ctl_def abind_def Let_def)
    then show ?thesis using wrapper_ok_forget [OF ok gone] ok by (auto split: option.splits)
  next
    case (Err e)
    then have "w' = w1" "r = Err e" using assms(2) ctl by (auto simp: ops_remove_def ops_ctl_def abind_def)
    then show ?thesis using assms(1) k Err unfolding wrapper_ok_def by (auto split: if_splits)
  qed (use k in simp)
qed

lemma run_session_ok:
  assumes "wrapper_ok interest ch ids n w" "sid \<in> ids" "well_behaved ch ses" "run_session os sid ses w = (r, w')"
  shows "wrapper_ok interest ch ids n w' \<and> (\<exists>s. r = Ok s)"
  using assms
proof (induction ses arbitrary: w)
  case (AddEvents ev k)
  obtain r1 w1 where s: "ops_add os sid ev w = (r1, w1)" by fastforce
  have "wrapper_ok interest ch ids n w1" using ops_add_ok [OF AddEvents.prems(1,2) _ s] AddEvents.prems(3) by simp
  then show ?case using AddEvents.IH [OF rangeI, of w1 r1] AddEvents.prems s by simp
next
  case (ModifyEvents ev k)
  obtain r1 w1 where s: "ops_modify os ev w = (r1, w1)" by fastforce
  have "wrapper_ok interest ch ids n w1" using ops_modify_ok [OF ModifyEvents.prems(1) _ s] ModifyEvents.prems(3) by simp
  then show ?case using ModifyEvents.IH [OF rangeI, of w1 r1] ModifyEvents.prems s by simp
next
  case (RemoveEvents ev k)
  obtain r1 w1 where s: "ops_remove os sid ev w = (r1, w1)" by fastforce
  have "wrapper_ok interest ch ids n w1" using ops_remove_ok [OF RemoveEvents.prems(1) s] RemoveEvents.prems(3) by simp
  then show ?case using RemoveEvents.IH [OF rangeI, of w1 r1] RemoveEvents.prems s by simp
qed (auto simp: alift_def)

lemma remove_fds_ok:
  assumes "wrapper_ok interest ch ids n w"
  shows "wrapper_ok interest ch ids n (remove_fds os fds w)"
  using assms
proof (induction fds arbitrary: w)
  case (Cons fd fds)
  obtain r1 w1 where ctl: "wrapper_ctl os CtlDelete fd default_event w = (r1, w1)" by fastforce
  from wrapper_ctl_effect [OF this] obtain k where k: "w1 = w\<lparr>epoll := (epoll w)\<lparr>kernel := k\<rparr>\<rparr>"
    "interest k = (interest (kernel (epoll w)))(fd := None)" by auto
  have "wrapper_ok interest ch ids n (remove_event fd w1)"
    unfolding k(1) using Cons.prems k(2) by (rule wrapper_ok_remove_event)
  then show ?case using Cons.IH ctl by simp
qed simp

end

section \<open>Clients\<close>

definition em_ok :: "'k os \<Rightarrow> ('k \<Rightarrow> raw_fd \<rightharpoonup> epoll_event) \<Rightarrow> nat \<Rightarrow> ('k, 's) event_manager \<Rightarrow> bool" where
  "em_ok os interest n m \<longleftrightarrow>
    wrapper_ok interest (channel m) (dom (sb_map (subscribers m))) n (epoll_context m) \<and>
    (\<forall>c. channel m = Some c \<longrightarrow> c = fst (sys_eventfd os))"

datatype 's em_call =
    AddSubscriber 's
  | RemoveSubscriber subscriber_id
  | UpdateSubscriber subscriber_id "'s \<Rightarrow> 's"
  | UseEventOps subscriber_id "unit session"

definition update_subscriber :: "subscriber_id \<Rightarrow> ('s \<Rightarrow> 's) \<Rightarrow> ('k, 's, unit) em_act" where
  "update_subscriber sid f m = abind (alift (subscriber_mut sid m)) (\<lambda>s m. (Ok (),
    m\<lparr>subscribers := (subscribers m)\<lparr>sb_map := (sb_map (subscribers m))(sid \<mapsto> f s)\<rparr>\<rparr>)) m"

fun em_call_run :: "'k os \<Rightarrow> 's subscriber \<Rightarrow> 's em_call \<Rightarrow> ('k, 's, unit) em_act" where
  "em_call_run os sub (AddSubscriber s) = abind (add_subscriber os sub s) (\<lambda>_. alift (Ok ()))"
| "em_call_run os sub (RemoveSubscriber sid) = abind (remove_subscriber os sid) (\<lambda>_. alift (Ok ()))"
| "em_call_run os sub (UpdateSubscriber sid f) = update_subscriber sid f"
| "em_call_run os sub (UseEventOps sid ses) = event_ops os sid ses"

text \<open>A client sees the errors of its calls and goes on.\<close>

datatype 's em_op = Call "'s em_call" | RunLoop "32 word" "'s em_call list list"

definition remote_call :: "'k os \<Rightarrow> 's subscriber \<Rightarrow> 's em_call list \<Rightarrow> ('k, 's, unit) fn_msg" where
  "remote_call os sub cs = \<lparr>fnbox = run_calls (em_call_run os sub) cs, wants_reply = True\<rparr>"

fun em_op_run :: "'k os \<Rightarrow> 's subscriber \<Rightarrow> 's em_op \<Rightarrow> ('k, 's, unit) em_act" where
  "em_op_run os sub (Call c) = em_call_run os sub c"
| "em_op_run os sub (RunLoop timeout remote) =
    abind (run_with_timeout os sub (map (remote_call os sub) remote) timeout) (\<lambda>_. alift (Ok ()))"

fun call_ok :: "raw_fd option \<Rightarrow> 's em_call \<Rightarrow> bool" where
  "call_ok ch (UseEventOps sid ses) = well_behaved ch ses"
| "call_ok ch _ = True"

fun op_ok :: "raw_fd option \<Rightarrow> 's em_op \<Rightarrow> bool" where
  "op_ok ch (Call c) = call_ok ch c"
| "op_ok ch (RunLoop _ remote) = (\<forall>cs \<in> set remote. \<forall>c \<in> set cs. call_ok ch c)"

definition subscriber_ok :: "raw_fd option \<Rightarrow> 's subscriber \<Rightarrow> bool" where
  "subscriber_ok ch sub \<longleftrightarrow> (\<forall>s. well_behaved ch (sub_init sub s)) \<and>
    (\<forall>s ev. ch \<noteq> Some (ee_fd ev) \<longrightarrow> well_behaved ch (sub_process sub s ev))"

lemma remove_fds_effect [simp]:
  "subscriber_watch_list (remove_fds os fds w) = subscriber_watch_list w"
  "fd_dispatch (remove_fds os fds w) = (\<lambda>fd. if fd \<in> set fds then None else fd_dispatch w fd)"
  "ready_events (remove_fds os fds w) = map (\<lambda>ev. if ee_fd ev \<in> set fds then default_event else ev) (ready_events w)"
proof -
  show "subscriber_watch_list (remove_fds os fds w) = subscriber_watch_list w"
    by (induction fds arbitrary: w) (auto simp: wrapper_ctl_def remove_event_def split: prod.splits)
  show "fd_dispatch (remove_fds os fds w) = (\<lambda>fd. if fd \<in> set fds then None else fd_dispatch w fd)"
    by (induction fds arbitrary: w) (auto simp: wrapper_ctl_def remove_event_def fun_eq_iff split: prod.splits)
  show "ready_events (remove_fds os fds w) = map (\<lambda>ev. if ee_fd ev \<in> set fds then default_event else ev) (ready_events w)"
    by (induction fds arbitrary: w) (auto simp: wrapper_ctl_def remove_event_def split: prod.splits)
qed

lemma remove_fds_watch_list:
  "remove_fds os fds (w\<lparr>subscriber_watch_list := l\<rparr>) = (remove_fds os fds w)\<lparr>subscriber_watch_list := l\<rparr>"
proof (induction fds arbitrary: w)
  case (Cons fd fds)
  have "remove_event fd (snd (wrapper_ctl os CtlDelete fd default_event (w\<lparr>subscriber_watch_list := l\<rparr>))) =
    (remove_event fd (snd (wrapper_ctl os CtlDelete fd default_event w)))\<lparr>subscriber_watch_list := l\<rparr>"
    by (simp add: wrapper_ctl_def remove_event_def split: prod.splits)
  then show ?case using Cons.IH by simp
qed simp

lemma wrapper_ok_drop:
  assumes "wrapper_ok interest ch ids n w" "\<And>fd. fd_dispatch w fd \<noteq> Some sid"
  shows "wrapper_ok interest ch (ids - {sid}) n (w\<lparr>subscriber_watch_list := (subscriber_watch_list w)(sid := None)\<rparr>)"
proof -
  have "watched (w\<lparr>subscriber_watch_list := (subscriber_watch_list w)(sid := None)\<rparr>) i = watched w i" if "i \<noteq> sid" for i
    using that by (simp add: watched_def)
  moreover have "i \<noteq> sid" if "fd_dispatch w fd = Some i" for fd i using that assms(2) by auto
  ultimately show ?thesis using assms(1) unfolding wrapper_ok_def by simp
qed

lemma subscriber_mut_not_Panic [simp]: "subscriber_mut sid m \<noteq> Panic"
  by (auto simp: subscriber_mut_def subscribers_contains_def get_mut_unchecked_def)

context epoll_kernel
begin

lemma with_subscriber_ok:
  assumes "em_ok os interest n m" "sid \<in> dom (sb_map (subscribers m))" "\<And>s. well_behaved (channel m) (f s)"
    "with_subscriber os sid f m = (r, m')"
  shows "em_ok os interest n m' \<and> channel m' = channel m \<and> r = Ok ()"
proof -
  from assms(2) obtain s where s: "sb_map (subscribers m) sid = Some s" by auto
  obtain r1 w1 where run: "run_session os sid (f s) (epoll_context m) = (r1, w1)" by fastforce
  have "wrapper_ok interest (channel m) (dom (sb_map (subscribers m))) n w1 \<and> (\<exists>s. r1 = Ok s)"
    using assms(1) by (intro run_session_ok [OF _ assms(2,3) run]) (simp add: em_ok_def)
  then obtain s1 where "r1 = Ok s1" "wrapper_ok interest (channel m) (dom (sb_map (subscribers m))) n w1" by auto
  moreover from this have "wrapper_ok interest (channel m) (insert sid (dom (sb_map (subscribers m)))) n w1"
    by (auto intro: wrapper_ok_mono)
  ultimately show ?thesis
    using assms(1,4) run s by (auto simp: with_subscriber_def get_mut_unchecked_def em_ok_def)
qed

lemma add_subscriber_ok:
  assumes "em_ok os interest n m" "\<And>s. well_behaved (channel m) (sub_init sub s)" "add_subscriber os sub s m = (r, m')"
  shows "em_ok os interest n m' \<and> channel m' = channel m \<and> r = Ok (next_id (subscribers m))"
proof -
  obtain t where t: "subscribers_add s (subscribers m) = (next_id (subscribers m), t)"
    "dom (sb_map t) = insert (next_id (subscribers m)) (dom (sb_map (subscribers m)))"
    by (auto simp: subscribers_add_def Let_def)
  obtain r1 m1 where run: "with_subscriber os (next_id (subscribers m)) (sub_init sub) (m\<lparr>subscribers := t\<rparr>) = (r1, m1)"
    by fastforce
  have "em_ok os interest n (m\<lparr>subscribers := t\<rparr>)"
    using assms(1) t(2) by (auto simp: em_ok_def intro: wrapper_ok_mono)
  then have "em_ok os interest n m1 \<and> channel m1 = channel m \<and> r1 = Ok ()"
    using with_subscriber_ok [OF _ _ _ run] assms(2) t(2) by simp
  then show ?thesis using assms(3) t(1) run by (auto simp: add_subscriber_def abind_def alift_def)
qed

lemma remove_subscriber_ok:
  assumes "em_ok os interest n m" "remove_subscriber os sid m = (r, m')"
  shows "em_ok os interest n m' \<and> channel m' = channel m \<and> r \<noteq> Panic"
proof (cases "sb_map (subscribers m) sid")
  case None
  then have "m\<lparr>subscribers := subscribers m\<lparr>sb_map := (sb_map (subscribers m))(sid := None)\<rparr>\<rparr> = m"
    by (auto simp: fun_upd_idem)
  then show ?thesis using None assms by (auto simp: remove_subscriber_def subscribers_remove_def)
next
  case (Some s)
  let ?w = "epoll_context m" and ?fds = "watched (epoll_context m) sid"
  have ok: "wrapper_ok interest (channel m) (dom (sb_map (subscribers m))) n (remove_fds os ?fds ?w)"
    using assms(1) by (intro remove_fds_ok) (simp add: em_ok_def)
  have gone: "fd_dispatch ?w fd = Some sid \<Longrightarrow> fd \<in> set ?fds" for fd
    using assms(1) by (auto simp: em_ok_def wrapper_ok_def)
  have "wrapper_ok interest (channel m) (dom (sb_map (subscribers m)) - {sid}) n (wrapper_remove os sid ?w)"
    unfolding wrapper_remove_def remove_fds_watch_list
    by (rule wrapper_ok_drop [OF ok, of sid, unfolded remove_fds_effect(1)]) (use gone in auto)
  moreover have "m' = m\<lparr>subscribers := subscribers m\<lparr>sb_map := (sb_map (subscribers m))(sid := None)\<rparr>,
      epoll_context := wrapper_remove os sid ?w\<rparr>" "r = Ok s"
    using assms(2) Some by (auto simp: remove_subscriber_def subscribers_remove_def)
  ultimately show ?thesis using assms(1) by (auto simp: em_ok_def)
qed

lemma em_call_keeps:
  fixes sub :: "'a subscriber"
  assumes "subscriber_ok ch sub" "call_ok ch c"
  shows "keeps (\<lambda>m. em_ok os interest n m \<and> channel m = ch) (em_call_run os sub c)"
proof (rule keepsI)
  fix m :: "('k, 'a) event_manager" assume m: "em_ok os interest n m \<and> channel m = ch"
  show "(em_ok os interest n (snd (em_call_run os sub c m)) \<and> channel (snd (em_call_run os sub c m)) = ch) \<and>
    fst (em_call_run os sub c m) \<noteq> Panic"
  proof (cases c)
    case (AddSubscriber s)
    obtain r m' where run: "add_subscriber os sub s m = (r, m')" by fastforce
    show ?thesis using add_subscriber_ok [OF _ _ run] m assms(1) run AddSubscriber
      by (auto simp: subscriber_ok_def abind_def alift_def)
  next
    case (RemoveSubscriber sid)
    obtain r m' where run: "remove_subscriber os sid m = (r, m')" by fastforce
    show ?thesis using remove_subscriber_ok [OF _ run] m run RemoveSubscriber
      by (auto simp: abind_def alift_def split: result.splits)
  next
    case (UpdateSubscriber sid f)
    then show ?thesis using m
      by (cases "subscriber_mut sid m")
        (auto simp: update_subscriber_def em_ok_def subscriber_mut_def subscribers_contains_def get_mut_unchecked_def insert_absorb domIff
          split: if_splits)
  next
    case (UseEventOps sid ses)
    obtain r w where run: "run_session os sid ses (epoll_context m) = (r, w)" by fastforce
    show ?thesis using run_session_ok [OF _ _ _ run] m assms(2) run UseEventOps
      by (auto simp: event_ops_def subscribers_contains_def em_ok_def)
  qed
qed

end

section \<open>Delivery of a batch\<close>

primrec removes :: "'k os \<Rightarrow> subscriber_id \<Rightarrow> 's session \<Rightarrow> 'k epoll_wrapper \<Rightarrow> raw_fd list" where
  "removes os sid (Return s) w = []"
| "removes os sid Abort w = []"
| "removes os sid (AddEvents ev k) w = (case ops_add os sid ev w of (r, w) \<Rightarrow> removes os sid (k r) w)"
| "removes os sid (ModifyEvents ev k) w = (case ops_modify os ev w of (r, w) \<Rightarrow> removes os sid (k r) w)"
| "removes os sid (RemoveEvents ev k) w = (case ops_remove os sid ev w of (r, w) \<Rightarrow>
    (if r = Ok () then [ee_fd ev] else []) @ removes os sid (k r) w)"

definition removed_by :: "'k os \<Rightarrow> 's subscriber \<Rightarrow> subscriber_id \<Rightarrow> epoll_event \<Rightarrow> ('k, 's) event_manager \<Rightarrow> raw_fd list" where
  "removed_by os sub sid ev m = (case sb_map (subscribers m) sid of
     Some s \<Rightarrow> removes os sid (sub_process sub s ev) (epoll_context m)
   | None \<Rightarrow> [])"

function deliver :: "'k os \<Rightarrow> 's subscriber \<Rightarrow> epoll_event list \<Rightarrow> epoll_event option \<Rightarrow> ('k, 's, epoll_event option) em_act" where
  "deliver os sub [] endpoint m = (Ok endpoint, m)"
| "deliver os sub (ev # evs) endpoint m = (case fd_dispatch (epoll_context m) (ee_fd ev) of
     Some sid \<Rightarrow> abind (with_subscriber os sid (\<lambda>s. sub_process sub s ev))
       (\<lambda>_. deliver os sub (filter (\<lambda>e. ee_fd e \<notin> set (removed_by os sub sid ev m)) evs) endpoint) m
   | None \<Rightarrow> if channel m = Some (ee_fd ev) then deliver os sub evs (Some ev) m else (Panic, m))"
  by pat_completeness auto
termination
  by (relation "measure (\<lambda>(os, sub, evs, _). length evs)") (auto simp: le_imp_less_Suc)

definition zero_events :: "raw_fd set \<Rightarrow> epoll_event list \<Rightarrow> epoll_event list" where
  "zero_events F = map (\<lambda>ev. if ee_fd ev \<in> F then default_event else ev)"

lemma ops_ready_events:
  "ops_add os sid ev w = (r, w') \<Longrightarrow> ready_events w' = ready_events w"
  "ops_modify os ev w = (r, w') \<Longrightarrow> ready_events w' = ready_events w"
  "ops_remove os sid ev w = (r, w') \<Longrightarrow>
    ready_events w' = zero_events (if r = Ok () then {ee_fd ev} else {}) (ready_events w)"
  by (auto simp: ops_add_def ops_modify_def ops_remove_def ops_ctl_def wrapper_ctl_def abind_def Let_def remove_event_def
      zero_events_def split: prod.splits if_splits result.splits option.splits)

lemma zero_events_zero_events: "zero_events F (zero_events G evs) = zero_events (F \<union> G) evs"
  by (auto simp: zero_events_def)

lemma run_session_ready_events:
  "run_session os sid ses w = (r, w') \<Longrightarrow> ready_events w' = zero_events (set (removes os sid ses w)) (ready_events w)"
proof (induction ses arbitrary: w)
  case (AddEvents ev k)
  obtain r1 w1 where op: "ops_add os sid ev w = (r1, w1)" by fastforce
  show ?case using AddEvents.IH [OF rangeI, of r1 w1] AddEvents.prems op ops_ready_events(1) [OF op]
    by (simp add: zero_events_zero_events Un_commute)
next
  case (ModifyEvents ev k)
  obtain r1 w1 where op: "ops_modify os ev w = (r1, w1)" by fastforce
  show ?case using ModifyEvents.IH [OF rangeI, of r1 w1] ModifyEvents.prems op ops_ready_events(2) [OF op]
    by (simp add: zero_events_zero_events Un_commute)
next
  case (RemoveEvents ev k)
  obtain r1 w1 where op: "ops_remove os sid ev w = (r1, w1)" by fastforce
  show ?case using RemoveEvents.IH [OF rangeI, of r1 w1] RemoveEvents.prems op ops_ready_events(3) [OF op]
    by (simp add: zero_events_zero_events Un_commute)
qed (auto simp: alift_def zero_events_def)

lemma with_subscriber_ready_events:
  assumes "with_subscriber os sid (\<lambda>s. sub_process sub s ev) m = (r, m')"
  shows "ready_events (epoll_context m') = zero_events (set (removed_by os sub sid ev m)) (ready_events (epoll_context m))"
proof (cases "sb_map (subscribers m) sid")
  case (Some s)
  obtain r1 w1 where run: "run_session os sid (sub_process sub s ev) (epoll_context m) = (r1, w1)" by fastforce
  then show ?thesis using run_session_ready_events [OF run] assms Some
    by (cases r1) (auto simp: with_subscriber_def removed_by_def get_mut_unchecked_def)
qed (use assms in \<open>auto simp: with_subscriber_def removed_by_def get_mut_unchecked_def zero_events_def\<close>)

lemma filter_zero_events:
  "filter (\<lambda>e. \<not> discarded e) (zero_events F evs) = filter (\<lambda>e. ee_fd e \<notin> F) (filter (\<lambda>e. \<not> discarded e) evs)"
  by (induction evs) (auto simp: zero_events_def)

definition pending :: "nat \<Rightarrow> nat \<Rightarrow> ('k, 's) event_manager \<Rightarrow> epoll_event list" where
  "pending i n m = filter (\<lambda>e. \<not> discarded e) (drop i (take n (ready_events (epoll_context m))))"

lemma dispatch_one_eq:
  assumes "i < length (ready_events (epoll_context m))"
  shows "dispatch_one os sub i endpoint m = (let event = ready_events (epoll_context m) ! i in
    if discarded event then (Ok endpoint, m)
    else case fd_dispatch (epoll_context m) (ee_fd event) of
      Some sid \<Rightarrow> abind (with_subscriber os sid (\<lambda>s. sub_process sub s event)) (\<lambda>_. alift (Ok endpoint)) m
    | None \<Rightarrow> if channel m = Some (ee_fd event) then (Ok (Some event), m) else (Panic, m))"
  using assms by (simp add: dispatch_one_def discarded_def Let_def)

lemma dispatch_loop_delivers:
  "n \<le> length (ready_events (epoll_context m)) \<Longrightarrow>
    afold (dispatch_one os sub) [i..<n] endpoint m = deliver os sub (pending i n m) endpoint m"
proof (induction "n - i" arbitrary: i endpoint m)
  case 0
  then show ?case by (simp add: pending_def alift_def)
next
  case (Suc d)
  let ?evs = "ready_events (epoll_context m)"
  from Suc have i: "i < n" "i < length ?evs" and upt: "[i..<n] = i # [Suc i..<n]" by (auto simp: upt_conv_Cons)
  have drop: "drop i (take n ?evs) = ?evs ! i # drop (Suc i) (take n ?evs)"
    using i by (metis Cons_nth_drop_Suc length_take min_less_iff_conj nth_take)
  note IH = Suc.hyps(1) [of "Suc i"]
  show ?case
  proof (cases "discarded (?evs ! i)")
    case True
    then show ?thesis using IH [of m endpoint] Suc.prems Suc.hyps(2) i upt drop
      by (simp add: abind_def pending_def dispatch_one_eq)
  next
    case False
    then have p: "pending i n m = ?evs ! i # pending (Suc i) n m" by (simp add: pending_def drop)
    show ?thesis
    proof (cases "fd_dispatch (epoll_context m) (ee_fd (?evs ! i))")
      case None
      then show ?thesis using IH [of m "Some (?evs ! i)"] Suc.prems Suc.hyps(2) i upt False
        by (simp add: abind_def p dispatch_one_eq)
    next
      case (Some sid)
      obtain r m' where run: "with_subscriber os sid (\<lambda>s. sub_process sub s (?evs ! i)) m = (r, m')" by fastforce
      note ready = with_subscriber_ready_events [OF run]
      have "pending (Suc i) n m' = filter (\<lambda>e. ee_fd e \<notin> set (removed_by os sub sid (?evs ! i) m)) (pending (Suc i) n m)"
        unfolding pending_def ready filter_zero_events [symmetric] by (simp add: zero_events_def take_map drop_map)
      moreover have "n \<le> length (ready_events (epoll_context m'))"
        using Suc.prems by (simp add: ready zero_events_def)
      ultimately show ?thesis using IH [of m' endpoint] Suc.hyps(2) i upt False Some run
        by (cases r) (simp_all add: abind_def alift_def p dispatch_one_eq)
    qed
  qed
qed

lemma ucast_scast_fd [simp]: "ucast (scast fd :: u64) = fd" for fd :: raw_fd
proof (rule bit_word_eqI)
  fix n assume "n < LENGTH(32)"
  then have "n < 31 \<or> n = 31" by auto
  then show "bit (ucast (scast fd :: u64) :: raw_fd) n = bit fd n"
    by (auto simp: bit_unsigned_iff bit_signed_iff)
qed

lemma ucast_plus: "(ucast (a + b :: u64) :: raw_fd) = ucast a + ucast b"
proof -
  have "unat (ucast (a + b :: u64) :: raw_fd) = unat (ucast a + ucast b :: raw_fd)"
    by (simp add: unsigned_ucast_eq take_bit_eq_mod unat_word_ariths mod_mod_cancel mod_simps)
  then show ?thesis by (simp only: word_unat_eq_iff)
qed

lemma ee_fd_with_data_raw: "ee_fd (with_data_raw source dat events) = source"
proof -
  have "ucast (push_bit 32 (ucast dat) :: u64) = (0 :: raw_fd)"
    by (rule bit_word_eqI) (simp add: bit_unsigned_iff bit_push_bit_iff)
  then show ?thesis by (simp add: ee_fd_def with_data_raw_def ucast_plus)
qed

lemma ev_data_with_data_raw:
  assumes "0 \<le> sint source"
  shows "ev_data (with_data_raw source dat events) = dat"
proof -
  have neg: "\<not> bit source 31" using assms bit_last_iff [of source] by simp
  have low: "\<not> bit (scast source :: u64) (n + 32)" for n using neg by (simp add: bit_signed_iff)
  have "push_bit 32 (ucast dat) AND (scast source :: u64) = 0"
  proof (rule bit_word_eqI)
    fix n show "bit (push_bit 32 (ucast dat) AND (scast source :: u64)) n = bit (0 :: u64) n"
      using low [of "n - 32"] by (auto simp: bit_and_iff bit_push_bit_iff)
  qed
  then have "push_bit 32 (ucast dat) + (scast source :: u64) = push_bit 32 (ucast dat) OR scast source"
    by (rule disjunctive_add_eq_or)
  then show ?thesis using low
    by (auto simp: ev_data_def with_data_raw_def bit_unsigned_iff bit_drop_bit_eq bit_or_iff bit_push_bit_iff add.commute intro!: bit_word_eqI)
qed

lemma event_set_IN [simp]: "ee_events ev = EVENT_IN \<Longrightarrow> event_set ev = Ok EVENT_IN"
  by (simp add: event_set_def EVENT_IN_def EVENT_ALL_def)

context epoll_kernel
begin

lemma new_with_capacity_ok:
  assumes "new_with_capacity os remote capacity = Ok m"
  shows "em_ok os interest 0 m"
proof -
  obtain ret err k where new: "sys_epoll_create1 os = (ret, err, k)" by (metis prod.exhaust)
  let ?w = "\<lparr>epoll = \<lparr>epoll_fd = ret, kernel = k\<rparr>, fd_dispatch = Map.empty, subscriber_watch_list = Map.empty,
        ready_events = replicate capacity default_event\<rparr>"
  from assms new have w: "epoll_wrapper_new os capacity = Ok ?w" "ret \<noteq> - 1"
    by (auto simp: new_with_capacity_def epoll_wrapper_new_def epoll_new_def into_result_def rbind_eq_Ok_iff split: if_splits)
  note empty = create [OF new w(2)]
  show ?thesis
  proof (cases remote)
    case False
    then have "m = \<lparr>subscribers = subscribers_new, epoll_context = ?w, channel = None\<rparr>"
      using assms w(1) by (simp add: new_with_capacity_def split: if_splits)
    then show ?thesis using empty by (simp add: em_ok_def wrapper_ok_def)
  next
    case True
    let ?fd = "fst (sys_eventfd os)" and ?ev = "\<lparr>ee_events = EVENT_IN, ee_data = scast (fst (sys_eventfd os))\<rparr>"
    obtain r w' where ctl: "wrapper_ctl os CtlAdd ?fd ?ev ?w = (r, w')" by fastforce
    have m: "m = \<lparr>subscribers = subscribers_new, epoll_context = w', channel = Some ?fd\<rparr>" "r = Ok ()"
      using assms w(1) True ctl
      by (auto simp: new_with_capacity_def into_result_def rbind_eq_Ok_iff split: if_splits)
    from wrapper_ctl_effect [OF ctl] show ?thesis
      using m empty by (auto simp: em_ok_def wrapper_ok_def ee_fd_def split: if_splits)
  qed
qed

lemma poll_ok:
  assumes "wrapper_ok interest ch ids n w" "\<And>c. ch = Some c \<Longrightarrow> c = fst (sys_eventfd os)" "poll os timeout w = (r, w')"
  shows "r \<noteq> Panic \<and> wrapper_ok interest ch ids (case r of Ok count \<Rightarrow> count | _ \<Rightarrow> 0) w'"
proof -
  obtain ret err evs k where call: "sys_epoll_wait os (epoll_fd (epoll w)) (length (ready_events w)) timeout (kernel (epoll w)) =
      ((ret, err, evs), k)" by (metis prod.exhaust)
  have w': "w' = w\<lparr>epoll := (epoll w)\<lparr>kernel := k\<rparr>, ready_events := evs @ drop (length evs) (ready_events w)\<rparr>"
    using assms(3) call by (auto simp: poll_def epoll_wait_def split: result.splits)
  note kept = wait_keeps [OF call]
  have events: "fd_dispatch w (ee_fd ev) \<noteq> None \<or> ch = Some (ee_fd ev) \<and> ee_events ev = EVENT_IN" if "ev \<in> set evs" for ev
  proof -
    from wait_events [OF call that] obtain fd reg where reg: "interest (kernel (epoll w)) fd = Some reg" "ee_data ev = ee_data reg"
      "fd = fst (sys_eventfd os) \<longrightarrow> ee_events reg = EVENT_IN \<longrightarrow> ee_events ev = EVENT_IN" by auto
    have "ee_fd ev = ee_fd reg" using reg(2) by (simp add: ee_fd_def)
    then show ?thesis using assms(1,2) reg unfolding wrapper_ok_def by metis
  qed
  have ok: "wrapper_ok interest ch ids j w'" if "j \<le> length evs" for j
  proof -
    have "set (take j (ready_events w')) \<subseteq> set evs" using that by (auto simp: w' dest: in_set_takeD)
    moreover have "interest k fd = Some reg \<Longrightarrow> interest (kernel (epoll w)) fd = Some reg" for fd reg
      using kept by (auto simp: map_le_def dom_def)
    ultimately show ?thesis using assms(1) events that kept unfolding wrapper_ok_def by (auto simp: w')
  qed
  have "r = (if ret = - 1 then if err = EINTR then Ok 0 else Err (Epoll err) else Ok (length evs))"
    using assms(3) call wait_count [OF call] by (auto simp: poll_def epoll_wait_def into_result_def)
  then show ?thesis using ok by auto
qed

lemma dispatch_one_ok:
  assumes "subscriber_ok (channel m) sub" "em_ok os interest n m" "i < n" "dispatch_one os sub i endpoint m = (r, m')"
    "\<And>ev. endpoint = Some ev \<Longrightarrow> ee_events ev = EVENT_IN"
  shows "(em_ok os interest n m' \<and> channel m' = channel m) \<and> r \<noteq> Panic \<and>
    (\<forall>b. r = Ok b \<longrightarrow> (\<forall>ev. b = Some ev \<longrightarrow> ee_events ev = EVENT_IN))"
proof -
  let ?ev = "ready_events (epoll_context m) ! i"
  have n: "n \<le> length (ready_events (epoll_context m))" using assms(2) by (simp add: em_ok_def wrapper_ok_def)
  then have "?ev \<in> set (take n (ready_events (epoll_context m)))"
    using assms(3) by (metis in_set_conv_nth length_take min_less_iff_conj nth_take order_less_le_trans)
  then have ev: "discarded ?ev \<or> fd_dispatch (epoll_context m) (ee_fd ?ev) \<noteq> None \<or>
    channel m = Some (ee_fd ?ev) \<and> ee_events ?ev = EVENT_IN"
    using assms(2) by (auto simp: em_ok_def wrapper_ok_def)
  show ?thesis
  proof (cases "discarded ?ev \<or> fd_dispatch (epoll_context m) (ee_fd ?ev) = None")
    case True
    then show ?thesis using assms n ev by (auto simp: dispatch_one_eq Let_def split: if_splits)
  next
    case False
    then obtain sid where sid: "fd_dispatch (epoll_context m) (ee_fd ?ev) = Some sid" by auto
    then have "sid \<in> dom (sb_map (subscribers m))" "channel m \<noteq> Some (ee_fd ?ev)"
      using assms(2) unfolding em_ok_def by (blast dest: wrapper_okD(1), blast dest: wrapper_okD(2))
    moreover obtain r1 m1 where run: "with_subscriber os sid (\<lambda>s. sub_process sub s ?ev) m = (r1, m1)" by fastforce
    ultimately have "em_ok os interest n m1 \<and> channel m1 = channel m \<and> r1 = Ok ()"
      using with_subscriber_ok [OF assms(2) _ _ run] assms(1) by (simp add: subscriber_ok_def)
    then show ?thesis using assms n False sid run by (auto simp: dispatch_one_eq Let_def abind_def alift_def)
  qed
qed

lemma run_with_timeout_keeps:
  assumes "subscriber_ok ch sub" "\<And>msg n. msg \<in> set msgs \<Longrightarrow> keeps (\<lambda>m. em_ok os interest n m \<and> channel m = ch) (fnbox msg)"
    "em_ok os interest 0 m" "channel m = ch" "run_with_timeout os sub msgs timeout m = (r, m')"
  shows "em_ok os interest 0 m' \<and> channel m' = ch \<and> r \<noteq> Panic"
proof -
  obtain r1 w where poll: "poll os timeout (epoll_context m) = (r1, w)" by fastforce
  have "r1 \<noteq> Panic \<and> wrapper_ok interest ch (dom (sb_map (subscribers m))) (case r1 of Ok count \<Rightarrow> count | _ \<Rightarrow> 0) w"
    using assms(3,4) by (intro poll_ok [OF _ _ poll]) (auto simp: em_ok_def)
  then have m1: "em_ok os interest (case r1 of Ok count \<Rightarrow> count | _ \<Rightarrow> 0) (m\<lparr>epoll_context := w\<rparr>)" "r1 \<noteq> Panic"
    using assms(3,4) by (auto simp: em_ok_def)
  show ?thesis
  proof (cases r1)
    case (Ok count)
    let ?I = "\<lambda>m. em_ok os interest count m \<and> channel m = ch" and ?Q = "\<lambda>b. \<forall>ev. b = Some ev \<longrightarrow> ee_events ev = EVENT_IN"
    obtain r2 m2 where loop: "afold (dispatch_one os sub) [0..<count] None (m\<lparr>epoll_context := w\<rparr>) = (r2, m2)" by fastforce
    have "?I m2 \<and> r2 \<noteq> Panic \<and> (\<forall>b. r2 = Ok b \<longrightarrow> ?Q b)"
    proof (rule afold_inv [OF _ _ _ loop])
      fix i b m r m' assume "i \<in> set [0..<count]" "?I m" "?Q b" "dispatch_one os sub i b m = (r, m')"
      then show "?I m' \<and> r \<noteq> Panic \<and> (\<forall>b. r = Ok b \<longrightarrow> ?Q b)"
        using dispatch_one_ok [of m sub count i b r m'] assms(1) by auto
    qed (use m1(1) Ok assms(4) in auto)
    moreover have "keeps ?I (handle_endpoint_calls msgs)"
      unfolding handle_endpoint_calls_def handle_msg_def using assms(2) by (intro afold_keeps keeps_abind keeps_alift) auto
    ultimately have end_loop: "?I m2" "r2 \<noteq> Panic" "\<And>b. r2 = Ok b \<Longrightarrow> keeps ?I (dispatch_endpoint_event msgs b)"
      by (auto simp: dispatch_endpoint_event_def split: option.splits)
    obtain r3 m3 where fin: "dispatch_events os sub msgs count (m\<lparr>epoll_context := w\<rparr>) = (r3, m3)" by fastforce
    have "?I m3 \<and> r3 \<noteq> Panic"
    proof (cases r2)
      case (Ok b)
      then have "dispatch_endpoint_event msgs b m2 = (r3, m3)" using fin loop by (simp add: dispatch_events_def abind_def)
      with keepsD [OF end_loop(3) [OF Ok] end_loop(1)] show ?thesis by simp
    qed (use end_loop(1,2) fin loop in \<open>auto simp: dispatch_events_def abind_def\<close>)
    moreover have "m' = m3" "r = Panic \<longleftrightarrow> r3 = Panic"
      using assms(5) poll Ok fin by (auto simp: run_with_timeout_def abind_def alift_def split: result.splits)
    ultimately show ?thesis using wrapper_ok_fewer [of _ _ _ count _ 0] by (auto simp: em_ok_def)
  next
    case (Err e)
    then show ?thesis using assms(4,5) poll m1(1) by (auto simp: run_with_timeout_def)
  qed (use m1 in simp)
qed

end

context epoll_kernel
begin

lemma remove_fds_interest:
  "interest (kernel (epoll (remove_fds os fds w))) = (\<lambda>fd. if fd \<in> set fds then None else interest (kernel (epoll w)) fd)"
proof (induction fds arbitrary: w)
  case (Cons fd fds)
  obtain r1 w1 where ctl: "wrapper_ctl os CtlDelete fd default_event w = (r1, w1)" by fastforce
  from wrapper_ctl_effect [OF this]
  have "interest (kernel (epoll (remove_event fd w1))) = (interest (kernel (epoll w)))(fd := None)"
    by (auto simp: remove_event_def)
  then show ?case using Cons.IH [of "remove_event fd w1"] ctl by (auto simp: fun_eq_iff)
qed simp

lemma client_ok:
  assumes "subscriber_ok ch sub" "\<forall>c \<in> set ops. op_ok ch c" "em_ok os interest 0 m" "channel m = ch"
    "run_calls (em_op_run os sub) ops m = (r, m')"
  shows "r \<noteq> Panic \<and> em_ok os interest 0 m'"
proof -
  let ?I = "\<lambda>m. em_ok os interest 0 m \<and> channel m = ch"
  have "keeps ?I (em_op_run os sub c)" if "op_ok ch c" for c
  proof (cases c)
    case (RunLoop timeout remote)
    have msgs: "keeps (\<lambda>m. em_ok os interest n m \<and> channel m = ch) (fnbox msg)"
      if "msg \<in> set (map (remote_call os sub) remote)" for msg n
      using that \<open>op_ok ch c\<close> RunLoop em_call_keeps [OF assms(1)]
      by (auto simp: remote_call_def intro!: run_calls_keeps)
    show ?thesis unfolding RunLoop em_op_run.simps
    proof (intro keeps_abind keeps_alift keepsI)
      fix m :: "('k, 'a) event_manager" assume m: "?I m"
      obtain r1 m1 where run: "run_with_timeout os sub (map (remote_call os sub) remote) timeout m = (r1, m1)" by fastforce
      with run_with_timeout_keeps [OF assms(1) msgs _ _ run] m
      show "?I (snd (run_with_timeout os sub (map (remote_call os sub) remote) timeout m)) \<and>
        fst (run_with_timeout os sub (map (remote_call os sub) remote) timeout m) \<noteq> Panic" by simp
    qed simp
  qed (use that em_call_keeps [OF assms(1)] in simp)
  then have "keeps ?I (run_calls (em_op_run os sub) ops)" using assms(2) by (intro run_calls_keeps) auto
  from keepsD [OF this, of m] show ?thesis using assms(3-5) by simp
qed

end

section \<open>An epoll instance\<close>

text \<open>
  The interest list of \<^verbatim>\<open>epoll(7)\<close>: an entry cannot be added twice, only an existing entry can be changed or
  removed, and a wait reports registered descriptors that are ready, with the data they were registered with.
\<close>

record epoll_sim =
  sim_regs :: "raw_fd \<rightharpoonup> epoll_event"
  sim_ready :: "(raw_fd \<times> u32) list"

definition sim_ctl :: "raw_fd \<Rightarrow> 32 word \<Rightarrow> raw_fd \<Rightarrow> epoll_event \<Rightarrow> epoll_sim \<Rightarrow> (32 word \<times> errno) \<times> epoll_sim" where
  "sim_ctl epfd op fd ev k =
    (if op = ctl_code CtlAdd then
       (if sim_regs k fd \<noteq> None then ((- 1, 17), k) else ((0, 0), k\<lparr>sim_regs := (sim_regs k)(fd \<mapsto> ev)\<rparr>))
     else if sim_regs k fd = None then ((- 1, 2), k)
     else ((0, 0), k\<lparr>sim_regs := (sim_regs k)(fd := (if op = ctl_code CtlDelete then None else Some ev))\<rparr>))"

definition sim_events :: "epoll_sim \<Rightarrow> epoll_event list" where
  "sim_events k = List.map_filter (\<lambda>(fd, bits). case sim_regs k fd of
      None \<Rightarrow> None
    | Some reg \<Rightarrow> if bits AND ee_events reg = 0 then None
        else Some \<lparr>ee_events = bits AND ee_events reg, ee_data = ee_data reg\<rparr>) (sim_ready k)"

definition sim_wait :: "raw_fd \<Rightarrow> nat \<Rightarrow> 32 word \<Rightarrow> epoll_sim \<Rightarrow> (32 word \<times> errno \<times> epoll_event list) \<times> epoll_sim" where
  "sim_wait epfd capacity timeout k = (let evs = take (min capacity 0x7fffffff) (sim_events k) in
    ((of_nat (length evs), 0, evs), k))"

definition sim_os :: "(raw_fd \<times> u32) list \<Rightarrow> epoll_sim os" where
  "sim_os ready = \<lparr>sys_epoll_create1 = (3, 0, \<lparr>sim_regs = Map.empty, sim_ready = ready\<rparr>),
     sys_epoll_ctl = sim_ctl, sys_epoll_wait = sim_wait, sys_eventfd = (4, 0)\<rparr>"

lemma and_EVENT_IN: "bits AND EVENT_IN = 0 \<or> bits AND EVENT_IN = EVENT_IN" for bits :: u32
  by (cases "even bits") (auto simp: EVENT_IN_def and_one_eq mod_2_eq_odd)

lemma sim_events_registered:
  assumes "ev \<in> set (sim_events k)"
  shows "ee_events ev \<noteq> 0 \<and> (\<exists>fd reg. sim_regs k fd = Some reg \<and> ee_data ev = ee_data reg \<and>
    (ee_events reg = EVENT_IN \<longrightarrow> ee_events ev = EVENT_IN))"
  using assms and_EVENT_IN
  by (fastforce simp: sim_events_def map_filter_def split: option.splits if_splits)

lemma sim_count:
  assumes "n \<le> 0x7fffffff"
  shows "unat (scast (of_nat n :: 32 word) :: u64) = n" "(of_nat n :: 32 word) \<noteq> - 1"
proof -
  have u: "unat (of_nat n :: 32 word) = n" using assms by (simp add: unsigned_of_nat take_bit_nat_eq_self)
  then show "(of_nat n :: 32 word) \<noteq> - 1" using assms by (auto dest!: arg_cong [where f = unat] simp: unsigned_minus_1_eq_mask mask_eq_exp_minus_1)
  have "sint (of_nat n :: 32 word) = int n"
    using assms by (simp add: signed_of_nat signed_take_bit_int_eq_self)
  then show "unat (scast (of_nat n :: 32 word) :: u64) = n"
    using assms by (simp add: scast_eq unsigned_of_nat take_bit_nat_eq_self)
qed

interpretation sim: epoll_kernel "sim_os ready" sim_regs
proof unfold_locales
  fix epfd :: raw_fd and capacity timeout k ret err evs k'
  assume w: "sys_epoll_wait (sim_os ready) epfd capacity timeout k = ((ret, err, evs), k')"
  let ?evs = "take (min capacity 0x7fffffff) (sim_events k)"
  from w have evs: "evs = ?evs" "k' = k" "ret = of_nat (length ?evs)"
    by (auto simp: sim_os_def sim_wait_def Let_def)
  show "sim_regs k' \<subseteq>\<^sub>m sim_regs k \<and> length evs \<le> capacity" by (simp add: evs)
  show "unat (scast ret :: u64) = length evs" unfolding evs by (rule sim_count) simp
  fix ev assume "ev \<in> set evs"
  then have "ev \<in> set (sim_events k)" unfolding evs by (rule in_set_takeD)
  from sim_events_registered [OF this] show "ee_events ev \<noteq> 0 \<and> (\<exists>fd reg. sim_regs k fd = Some reg \<and>
    ee_data ev = ee_data reg \<and> (fd = fst (sys_eventfd (sim_os ready)) \<longrightarrow> ee_events reg = EVENT_IN \<longrightarrow> ee_events ev = EVENT_IN))"
    by blast
qed (auto simp: sim_os_def sim_ctl_def fun_upd_idem split: if_splits)

section \<open>Properties\<close>


text \<open>A subscriber that watches one descriptor, counts its events and stops watching at the first.\<close>

definition once :: "nat subscriber" where
  "once = \<lparr>sub_init = (\<lambda>s. AddEvents (with_data_raw 5 7 EVENT_IN) (\<lambda>_. Return s)),
     sub_process = (\<lambda>s ev. RemoveEvents ev (\<lambda>_. Return (Suc s)))\<rparr>"

lemmas em_eval = em_call_run.simps em_op_run.simps add_subscriber_def remove_subscriber_def subscribers_add_def
  subscribers_remove_def subscribers_new_def with_subscriber_def get_mut_unchecked_def run_with_timeout_def poll_def
  epoll_wait_def dispatch_events_def dispatch_one_def dispatch_endpoint_event_def ops_add_def ops_modify_def ops_remove_def
  ops_ctl_def wrapper_ctl_def epoll_ctl_def into_empty_result_def into_result_def remove_event_def watched_def
  new_with_capacity_def epoll_wrapper_new_def epoll_new_def MAX_READY_EVENTS_CAPACITY_def sim_os_def sim_ctl_def sim_wait_def
  sim_events_def map_filter_simps default_event_def ee_fd_def with_data_raw_def EVENT_IN_def once_def abind_def alift_def
  Let_def event_ops_def subscribers_contains_def handle_endpoint_calls_def

definition demo :: "(epoll_sim, nat) event_manager" where
  "demo = \<lparr>subscribers = subscribers_new, epoll_context =
    \<lparr>epoll = \<lparr>epoll_fd = 3, kernel = \<lparr>sim_regs = [4 \<mapsto> \<lparr>ee_events = EVENT_IN, ee_data = 4\<rparr>], sim_ready = [(5, 0x11)]\<rparr>\<rparr>,
     fd_dispatch = Map.empty, subscriber_watch_list = Map.empty, ready_events = replicate 4 default_event\<rparr>, channel = Some 4\<rparr>"

lemma demo_new: "new_with_capacity (sim_os [(5, 0x11)]) True 4 = Ok demo"
  by (simp add: em_eval demo_def)

lemma once_ok: "subscriber_ok (channel demo) once"
  by (auto simp: subscriber_ok_def once_def demo_def ee_fd_with_data_raw)


text \<open>
C14. A turn of the loop hands out the events the kernel reported in their order, each to the subscriber that owns its
  descriptor at that moment, and an event of a descriptor that a callback of the same turn has removed is never
  delivered, even if the descriptor was added again; requests of remote endpoints are served after all events. The code walks an
  index over a buffer in which removed events are overwritten; the reference takes the events from a list and
  filters the rest after each callback.
\<close>
theorem batch_delivered_in_order:
  assumes "sys_epoll_wait os (epoll_fd (epoll (epoll_context m))) (length (ready_events (epoll_context m))) timeout
      (kernel (epoll (epoll_context m))) = ((ret, err, evs), k)"
    and "ret \<noteq> - 1" and "unat (scast ret :: u64) = length evs" and "length evs \<le> length (ready_events (epoll_context m))"
    and "\<forall>ev \<in> set evs. ee_events ev \<noteq> 0"
  shows "run_with_timeout os sub msgs timeout m =
    abind (abind (deliver os sub evs None) (dispatch_endpoint_event msgs)) (\<lambda>replies. alift (Ok (length evs, replies)))
      (m\<lparr>epoll_context := (epoll_context m)\<lparr>epoll := (epoll (epoll_context m))\<lparr>kernel := k\<rparr>,
         ready_events := evs @ drop (length evs) (ready_events (epoll_context m))\<rparr>\<rparr>)"
proof -
  let ?m = "m\<lparr>epoll_context := (epoll_context m)\<lparr>epoll := (epoll (epoll_context m))\<lparr>kernel := k\<rparr>,
         ready_events := evs @ drop (length evs) (ready_events (epoll_context m))\<rparr>\<rparr>"
  have "poll os timeout (epoll_context m) = (Ok (length evs), epoll_context ?m)"
    using assms(1-3) by (simp add: poll_def epoll_wait_def into_result_def)
  moreover have "pending 0 (length evs) ?m = evs"
    using assms(5) by (auto simp: pending_def discarded_def default_event_def filter_id_conv)
  then have "afold (dispatch_one os sub) [0..<length evs] None ?m = deliver os sub evs None ?m"
    using assms(4) dispatch_loop_delivers [of "length evs" ?m os sub 0 None] by simp
  then have "dispatch_events os sub msgs (length evs) ?m = abind (deliver os sub evs None) (dispatch_endpoint_event msgs) ?m"
    by (simp add: dispatch_events_def abind_def)
  ultimately show ?thesis by (simp add: run_with_timeout_def) (simp add: abind_def)
qed

text \<open>Two descriptors are ready and the first callback removes the second one.\<close>

definition drops_peer :: "raw_fd list subscriber" where
  "drops_peer = \<lparr>sub_init = (\<lambda>s. AddEvents (new_raw 5 EVENT_IN) (\<lambda>_. AddEvents (new_raw 6 EVENT_IN) (\<lambda>_. Return s))),
     sub_process = (\<lambda>s ev. RemoveEvents (empty_raw 6) (\<lambda>_. Return (s @ [ee_fd ev])))\<rparr>"

definition demo2 :: "(epoll_sim, raw_fd list) event_manager" where
  "demo2 = \<lparr>subscribers = \<lparr>sb_map = [1 \<mapsto> []], next_id = 2\<rparr>, epoll_context =
    \<lparr>epoll = \<lparr>epoll_fd = 3, kernel = \<lparr>sim_regs = [5 \<mapsto> new_raw 5 EVENT_IN, 6 \<mapsto> new_raw 6 EVENT_IN], sim_ready = [(5, 1), (6, 1)]\<rparr>\<rparr>,
     fd_dispatch = [5 \<mapsto> 1, 6 \<mapsto> 1], subscriber_watch_list = [1 \<mapsto> [5, 6]], ready_events = replicate 4 default_event\<rparr>,
     channel = None\<rparr>"

theorem batch_delivered_in_order_witness:
  "\<exists>r m. run_with_timeout (sim_os []) drops_peer ([] :: (epoll_sim, raw_fd list, unit) fn_msg list) 100 demo2 = (r, m) \<and>
     r = Ok (2, []) \<and> sb_map (subscribers m) 1 = Some [5]"
proof -
  have "sys_epoll_wait (sim_os []) (epoll_fd (epoll (epoll_context demo2))) (length (ready_events (epoll_context demo2))) 100
      (kernel (epoll (epoll_context demo2))) = ((2, 0, [new_raw 5 EVENT_IN, new_raw 6 EVENT_IN]), kernel (epoll (epoll_context demo2)))"
    by (simp add: demo2_def new_raw_def em_eval)
  then have "run_with_timeout (sim_os []) drops_peer ([] :: (epoll_sim, raw_fd list, unit) fn_msg list) 100 demo2 =
    abind (abind (deliver (sim_os []) drops_peer [new_raw 5 EVENT_IN, new_raw 6 EVENT_IN] None) (dispatch_endpoint_event []))
      (\<lambda>replies. alift (Ok (length [new_raw 5 EVENT_IN, new_raw 6 EVENT_IN], replies)))
      (demo2\<lparr>epoll_context := (epoll_context demo2)\<lparr>epoll := (epoll (epoll_context demo2))\<lparr>kernel := kernel (epoll (epoll_context demo2))\<rparr>,
         ready_events := [new_raw 5 EVENT_IN, new_raw 6 EVENT_IN] @
           drop (length [new_raw 5 EVENT_IN, new_raw 6 EVENT_IN]) (ready_events (epoll_context demo2))\<rparr>\<rparr>)"
    by (rule batch_delivered_in_order) (simp_all add: demo2_def new_raw_def with_data_raw_def EVENT_IN_def)
  then show ?thesis
    by (simp only: ex_simps) (simp add: demo2_def new_raw_def empty_raw_def drops_peer_def removed_by_def em_eval)
qed


lemma demo2_ok: "em_ok (sim_os []) sim_regs 0 demo2"
  by (auto simp: em_ok_def wrapper_ok_def demo2_def watched_def new_raw_def ee_fd_with_data_raw split: if_splits)


text \<open>
  The operations do not check who owns a descriptor. When one subscriber removes a descriptor of another and adds it for
  itself, the watch list of the first keeps the descriptor; removing the first subscriber later unregisters it although
  the second still watches it.
\<close>

definition two_subscribers :: "(epoll_sim, unit) event_manager" where
  "two_subscribers = \<lparr>subscribers = \<lparr>sb_map = [1 \<mapsto> (), 2 \<mapsto> ()], next_id = 3\<rparr>, epoll_context =
    \<lparr>epoll = \<lparr>epoll_fd = 3, kernel = \<lparr>sim_regs = [5 \<mapsto> new_raw 5 EVENT_IN], sim_ready = []\<rparr>\<rparr>,
     fd_dispatch = [5 \<mapsto> 1], subscriber_watch_list = [1 \<mapsto> [5]], ready_events = []\<rparr>, channel = None\<rparr>"

lemma foreign_removal_leaves_stale_entry:
  "\<exists>m m'. event_ops (sim_os []) 2 (RemoveEvents (empty_raw 5) (\<lambda>_. AddEvents (new_raw 5 EVENT_IN) Return)) two_subscribers = (Ok (Ok ()), m) \<and>
     fd_dispatch (epoll_context m) 5 = Some 2 \<and>
     remove_subscriber (sim_os []) 1 m = (Ok (), m') \<and>
     watched (epoll_context m') 2 = [5] \<and> fd_dispatch (epoll_context m') 5 = None \<and> sim_regs (kernel (epoll (epoll_context m'))) 5 = None"
  by (simp add: two_subscribers_def new_raw_def empty_raw_def wrapper_remove_def em_eval)

end
