(* ===== verification/LinuxCmdline.thy ===== *)
theory LinuxCmdline
  imports Prelude
begin

text \<open>
This theory models the kernel command line of linux-loader (cmdline/mod.rs): the two
argument lists, every operation that extends them, the size accounting against the
capacity, parsing of a complete command line and its serialisation.  Strings are lists
of Unicode code points with their UTF-8 encoding written out, because the capacity is
counted in bytes while the validity checks look at characters.
\<close>

section \<open>Strings\<close>

type_synonym rstring = "nat list"

definition str :: "string \<Rightarrow> rstring" where
  "str s = map of_char s"

definition utf8 :: "nat \<Rightarrow> nat list" where
  "utf8 c =
     (if c < 0x80 then [c]
      else if c < 0x800 then [0xC0 + c div 64, 0x80 + c mod 64]
      else if c < 0x10000 then [0xE0 + c div 4096, 0x80 + c div 64 mod 64, 0x80 + c mod 64]
      else [0xF0 + c div 262144, 0x80 + c div 4096 mod 64, 0x80 + c div 64 mod 64, 0x80 + c mod 64])"

definition as_bytes :: "rstring \<Rightarrow> nat list" where
  "as_bytes s = concat (map utf8 s)"

definition str_len :: "rstring \<Rightarrow> nat" where
  "str_len s = length (as_bytes s)"

definition is_whitespace :: "nat \<Rightarrow> bool" where
  "is_whitespace c \<longleftrightarrow> 9 \<le> c \<and> c \<le> 13 \<or> c = 32 \<or> c = 0x85 \<or> c = 0xA0 \<or> c = 0x1680 \<or> 0x2000 \<le> c \<and> c \<le> 0x200A \<or>
     c = 0x2028 \<or> c = 0x2029 \<or> c = 0x202F \<or> c = 0x205F \<or> c = 0x3000"

definition trim :: "rstring \<Rightarrow> rstring" where
  "trim s = rev (dropWhile is_whitespace (rev (dropWhile is_whitespace s)))"

definition usize_add :: "nat \<Rightarrow> nat \<Rightarrow> nat option" where
  "usize_add a b = (if a + b < 2 ^ 64 then Some (a + b) else None)"

text \<open>The digits of a number in base ten and sixteen, as \<open>Display\<close> and \<open>LowerHex\<close> write them.\<close>

function digits :: "nat \<Rightarrow> nat \<Rightarrow> rstring" where
  "digits base n = (if base < 2 then [] else
     (if n < base then [] else digits base (n div base)) @ [if n mod base < 10 then 48 + n mod base else 87 + n mod base])"
  by auto
termination by (relation "measure snd") (auto simp: div_less_dividend)

declare digits.simps [simp del]

section \<open>The command line (cmdline/mod.rs)\<close>

datatype cmdline_error =
  NullTerminator | NoBootArgsInserted | CmdlineInvalidCapacity | InvalidAscii | HasSpace | HasEquals
| MissingVal rstring | MmioSize | TooLarge | NoQuoteSpace | InvalidQuote

abbreviation "SPACE \<equiv> (32 :: nat)"
abbreviation "QUOTE \<equiv> (34 :: nat)"
abbreviation "EQUALS \<equiv> (61 :: nat)"

definition INIT_ARGS_SEPARATOR :: rstring where
  "INIT_ARGS_SEPARATOR = [32, 45, 45, 32]"

definition valid_char :: "nat \<Rightarrow> bool" where
  "valid_char c \<longleftrightarrow> 32 \<le> c \<and> c \<le> 126"

definition valid_str :: "rstring \<Rightarrow> (unit, cmdline_error) result" where
  "valid_str s = (if list_all valid_char s then Ok () else Err InvalidAscii)"

definition is_quoted :: "rstring \<Rightarrow> bool" where
  "is_quoted s \<longleftrightarrow> \<not> str_len s < 2 \<and> (case s of [] \<Rightarrow> False | c # _ \<Rightarrow> c = QUOTE \<and> last s = QUOTE)"

definition contains_double_quotes :: "rstring \<Rightarrow> bool" where
  "contains_double_quotes s \<longleftrightarrow> \<not> str_len s < 3 \<and> QUOTE \<in> set (take (str_len s - 2) (drop 1 s))"

definition valid_key :: "rstring \<Rightarrow> (unit, cmdline_error) result" where
  "valid_key s = (if \<not> list_all valid_char s then Err InvalidAscii
     else if SPACE \<in> set s then Err HasSpace
     else if EQUALS \<in> set s then Err HasEquals
     else Ok ())"

definition valid_value :: "rstring \<Rightarrow> (unit, cmdline_error) result" where
  "valid_value s = (if \<not> list_all valid_char s then Err InvalidAscii
     else if contains_double_quotes s then Err InvalidQuote
     else if SPACE \<in> set s \<and> \<not> is_quoted s then Err NoQuoteSpace
     else Ok ())"

record cmdline =
  boot_args :: rstring
  init_args :: rstring
  cl_capacity :: nat

definition cmdline_new :: "nat \<Rightarrow> (cmdline, cmdline_error) result" where
  "cmdline_new capacity = (if capacity = 0 then Err CmdlineInvalidCapacity
     else Ok \<lparr>boot_args = [], init_args = [], cl_capacity = capacity\<rparr>)"

definition get_null_terminated_representation_size :: "cmdline \<Rightarrow> nat" where
  "get_null_terminated_representation_size cl = str_len (boot_args cl) + 1 +
     (if init_args cl = [] then 0 else str_len INIT_ARGS_SEPARATOR + str_len (init_args cl))"

definition insert_str :: "rstring \<Rightarrow> (cmdline, unit, cmdline_error) act" where
  "insert_str slug cl = (let s = trim slug; sz = get_null_terminated_representation_size cl in
     abind (alift (rbind (valid_str s) (\<lambda>_.
         rbind (if boot_args cl \<noteq> [] then ok_or (usize_add sz 1) TooLarge else Ok sz) (\<lambda>sz.
         rbind (ok_or (usize_add sz (str_len s)) TooLarge) (\<lambda>sz.
         if cl_capacity cl < sz then Err TooLarge else Ok ())))))
       (\<lambda>_ cl. (Ok (), cl\<lparr>boot_args := boot_args cl @ (if boot_args cl \<noteq> [] then [SPACE] else []) @ s\<rparr>)) cl)"

definition insert_kv :: "rstring \<Rightarrow> rstring \<Rightarrow> (cmdline, unit, cmdline_error) act" where
  "insert_kv k v = abind (alift (valid_key k)) (\<lambda>_. abind (alift (valid_value v)) (\<lambda>_.
     insert_str (k @ [EQUALS] @ v)))"

primrec join_with :: "nat \<Rightarrow> rstring list \<Rightarrow> rstring" where
  "join_with c [] = []"
| "join_with c (v # vs) = v @ (if vs = [] then [] else c # join_with c vs)"

definition insert_multiple :: "rstring \<Rightarrow> rstring list \<Rightarrow> (cmdline, unit, cmdline_error) act" where
  "insert_multiple k vals = abind (alift (valid_key k)) (\<lambda>_.
     if vals = [] then alift (Err (MissingVal k))
     else abind (alift (rmap (\<lambda>v. rbind (valid_value v) (\<lambda>_. Ok v)) vals)) (\<lambda>vs.
       insert_str (k @ [EQUALS] @ join_with 44 vs)))"

definition insert_init_args :: "rstring \<Rightarrow> (cmdline, unit, cmdline_error) act" where
  "insert_init_args slug cl = (let s = trim slug; sz = get_null_terminated_representation_size cl in
     abind (alift (rbind (valid_str s) (\<lambda>_.
         rbind (ok_or (usize_add sz (if init_args cl = [] then str_len INIT_ARGS_SEPARATOR else 1)) TooLarge) (\<lambda>sz.
         rbind (ok_or (usize_add sz (str_len s)) TooLarge) (\<lambda>sz.
         if cl_capacity cl < sz then Err TooLarge else Ok ())))))
       (\<lambda>_ cl. (Ok (), cl\<lparr>init_args := init_args cl @ (if init_args cl \<noteq> [] then [SPACE] else []) @ s\<rparr>)) cl)"

text \<open>\<open>CString::new\<close> refuses a string with a zero in it.\<close>

definition cstring_new :: "rstring \<Rightarrow> (rstring, cmdline_error) result" where
  "cstring_new s = (if 0 \<in> set s then Err NullTerminator else Ok s)"

definition as_cstring :: "cmdline \<Rightarrow> (rstring, cmdline_error) result" where
  "as_cstring cl =
     (if boot_args cl = [] \<and> init_args cl = [] then cstring_new []
      else if boot_args cl = [] then Err NoBootArgsInserted
      else if init_args cl = [] then cstring_new (boot_args cl)
      else cstring_new (boot_args cl @ INIT_ARGS_SEPARATOR @ init_args cl))"

definition guestusize_to_str :: "u64 \<Rightarrow> rstring" where
  "guestusize_to_str sz =
     (if sz mod 0x40000000 = 0 then digits 10 (unat (sz div 0x40000000)) @ [71]
      else if sz mod 0x100000 = 0 then digits 10 (unat (sz div 0x100000)) @ [77]
      else if sz mod 0x400 = 0 then digits 10 (unat (sz div 0x400)) @ [75]
      else digits 10 (unat sz))"

definition add_virtio_mmio_device :: "u64 \<Rightarrow> u64 \<Rightarrow> u32 \<Rightarrow> u32 option \<Rightarrow> (cmdline, unit, cmdline_error) act" where
  "add_virtio_mmio_device sz baseaddr irq ident =
     (if sz = 0 then alift (Err MmioSize)
      else insert_str (str ''virtio_mmio.device='' @ guestusize_to_str sz @ str ''@0x'' @ digits 16 (unat baseaddr) @ [58] @
        digits 10 (unat irq) @ (case ident of Some i \<Rightarrow> [58] @ digits 10 (unat i) | None \<Rightarrow> [])))"

definition check_outside_double_quotes :: "rstring \<Rightarrow> bool" where
  "check_outside_double_quotes slug \<longleftrightarrow> even (length (filter (\<lambda>c. c = QUOTE) slug))"

text \<open>
  The first separator outside of quotes, with what is before and after it. Like \<open>match_indices\<close> the search goes on
  behind a separator it has passed.
\<close>

function split_separator :: "rstring \<Rightarrow> rstring \<Rightarrow> (rstring \<times> rstring) option" where
  "split_separator before s =
     (if take 4 s = INIT_ARGS_SEPARATOR then
        (if check_outside_double_quotes before then Some (before, drop 4 s)
         else split_separator (before @ take 4 s) (drop 4 s))
      else case s of [] \<Rightarrow> None | c # s \<Rightarrow> split_separator (before @ [c]) s)"
  by auto
termination
  by (relation "measure (\<lambda>(_, s). length s)") (auto simp: INIT_ARGS_SEPARATOR_def dest: arg_cong [where f = length])

declare split_separator.simps [simp del]

definition cmdline_try_from :: "rstring \<Rightarrow> nat \<Rightarrow> (cmdline, cmdline_error) result" where
  "cmdline_try_from raw capacity =
     (if capacity = 0 then Err CmdlineInvalidCapacity
      else let (boot, init) = (case split_separator [] raw of None \<Rightarrow> (raw, []) | Some p \<Rightarrow> p);
               boot = trim boot; init = trim init in
        rbind (ok_or (usize_add (str_len boot) 1) TooLarge) (\<lambda>sz.
        rbind (if init \<noteq> [] then rbind (ok_or (usize_add sz (str_len INIT_ARGS_SEPARATOR)) TooLarge) (\<lambda>sz.
            ok_or (usize_add sz (str_len init)) TooLarge) else Ok sz) (\<lambda>sz.
        if capacity < sz then Err CmdlineInvalidCapacity
        else Ok \<lparr>boot_args = boot, init_args = init, cl_capacity = capacity\<rparr>)))"

definition cmdline_to_vec :: "cmdline \<Rightarrow> (nat list, cmdline_error) result" where
  "cmdline_to_vec cl = rbind (as_cstring cl) (\<lambda>s. Ok (as_bytes s @ [0]))"

section \<open>Capacity\<close>

lemma as_bytes_simps [simp]: "as_bytes [] = []" "as_bytes (s @ t) = as_bytes s @ as_bytes t" "as_bytes (c # s) = utf8 c @ as_bytes s"
  by (simp_all add: as_bytes_def)

lemma str_len_simps [simp]: "str_len [] = 0" "str_len (s @ t) = str_len s + str_len t" "str_len (c # s) = length (utf8 c) + str_len s"
  by (simp_all add: str_len_def)

lemma utf8_ascii [simp]: "c < 128 \<Longrightarrow> utf8 c = [c]"
  by (simp add: utf8_def)

lemma usize_add_Some_iff: "usize_add a b = Some c \<longleftrightarrow> c = a + b \<and> c < 2 ^ 64"
  by (auto simp: usize_add_def)

definition cmdline_ok :: "cmdline \<Rightarrow> bool" where
  "cmdline_ok cl \<longleftrightarrow> get_null_terminated_representation_size cl \<le> cl_capacity cl \<and>
     list_all valid_char (boot_args cl) \<and> list_all valid_char (init_args cl)"

datatype cmdline_op =
    Insert rstring rstring | InsertMultiple rstring "rstring list" | InsertStr rstring | InsertInitArgs rstring
  | AddVirtioMmioDevice u64 u64 u32 "u32 option"

fun cmdline_op_run :: "cmdline_op \<Rightarrow> (cmdline, unit, cmdline_error) act" where
  "cmdline_op_run (Insert k v) = insert_kv k v"
| "cmdline_op_run (InsertMultiple k vs) = insert_multiple k vs"
| "cmdline_op_run (InsertStr s) = insert_str s"
| "cmdline_op_run (InsertInitArgs s) = insert_init_args s"
| "cmdline_op_run (AddVirtioMmioDevice sz base irq ident) = add_virtio_mmio_device sz base irq ident"

lemma str_len_separator [simp]: "str_len INIT_ARGS_SEPARATOR = 4"
  by (simp add: INIT_ARGS_SEPARATOR_def)

lemma insert_str_keeps: "keeps (\<lambda>cl. cmdline_ok cl \<and> cl_capacity cl = cap) (insert_str s)"
proof (rule keepsI)
  fix cl assume cl: "cmdline_ok cl \<and> cl_capacity cl = cap"
  show "(cmdline_ok (snd (insert_str s cl)) \<and> cl_capacity (snd (insert_str s cl)) = cap) \<and> fst (insert_str s cl) \<noteq> Panic"
    using cl by (auto simp: insert_str_def Let_def abind_def alift_def rbind_def ok_or_def cmdline_ok_def valid_str_def
        get_null_terminated_representation_size_def usize_add_Some_iff valid_char_def split: option.splits)
qed

lemma insert_init_args_keeps: "keeps (\<lambda>cl. cmdline_ok cl \<and> cl_capacity cl = cap) (insert_init_args s)"
proof (rule keepsI)
  fix cl assume cl: "cmdline_ok cl \<and> cl_capacity cl = cap"
  show "(cmdline_ok (snd (insert_init_args s cl)) \<and> cl_capacity (snd (insert_init_args s cl)) = cap) \<and> fst (insert_init_args s cl) \<noteq> Panic"
    using cl by (auto simp: insert_init_args_def Let_def abind_def alift_def rbind_def ok_or_def cmdline_ok_def valid_str_def
        get_null_terminated_representation_size_def usize_add_Some_iff valid_char_def split: option.splits if_splits)
qed

lemma valid_not_Panic [simp]: "valid_key k \<noteq> Panic" "valid_value v \<noteq> Panic"
  by (simp_all add: valid_key_def valid_value_def)

lemma rmap_not_Panic: "(\<And>x. f x \<noteq> Panic) \<Longrightarrow> rmap f xs \<noteq> Panic"
  by (induction xs) (auto simp: rbind_eq_Panic_iff)

lemma cmdline_op_keeps: "keeps (\<lambda>cl. cmdline_ok cl \<and> cl_capacity cl = cap) (cmdline_op_run c)"
  by (cases c) (auto simp: insert_kv_def insert_multiple_def add_virtio_mmio_device_def rbind_eq_Panic_iff
      intro!: keeps_abind keeps_alift insert_str_keeps insert_init_args_keeps rmap_not_Panic)

lemma as_bytes_printable: "list_all valid_char s \<Longrightarrow> as_bytes s = s"
  by (induction s) (auto simp: valid_char_def)

section \<open>Separators\<close>

definition quotes :: "rstring \<Rightarrow> nat" where
  "quotes s = length (filter (\<lambda>c. c = QUOTE) s)"

lemma quotes_simps [simp]: "quotes [] = 0" "quotes (s @ t) = quotes s + quotes t" "quotes (c # s) = (if c = QUOTE then 1 else 0) + quotes s"
  "quotes INIT_ARGS_SEPARATOR = 0"
  by (simp_all add: quotes_def INIT_ARGS_SEPARATOR_def)

lemma quotes_take: "quotes (take n s) \<le> quotes s"
  by (metis append_take_drop_id le_add1 quotes_simps(2))

lemma outside_iff: "check_outside_double_quotes s \<longleftrightarrow> even (quotes s)"
  by (simp add: check_outside_double_quotes_def quotes_def)

lemma split_separator_None:
  assumes "\<And>i. take 4 (drop i s) = INIT_ARGS_SEPARATOR \<Longrightarrow> odd (quotes (before @ take i s))"
  shows "split_separator before s = None"
  using assms
proof (induction before s rule: split_separator.induct)
  case (1 before s)
  show ?case
  proof (cases "take 4 s = INIT_ARGS_SEPARATOR")
    case True
    then have "odd (quotes before)" using 1(3) [of 0] by simp
    moreover have "split_separator (before @ take 4 s) (drop 4 s) = None"
    proof (rule 1(1) [OF True])
      show "\<not> check_outside_double_quotes before" using \<open>odd (quotes before)\<close> by (simp add: outside_iff)
      fix i assume "take 4 (drop i (drop 4 s)) = INIT_ARGS_SEPARATOR"
      then have "take 4 (drop (4 + i) s) = INIT_ARGS_SEPARATOR" by (simp add: add.commute)
      from 1(3) [OF this] show "odd (quotes ((before @ take 4 s) @ take i (drop 4 s)))" by (metis append_assoc take_add)
    qed
    ultimately show ?thesis using True by (simp add: split_separator.simps [of before s] outside_iff)
  next
    case False
    show ?thesis
    proof (cases s)
      case Nil
      then show ?thesis using False by (simp add: split_separator.simps [of before "[]"])
    next
      case (Cons c t)
      have "split_separator (before @ [c]) t = None"
        by (rule 1(2) [OF False Cons]) (use 1(3) [of "Suc _"] Cons in \<open>simp add: add.commute\<close>)
      then show ?thesis using False Cons by (simp add: split_separator.simps [of before "c # t"])
    qed
  qed
qed

lemma split_separator_Some:
  assumes "even (quotes (before @ b))"
    and "\<And>i. i < length b \<Longrightarrow> take 4 (drop i (b @ INIT_ARGS_SEPARATOR)) = INIT_ARGS_SEPARATOR \<Longrightarrow> odd (quotes (before @ take i b))"
  shows "split_separator before (b @ INIT_ARGS_SEPARATOR @ rest) = Some (before @ b, rest)"
  using assms
proof (induction "length b" arbitrary: before b rule: less_induct)
  case less
  let ?s = "b @ INIT_ARGS_SEPARATOR @ rest" and ?b = "drop 4 b"
  have len: "length INIT_ARGS_SEPARATOR = 4" by (simp add: INIT_ARGS_SEPARATOR_def)
  have four: "take 4 ?s = take 4 (b @ INIT_ARGS_SEPARATOR)" using len by simp
  show ?case
  proof (cases b)
    case Nil
    then show ?thesis using less.prems(1) len by (simp add: split_separator.simps [of before "INIT_ARGS_SEPARATOR @ rest"] outside_iff)
  next
    case (Cons c t)
    show ?thesis
    proof (cases "take 4 ?s = INIT_ARGS_SEPARATOR")
      case True
      then have odd: "odd (quotes before)" using less.prems(2) [of 0] Cons four by simp
      have "4 \<le> length b"
      proof (rule ccontr)
        assume "\<not> 4 \<le> length b"
        then have "b = take (length b) (take 4 ?s)" by simp
        then have "quotes b \<le> quotes INIT_ARGS_SEPARATOR" unfolding True by (metis quotes_take)
        then have "quotes b = 0" by simp
        then show False using odd less.prems(1) by simp
      qed
      then have "take 4 b = INIT_ARGS_SEPARATOR" using True by simp
      then have b': "b = INIT_ARGS_SEPARATOR @ drop 4 b" by (metis append_take_drop_id)
      have "split_separator (before @ INIT_ARGS_SEPARATOR) (?b @ INIT_ARGS_SEPARATOR @ rest) = Some ((before @ INIT_ARGS_SEPARATOR) @ ?b, rest)"
      proof (rule less.hyps)
        show "length ?b < length b" using Cons by simp
        show "even (quotes ((before @ INIT_ARGS_SEPARATOR) @ ?b))" using less.prems(1) arg_cong [OF b', of quotes] by simp
        fix i assume i: "i < length ?b" "take 4 (drop i (?b @ INIT_ARGS_SEPARATOR)) = INIT_ARGS_SEPARATOR"
        have "drop (4 + i) (b @ INIT_ARGS_SEPARATOR) = drop i (?b @ INIT_ARGS_SEPARATOR)" using i(1) by (simp add: add.commute)
        then have "odd (quotes (before @ take (4 + i) b))" using less.prems(2) [of "4 + i"] i by simp
        moreover have "take (4 + i) b = INIT_ARGS_SEPARATOR @ take i ?b" using b' by (metis take_add \<open>take 4 b = INIT_ARGS_SEPARATOR\<close>)
        ultimately show "odd (quotes ((before @ INIT_ARGS_SEPARATOR) @ take i ?b))" by simp
      qed
      moreover have "split_separator before ?s = split_separator (before @ INIT_ARGS_SEPARATOR) (?b @ INIT_ARGS_SEPARATOR @ rest)"
        using True odd \<open>4 \<le> length b\<close> by (subst split_separator.simps) (simp add: outside_iff)
      ultimately show ?thesis using b' by simp
    next
      case False
      have "split_separator (before @ [c]) (t @ INIT_ARGS_SEPARATOR @ rest) = Some ((before @ [c]) @ t, rest)"
        using less.prems(1) less.prems(2) [of "Suc _"] Cons by (intro less.hyps) auto
      then show ?thesis using False Cons by (simp add: split_separator.simps [of before "c # t @ INIT_ARGS_SEPARATOR @ rest"])
    qed
  qed
qed

section \<open>Numbers\<close>

fun digit_value :: "nat \<Rightarrow> nat" where
  "digit_value c = (if c < 58 then c - 48 else c - 87)"

definition number :: "nat \<Rightarrow> rstring \<Rightarrow> nat" where
  "number base s = foldl (\<lambda>n c. base * n + digit_value c) 0 s"

lemma number_digits:
  assumes "2 \<le> base" "base \<le> 16"
  shows "number base (digits base n) = n"
proof (induction n rule: less_induct)
  case (less n)
  have "digit_value (if n mod base < 10 then 48 + n mod base else 87 + n mod base) = n mod base" by simp
  moreover have "number base (digits base (n div base)) = n div base" if "base \<le> n" using less [of "n div base"] that assms by simp
  ultimately show ?case using assms by (subst digits.simps) (auto simp: number_def)
qed

text \<open>The number of bytes a size with a suffix stands for.\<close>

definition size_value :: "rstring \<Rightarrow> nat" where
  "size_value s = (if last s = 71 then number 10 (butlast s) * 2 ^ 30 else if last s = 77 then number 10 (butlast s) * 2 ^ 20
     else if last s = 75 then number 10 (butlast s) * 2 ^ 10 else number 10 s)"

lemma last_digits: "last (digits 10 n) < 58"
  by (subst digits.simps) simp

lemma guestusize_to_str_value: "size_value (guestusize_to_str sz) = unat sz"
proof -
  have d: "unat (sz div m) * unat m = unat sz" if "sz mod m = 0" for m
  proof -
    have "unat m dvd unat sz" using that word_mod_eq_0_iff [of sz m] by simp
    then show ?thesis by (simp add: unat_div)
  qed
  have n: "number 10 (digits 10 k) = k" for k by (rule number_digits) simp_all
  show ?thesis
    using d [of "0x40000000"] d [of "0x100000"] d [of "0x400"] last_digits [of "unat sz"]
    by (auto simp: guestusize_to_str_def size_value_def n)
qed

section \<open>Properties\<close>

text \<open>
C30. Whatever is inserted into a command line, and however often insertions are refused, the text that is handed to the kernel
  fits: with its terminating zero it takes at most the capacity, everything before the zero is printable ASCII, and the only
  reason for which no text is produced is that there are init arguments and no boot arguments.
\<close>
theorem cmdline_within_capacity:
  assumes "cmdline_new capacity = Ok cl0" "run_calls cmdline_op_run ops cl0 = (r, cl)"
  shows "r \<noteq> Panic \<and> (case cmdline_to_vec cl of
      Ok bs \<Rightarrow> length bs \<le> capacity \<and> last bs = 0 \<and> list_all valid_char (butlast bs)
    | Err e \<Rightarrow> e = NoBootArgsInserted \<and> boot_args cl = [] \<and> init_args cl \<noteq> []
    | Panic \<Rightarrow> False)"
proof -
  have "cmdline_ok cl0 \<and> cl_capacity cl0 = capacity"
    using assms(1) by (auto simp: cmdline_new_def cmdline_ok_def get_null_terminated_representation_size_def split: if_splits)
  from keepsD [OF run_calls_keeps [where f = cmdline_op_run and cs = ops, OF cmdline_op_keeps] this]
  have cl: "cmdline_ok cl" "cl_capacity cl = capacity" "r \<noteq> Panic" using assms(2) by simp_all
  have "0 \<notin> set (boot_args cl)" "0 \<notin> set (init_args cl)" "0 \<notin> set INIT_ARGS_SEPARATOR" "list_all valid_char INIT_ARGS_SEPARATOR"
    using cl(1) by (auto simp: cmdline_ok_def list_all_iff valid_char_def INIT_ARGS_SEPARATOR_def)
  moreover have "str_len (boot_args cl) = length (boot_args cl)" "str_len (init_args cl) = length (init_args cl)"
    using cl(1) by (simp_all add: cmdline_ok_def str_len_def as_bytes_printable)
  ultimately show ?thesis
    using cl by (auto simp: cmdline_to_vec_def as_cstring_def cstring_new_def cmdline_ok_def as_bytes_printable
        get_null_terminated_representation_size_def INIT_ARGS_SEPARATOR_def butlast_append)
qed

lemmas cmdline_eval = cmdline_to_vec_def as_cstring_def cstring_new_def insert_str_def insert_init_args_def insert_kv_def
  add_virtio_mmio_device_def guestusize_to_str_def digits.simps valid_str_def valid_key_def valid_value_def valid_char_def
  contains_double_quotes_def is_quoted_def trim_def is_whitespace_def str_def usize_add_def get_null_terminated_representation_size_def
  INIT_ARGS_SEPARATOR_def Let_def abind_def alift_def

theorem cmdline_within_capacity_witness:
  "cmdline_to_vec (snd (run_calls cmdline_op_run [InsertStr (str ''quiet ''), AddVirtioMmioDevice 0x1000 0x1f 5 None, Insert (str ''a'') (str ''b'')]
      \<lparr>boot_args = [], init_args = [], cl_capacity = 38\<rparr>)) = Ok (str ''quiet virtio_mmio.device=4K@0x1f:5'' @ [0]) \<and>
   length (str ''quiet virtio_mmio.device=4K@0x1f:5'' @ [0]) \<le> 38"
proof -
  let ?ops = "[InsertStr (str ''quiet ''), AddVirtioMmioDevice 0x1000 0x1f 5 None, Insert (str ''a'') (str ''b'')]"
  let ?cl = "\<lparr>boot_args = [], init_args = [], cl_capacity = 38\<rparr>"
  have new: "cmdline_new 38 = Ok ?cl" by (simp add: cmdline_new_def)
  have "cmdline_to_vec (snd (run_calls cmdline_op_run ?ops ?cl)) = Ok (str ''quiet virtio_mmio.device=4K@0x1f:5'' @ [0])"
    by (simp add: cmdline_eval)
  moreover have "run_calls cmdline_op_run ?ops ?cl = (fst (run_calls cmdline_op_run ?ops ?cl), snd (run_calls cmdline_op_run ?ops ?cl))" by simp
  ultimately show ?thesis using cmdline_within_capacity [OF new] by fastforce
qed

text \<open>
C29. Writing a command line and reading it back gives the same boot and init arguments, if they are trimmed, there are boot
  arguments, the quotes of the boot arguments are balanced, and every separator in the boot arguments, including one completed by
  the separator that follows them, is inside quotes.
\<close>
theorem cmdline_roundtrip:
  assumes "cmdline_ok cl" "cl_capacity cl < 2 ^ 64" "boot_args cl \<noteq> []" "trim (boot_args cl) = boot_args cl" "trim (init_args cl) = init_args cl"
    and "even (quotes (boot_args cl))"
    and "\<And>i. i < length (boot_args cl) \<Longrightarrow>
      take 4 (drop i (boot_args cl @ INIT_ARGS_SEPARATOR)) = INIT_ARGS_SEPARATOR \<Longrightarrow> odd (quotes (take i (boot_args cl)))"
  shows "rbind (as_cstring cl) (\<lambda>s. cmdline_try_from s (cl_capacity cl)) = Ok cl"
proof -
  have nz: "0 \<notin> set (boot_args cl)" "0 \<notin> set (init_args cl)" "0 \<notin> set INIT_ARGS_SEPARATOR"
    using assms(1) by (auto simp: cmdline_ok_def list_all_iff valid_char_def INIT_ARGS_SEPARATOR_def)
  have fit: "get_null_terminated_representation_size cl \<le> cl_capacity cl" using assms(1) by (simp add: cmdline_ok_def)
  show ?thesis
  proof (cases "init_args cl = []")
    case True
    have "split_separator [] (boot_args cl) = None"
    proof (rule split_separator_None)
      fix i assume s: "take 4 (drop i (boot_args cl)) = INIT_ARGS_SEPARATOR"
      then have "length (take 4 (drop i (boot_args cl))) = 4" by (simp add: INIT_ARGS_SEPARATOR_def)
      then have "i + 4 \<le> length (boot_args cl)" by simp
      then show "odd (quotes ([] @ take i (boot_args cl)))" using assms(7) [of i] s by simp
    qed
    then show ?thesis using True assms(2-5) nz fit
      by (cases cl) (auto simp: as_cstring_def cstring_new_def cmdline_try_from_def usize_add_def get_null_terminated_representation_size_def)
  next
    case False
    have "split_separator [] (boot_args cl @ INIT_ARGS_SEPARATOR @ init_args cl) = Some ([] @ boot_args cl, init_args cl)"
      using assms(6,7) by (intro split_separator_Some) simp_all
    then show ?thesis using False assms(2-5) nz fit
      by (cases cl) (auto simp: as_cstring_def cstring_new_def cmdline_try_from_def usize_add_def get_null_terminated_representation_size_def)
  qed
qed

theorem cmdline_roundtrip_witness:
  "rbind (as_cstring \<lparr>boot_args = str ''a=\"b -- c\"'', init_args = str ''-v'', cl_capacity = 64\<rparr>) (\<lambda>s. cmdline_try_from s 64) =
     Ok \<lparr>boot_args = str ''a=\"b -- c\"'', init_args = str ''-v'', cl_capacity = 64\<rparr>"
proof -
  let ?b = "str ''a=\"b -- c\"''" let ?cl = "\<lparr>boot_args = ?b, init_args = str ''-v'', cl_capacity = 64\<rparr>"
  have "list_all (\<lambda>i. take 4 (drop i (?b @ INIT_ARGS_SEPARATOR)) = INIT_ARGS_SEPARATOR \<longrightarrow> odd (quotes (take i ?b))) [0..<length ?b]"
    by code_simp
  then have all: "\<forall>i \<in> {0..<length ?b}. take 4 (drop i (?b @ INIT_ARGS_SEPARATOR)) = INIT_ARGS_SEPARATOR \<longrightarrow> odd (quotes (take i ?b))"
    unfolding list_all_iff set_upt .
  have sep: "odd (quotes (take i ?b))" if "i < length ?b" "take 4 (drop i (?b @ INIT_ARGS_SEPARATOR)) = INIT_ARGS_SEPARATOR" for i
    using all that(2) atLeastLessThan_iff [of i 0 "length ?b", THEN iffD2, OF conjI [OF le0 that(1)]] by blast
  have "cmdline_ok ?cl" "trim ?b = ?b" "trim (str ''-v'') = str ''-v''" "even (quotes ?b)" "?b \<noteq> []"
    by (simp_all add: cmdline_eval cmdline_ok_def)
  then have "rbind (as_cstring ?cl) (\<lambda>s. cmdline_try_from s (cl_capacity ?cl)) = Ok ?cl"
    by (intro cmdline_roundtrip) (simp_all add: sep del: append_Cons drop_append take_append)
  then show ?thesis by simp
qed

text \<open>
  A value with a single double quote at its start passes the check of values. The separator before the init arguments is then inside
  quotes, and they are read back as boot arguments.
\<close>

lemma unbalanced_value_swallows_init_args:
  "run_calls cmdline_op_run [Insert (str ''a'') (str ''\"b''), InsertInitArgs (str ''-v'')] \<lparr>boot_args = [], init_args = [], cl_capacity = 64\<rparr> =
     (Ok (), \<lparr>boot_args = str ''a=\"b'', init_args = str ''-v'', cl_capacity = 64\<rparr>)"
  "rbind (as_cstring \<lparr>boot_args = str ''a=\"b'', init_args = str ''-v'', cl_capacity = 64\<rparr>) (\<lambda>s. cmdline_try_from s 64) =
     Ok \<lparr>boot_args = str ''a=\"b -- -v'', init_args = [], cl_capacity = 64\<rparr>"
proof -
  show "run_calls cmdline_op_run [Insert (str ''a'') (str ''\"b''), InsertInitArgs (str ''-v'')] \<lparr>boot_args = [], init_args = [], cl_capacity = 64\<rparr> =
     (Ok (), \<lparr>boot_args = str ''a=\"b'', init_args = str ''-v'', cl_capacity = 64\<rparr>)"
    by (simp add: cmdline_eval)
  have "split_separator [] (str ''a=\"b'' @ INIT_ARGS_SEPARATOR @ str ''-v'') = None" by code_simp
  then show "rbind (as_cstring \<lparr>boot_args = str ''a=\"b'', init_args = str ''-v'', cl_capacity = 64\<rparr>) (\<lambda>s. cmdline_try_from s 64) =
     Ok \<lparr>boot_args = str ''a=\"b -- -v'', init_args = [], cl_capacity = 64\<rparr>"
    by (simp add: cmdline_eval cmdline_try_from_def)
qed

end
