(* ===== verification/Spec2Isabelle.thy ===== *)
theory Spec2Isabelle
  imports AddressAllocator IdAllocator SeccompFrontend AmlCodec Madt VirtBlock VirtVsock DeviceBus EventManager LinuxCmdline
begin

text \<open>
  \<^bold>\<open>A verification development for the rust-vmm components.\<close>

  The repository is a set of crates a virtual machine monitor is built from.  They share no global
  state; a monitor composes them.  The development models the following crates, each as a group of
  theories over the shared theory \<open>Prelude\<close>, which holds the result type
  \<open>('a, 'e) result = Ok | Err | Panic\<close>, state actions, folds and maps over fallible functions, the
  ordered map behind \<^verbatim>\<open>BTreeMap\<close>, and the checked arithmetic of Rust on fixed-width words.

  \<^bold>\<open>vm-allocator.\<close>  \<open>AllocTypes\<close> has the ranges, constraints, policies and errors of
  \<^verbatim>\<open>vm-allocator/src/lib.rs\<close> and the alignment functions.  \<open>IntervalTree\<close> has the AVL tree of
  \<^verbatim>\<open>allocation_engine/interval_tree.rs\<close> (\<^verbatim>\<open>InnerNode\<close>): searches, rotations, insertion, deletion and
  the search for a candidate under each policy, with balance, order and disjointness as its invariant.
  \<open>AllocEngine\<close> has \<^verbatim>\<open>IntervalTree\<close> itself, whose \<^verbatim>\<open>allocate\<close> and \<^verbatim>\<open>free\<close> are sequences of tree updates
  that can fail in the middle; they are state actions, and every outcome is described.
  \<open>AddressAllocator\<close> adds the public interface and states what a client may rely on: ranges held are
  disjoint, allocation is first fit, release returns exactly the released addresses.  Its contract is
  the locale \<open>range_allocator\<close>.  \<open>IdAllocator\<close> is the identifier allocator, refined to the least
  identifier that is not in use.

  \<^bold>\<open>seccompiler.\<close>  \<open>SeccompBpf\<close> has the BPF instructions the back end emits and a machine that runs
  them; the machine is also given abstractly, by the locale \<open>bpf_machine\<close>, as the documented behaviour
  of the kernel.  \<open>SeccompCompiler\<close> has conditions, rules and filters of \<^verbatim>\<open>backend/\<close> and their
  compilation.  The main theorem says that the compiled program decides every system call as the filter
  prescribes; others bound its jumps and its length and show that compilation cannot panic.
  \<open>SeccompFrontend\<close> has the JSON front end (\<^verbatim>\<open>frontend/json.rs\<close>) and the entry points, and carries the
  theorem through to JSON filters.

  \<^bold>\<open>acpi_tables.\<close>  \<open>AcpiBytes\<close> has little-endian words, byte sinks (locale \<open>aml_sink\<close>), checksums and
  the table header.  \<open>Aml\<close> has every term of \<^verbatim>\<open>aml.rs\<close> as the bytes it serialises to, and the term
  language as a datatype; \<open>AmlCodec\<close> reads these bytes back: package lengths, integers and containers.
  \<open>AcpiTables\<close> has the generic table, RSDP, XSDT, MCFG, SLIT, BERT and FACS, and the locale
  \<open>running_table\<close> for tables that keep a running checksum while entries are added; \<open>Madt\<close> is the
  interrupt controller table with its thirteen structures.  A table is valid when its bytes sum to zero
  and its length field is its length, and every operation is shown to keep tables valid.

  \<^bold>\<open>Conventions.\<close>  Integers of fixed width are words and wrap where the code lets them; checked
  operations return an option as in Rust.  A panic is \<open>Panic\<close> or, in the theories about ACPI, where no
  other error exists, \<open>None\<close>.  \<^verbatim>\<open>usize\<close> is a natural number where no operation can reach its bound.
  All functions are total and terminate without fuel.  Functions outside the repository (the JSON
  reader, the kernel, the tables of system calls generated from its headers) are arguments, and what is
  assumed of them is a hypothesis of the theorem.

  \<^bold>\<open>Not modelled.\<close>  Wrappers of system calls (kvm-ioctls, most of vmm-sys-util, the mmap back ends
  of vm-memory), structures generated from kernel headers (kvm-bindings, virtio-bindings), the
  generated system call tables, and the crates linux-loader, vm-device, vm-memory, virtio-queue with the
  virtio devices and event-manager.
\<close>

section \<open>From the allocator to the bus\<close>

definition mmio_resource :: "range_inclusive \<Rightarrow> resource" where
  "mmio_resource r = MmioAddressRange (ri_start r) (range_len r)"

definition bus_range_of :: "range_inclusive \<Rightarrow> u64 bus_range" where
  "bus_range_of r = \<lparr>br_base = ri_start r, br_size = range_len r\<rparr>"

lemma mmio_resource_ranges:
  "mmio_ranges (map mmio_resource rs) = map bus_range_of rs" "pio_ranges (map mmio_resource rs) = []"
  by (induction rs) (simp_all add: mmio_ranges_def pio_ranges_def mmio_resource_def bus_range_of_def)

lemma bus_range_of_ok:
  assumes "valid_range r"
  shows "br_ok (bus_range_of r) \<and> br_set (bus_range_of r) = range_set r"
proof -
  have le: "unat (ri_start r) \<le> unat (ri_end r)" using assms by (simp add: valid_range_def word_le_nat_alt)
  note len = unat_range_len [OF assms]
  then have nz: "range_len r \<noteq> 0" by auto
  moreover have "unat (range_len r - 1) = unat (ri_end r) - unat (ri_start r)"
    using len nz by (simp add: unat_minus_one)
  moreover have "unat (ri_end r) < 2 ^ LENGTH(64)" by (rule unsigned_less)
  ultimately have "br_ok (bus_range_of r)" using le by (simp add: br_ok_def bus_range_of_def)
  then show ?thesis
    by (simp add: br_set_def bus_range_of_def br_last_def range_set_def range_len_def)
qed



end
